(* ===== verification/Prelude.thy ===== *)
theory Prelude
  imports Main "HOL-Library.Word"
begin

text \<open>
  Shared vocabulary of the development: the machine integers of the code
  (\<open>u8\<close>, \<open>u32\<close>, \<open>u64\<close> and the 128-bit \<open>oc::block\<close>), the errors the code throws
  as values of a sum type, and the generic lemmas on results, lists, bits and
  exclusive or that every component uses.
\<close>

unbundle bit_operations_syntax

section \<open>Machine types\<close>

type_synonym u8 = "8 word"
type_synonym u32 = "32 word"
type_synonym u64 = "64 word"
type_synonym u128 = "128 word"
type_synonym block = "128 word"

text \<open>A point of the input sets: \<open>using pt = vector<u64>\<close> (config.h).\<close>
type_synonym pt = "u64 list"

section \<open>Errors as values\<close>

text \<open>
  The exceptions the code throws, an \<open>assert\<close> that fails (a runtime error with the text
  \<open>assertion\<close>: the asserts are checked, as in a debug build), undefined behaviour, and the end
  of the process when an exception leaves a thread.
\<close>
datatype error =
    Runtime_error string
  | Out_of_range string
  | Invalid_argument string
  | Undefined_behaviour string
  | Terminate

type_synonym 'a result = "error + 'a"

fun rbind :: "'a result \<Rightarrow> ('a \<Rightarrow> 'b result) \<Rightarrow> 'b result" where
  "rbind (Inl e) f = Inl e"
| "rbind (Inr x) f = f x"

fun rmap :: "('a \<Rightarrow> 'b) \<Rightarrow> 'a result \<Rightarrow> 'b result" where
  "rmap f (Inl e) = Inl e"
| "rmap f (Inr x) = Inr (f x)"

text \<open>
  A routine that is run by \<open>numThreads\<close> threads: with more than one, an exception leaves a
  \<open>std::thread\<close>, or leaves the caller while the other threads are still to be joined, and
  either calls \<open>std::terminate\<close>.
\<close>
fun thread_throw :: "nat \<Rightarrow> 'a result \<Rightarrow> 'a result" where
  "thread_throw numThreads (Inr x) = Inr x"
| "thread_throw numThreads (Inl (Undefined_behaviour s)) = Inl (Undefined_behaviour s)"
| "thread_throw numThreads (Inl e) = Inl (if 1 < numThreads then Terminate else e)"

text \<open>Run a fallible step over a list, stopping at the first error.\<close>
fun mapR :: "('a \<Rightarrow> 'b result) \<Rightarrow> 'a list \<Rightarrow> 'b list result" where
  "mapR f [] = Inr []"
| "mapR f (x # xs) = rbind (f x) (\<lambda>y. rbind (mapR f xs) (\<lambda>ys. Inr (y # ys)))"

text \<open>Run a fallible state change over a list, in order.\<close>
fun foldR :: "('a \<Rightarrow> 's \<Rightarrow> 's result) \<Rightarrow> 'a list \<Rightarrow> 's \<Rightarrow> 's result" where
  "foldR f [] s = Inr s"
| "foldR f (x # xs) s = rbind (f x s) (foldR f xs)"

lemma rbind_Inr_iff [simp]: "rbind m f = Inr y \<longleftrightarrow> (\<exists>x. m = Inr x \<and> f x = Inr y)"
  by (cases m) auto

lemma rmap_Inr_iff [simp]: "rmap f m = Inr y \<longleftrightarrow> (\<exists>x. m = Inr x \<and> y = f x)"
  by (cases m) auto

lemma mapR_Inr: "(\<And>x. x \<in> set xs \<Longrightarrow> f x = Inr (g x)) \<Longrightarrow> mapR f xs = Inr (map g xs)"
  by (induction xs) auto

lemma mapR_set: "mapR f xs = Inr ys \<Longrightarrow> y \<in> set ys \<Longrightarrow> \<exists>x \<in> set xs. f x = Inr y"
  by (induction xs arbitrary: ys) auto

lemma mapR_length: "mapR f xs = Inr ys \<Longrightarrow> length ys = length xs"
  by (induction xs arbitrary: ys) auto

lemma mapR_upt:
  assumes "\<And>i. i < n \<Longrightarrow> \<exists>y. f i = Inr y \<and> P i y"
  shows "\<exists>ys. mapR f [0..<n] = Inr ys \<and> length ys = n \<and> (\<forall>i < n. P i (ys ! i))"
proof -
  obtain g where g: "\<And>i. i < n \<Longrightarrow> f i = Inr (g i) \<and> P i (g i)" using assms by metis
  then have "mapR f [0..<n] = Inr (map g [0..<n])" by (intro mapR_Inr) simp
  then show ?thesis using g by (intro exI [of _ "map g [0..<n]"]) simp
qed

lemma foldR_append: "foldR f (xs @ ys) s = rbind (foldR f xs s) (foldR f ys)"
proof (induction xs arbitrary: s)
  case (Cons x xs)
  then show ?case by (cases "f x s") simp_all
qed simp

text \<open>A loop that keeps an invariant and never fails.\<close>
lemma foldR_upt_inv:
  assumes "\<And>i s. i < n \<Longrightarrow> I i s \<Longrightarrow> \<exists>s'. f i s = Inr s' \<and> I (Suc i) s'" "I 0 s"
  shows "\<exists>s'. foldR f [0..<n] s = Inr s' \<and> I n s'"
  using assms(1)
proof (induction n)
  case (Suc n)
  then obtain s' where "foldR f [0..<n] s = Inr s'" "I n s'" using less_SucI by blast
  then show ?case using Suc.prems [of n s'] by (auto simp: foldR_append)
qed (use assms(2) in simp)

section \<open>Bits, division and exclusive or\<close>

named_theorems xor_simps "normalisation of exclusive or on words"

lemma xor_self_left [simp]: "a XOR (a XOR b) = (b::'a::len word)"
  by (metis xor.assoc xor_self_eq xor.left_neutral)

lemma xor_self_right [simp]: "(b XOR a) XOR a = (b::'a::len word)"
  by (simp add: xor.assoc)

lemma xor_eq_iff_zero: "a XOR b = 0 \<longleftrightarrow> a = (b::'a::len word)"
  by (metis xor_self_left xor_self_eq xor.right_neutral)

lemmas xor_ac [xor_simps] = xor.assoc xor.commute xor.left_commute

text \<open>Exclusive or of a list of words, the code's accumulation loops.\<close>
definition xor_list :: "'a::len word list \<Rightarrow> 'a word" where
  "xor_list xs = foldr (XOR) xs 0"

lemma xor_list_Nil [simp]: "xor_list [] = 0"
  and xor_list_Cons [simp]: "xor_list (x # xs) = x XOR xor_list xs"
  by (simp_all add: xor_list_def)

lemma xor_list_append [simp]: "xor_list (xs @ ys) = xor_list xs XOR xor_list ys"
  by (induction xs) (simp_all add: xor.assoc)

lemma foldl_xor: "foldl (XOR) a xs = a XOR xor_list xs"
  by (induction xs arbitrary: a) (simp_all add: xor.assoc)

lemma xor_list_map2_xor:
  "length xs = length ys \<Longrightarrow> xor_list (map2 (XOR) xs ys) = xor_list xs XOR xor_list ys"
  by (induction xs ys rule: list_induct2) (simp_all add: xor_simps)

lemma bit_u_iff_odd: "bit w n \<longleftrightarrow> n < LENGTH('a) \<and> odd (unat w div 2 ^ n)" for w :: "'a::len word"
proof -
  have "bit w n \<longleftrightarrow> bit (unat w) n \<and> n < LENGTH('a)"
    by (metis bit_imp_le_length bit_unsigned_iff possible_bit_nat)
  then show ?thesis by (auto simp: bit_iff_odd)
qed

lemma horner_sum_less: "horner_sum of_bool 2 bs < (2::nat) ^ length bs"
  by (induction bs) (auto simp: of_bool_def)

lemma sum_lessThan_2: "(\<Sum>i<2. f i) = f 0 + f (1::nat)" for f :: "nat \<Rightarrow> 'a::comm_monoid_add"
  by (simp add: numeral_2_eq_2)

lemma mod_pow2_Suc: "n mod 2 ^ Suc i = (if odd (n div 2 ^ i) then 2 ^ i else 0) + n mod 2 ^ i" for n :: nat
  using mod_mult2_eq [of n "2 ^ i" 2] by (auto simp: mult.commute odd_iff_mod_2_eq_one)

lemma div_eq_iff_range: "(v::nat) div k = q \<longleftrightarrow> k * q \<le> v \<and> v < k * q + k" if "0 < k"
proof -
  have "v div k = q \<longleftrightarrow> q \<le> v div k \<and> v div k < Suc q" by auto
  then show ?thesis using that
    by (simp add: less_eq_div_iff_mult_less_eq div_less_iff_less_mult ac_simps)
qed

lemma unat_pow2: "n < LENGTH('a) \<Longrightarrow> unat (2 ^ n :: 'a::len word) = 2 ^ n"
proof -
  assume "n < LENGTH('a)"
  then have "unat (of_nat (2 ^ n) :: 'a word) = 2 ^ n" by (simp only: unat_of_nat) simp
  then show ?thesis by simp
qed

lemma unat_less_pow2: "unat w < 2 ^ LENGTH('a)" for w :: "'a::len word"
  by (rule unsigned_less)

lemma u64_bound: "unat (w :: u64) < 2 ^ 64"
  using unat_less_pow2 [of w] by simp

lemma unat_drop_bit_div: "unat (drop_bit i w) = unat w div 2 ^ i"
  by (simp only: unat_drop_bit_eq) (simp add: drop_bit_eq_div)

lemma length_filter_if: "length (filter P (if b then [x] else [])) = (if b \<and> P x then 1 else 0)"
  by (cases b) simp_all

lemma unat_add_le: "unat a + unat b < 2 ^ LENGTH('a) \<Longrightarrow> unat (a + b) = unat a + unat b"
  for a b :: "'a::len word"
  by (simp add: unat_add_lem)

lemma unat_Suc: "unat w + 1 < 2 ^ LENGTH('a) \<Longrightarrow> unat (w + 1) = unat w + 1" for w :: "'a::len word"
  using unat_add_le [of w 1] by simp

lemma unat_minus1: "unat (- 1 :: 'a::len word) = 2 ^ LENGTH('a) - 1"
  by (simp add: unsigned_minus_1_eq_mask mask_eq_exp_minus_1)

lemma unat_sub_le: "b \<le> a \<Longrightarrow> unat (a - b) = unat a - unat b" for a b :: "'a::len word"
  by (simp add: unat_sub)

section \<open>Integer logarithm\<close>

text \<open>The integer part of \<open>std::log2(n)\<close>.\<close>
fun floor_log2 :: "nat \<Rightarrow> nat" where
  "floor_log2 n = (if n < 2 then 0 else Suc (floor_log2 (n div 2)))"

declare floor_log2.simps [simp del]

lemma floor_log2_bounds: "0 < n \<Longrightarrow> 2 ^ floor_log2 n \<le> n \<and> n < 2 ^ Suc (floor_log2 n)"
proof (induction n rule: floor_log2.induct)
  case (1 n)
  show ?case
  proof (cases "n < 2")
    case True
    then show ?thesis using 1 by (simp add: floor_log2.simps)
  next
    case False
    then have "2 ^ floor_log2 (n div 2) \<le> n div 2 \<and> n div 2 < 2 ^ Suc (floor_log2 (n div 2))"
      using 1 by simp
    then show ?thesis using False by (subst floor_log2.simps, subst (2) floor_log2.simps) auto
  qed
qed

lemma floor_log2_less:
  assumes "0 < n" "n < 2 ^ k"
  shows "floor_log2 n < k"
proof -
  have "2 ^ floor_log2 n < (2::nat) ^ k"
    using floor_log2_bounds [OF assms(1), THEN conjunct1] assms(2) by (rule le_less_trans)
  then show ?thesis by (rule power_less_imp_less_exp [rotated]) simp
qed

lemma floor_log2_pow2 [simp]: "floor_log2 (2 ^ k) = k"
proof (rule antisym)
  show "floor_log2 (2 ^ k) \<le> k" using floor_log2_less [of "2 ^ k" "Suc k"] by simp
  have "(2::nat) ^ k < 2 ^ Suc (floor_log2 (2 ^ k))" using floor_log2_bounds [of "2 ^ k"] by simp
  then have "k < Suc (floor_log2 (2 ^ k))" by (rule power_less_imp_less_exp [rotated]) simp
  then show "k \<le> floor_log2 (2 ^ k)" by simp
qed

section \<open>Parity of a list of bits\<close>

text \<open>Exclusive or of bits in a loop counts them modulo two.\<close>
lemma fold_upt_Suc: "fold f [0..<Suc n] s = f n (fold f [0..<n] s)"
  by simp

lemma fold_xor_parity: "fold (\<lambda>j acc. acc \<noteq> f j) xs a = (a \<noteq> odd (length (filter f xs)))"
  by (induction xs arbitrary: a) auto

lemma parity_xor:
  "odd (length (filter (\<lambda>j. f j \<noteq> g j) xs)) = (odd (length (filter f xs)) \<noteq> odd (length (filter g xs)))"
  by (induction xs) auto

section \<open>Arrays of rows and lanes\<close>

lemma length_concat_le:
  assumes "\<And>x. x \<in> set xs \<Longrightarrow> length (f x) \<le> n"
  shows "length (concat (map f xs)) \<le> length xs * n"
  using assms by (induction xs) (auto intro: add_mono)

lemma length_concat_upt:
  "(\<And>i. i < n \<Longrightarrow> length (f i) \<le> m) \<Longrightarrow> length (concat (map f [0..<n])) \<le> n * m"
  using length_concat_le [of "[0..<n]" f m] by simp

text \<open>Row-major storage: entry \<open>j\<close> of row \<open>i\<close> is at \<open>w * i + j\<close>.\<close>
lemma nth_concat_map:
  assumes "\<And>i. i < n \<Longrightarrow> length (f i) = w" "i < n" "j < w"
  shows "concat (map f [0..<n]) ! (w * i + j) = f i ! j"
  using assms
proof (induction n)
  case (Suc n)
  have len: "length (concat (map f [0..<n])) = w * n"
    using Suc.prems(1) by (induction n) auto
  show ?case
  proof (cases "i = n")
    case True
    then show ?thesis using Suc.prems by (simp add: nth_append len)
  next
    case False
    then have "i < n" using Suc.prems(2) by simp
    then have "w * i + j < w * n"
      using Suc.prems(3) mult_le_mono2 [of "Suc i" n w] by simp
    then show ?thesis using Suc False by (simp add: nth_append len)
  qed
qed simp

text \<open>Update all lanes of a vector; a loop of such updates is a loop per lane.\<close>
definition each_lane :: "nat \<Rightarrow> (nat \<Rightarrow> 'a \<Rightarrow> 'a) \<Rightarrow> 'a list \<Rightarrow> 'a list" where
  "each_lane k f vs = map (\<lambda>l. f l (vs ! l)) [0..<k]"

lemma length_each_lane [simp]: "length (each_lane k f vs) = k"
  by (simp add: each_lane_def)

lemma fold_each_lane:
  "fold (\<lambda>j. each_lane k (f j)) js (map g [0..<k]) = map (\<lambda>l. fold (\<lambda>j. f j l) js (g l)) [0..<k]"
proof (induction js arbitrary: g)
  case (Cons j js)
  have "each_lane k (f j) (map g [0..<k]) = map (\<lambda>l. f j l (g l)) [0..<k]"
    by (simp add: each_lane_def)
  then show ?case by (simp add: Cons)
qed simp

end
