(* ===== verification/Set_Dec.thy ===== *)
theory Set_Dec
  imports Prelude
begin

text \<open>
  fpsi/utils/set_dec.cpp: an interval of \<open>u64\<close> values is decomposed into
  binary prefixes (\<open>decompose_improve\<close>), the prefixes are refined to the
  lengths a parameter set allows (\<open>set_dec\<close>), and a value is listed with its
  prefixes of those lengths (\<open>set_prefix\<close>).  A C++ string of binary digits is
  a \<open>string\<close> here.  The theory proves that the decomposition partitions the
  interval, that the refinement keeps that, and that a value lies in the
  interval exactly when its prefix list meets the decomposition.
\<close>

section \<open>Binary strings\<close>

definition bit_char :: "bool \<Rightarrow> char" where
  "bit_char b = (if b then CHR ''1'' else CHR ''0'')"

text \<open>\<open>bitset<64>(value).to_string()\<close>: the most significant digit first.\<close>
definition bitset_string :: "u64 \<Rightarrow> string" where
  "bitset_string v = map (\<lambda>i. bit_char (bit v i)) (rev [0..<64])"

definition to_binary_string :: "u64 \<Rightarrow> nat \<Rightarrow> string" where
  "to_binary_string value bits = take bits (bitset_string value)"

definition get_first_n_chars :: "string \<Rightarrow> nat \<Rightarrow> string result" where
  "get_first_n_chars s n =
     (if n > length s then Inl (Out_of_range ''get_first_n_chars: n > s.size()'')
      else Inr (take n s))"

text \<open>
  \<open>bitset<64>(temp).to_ullong()\<close> of a string of at most 64 characters; any
  character but the two digits is rejected.
\<close>
fun digits_value :: "string \<Rightarrow> nat result" where
  "digits_value [] = Inr 0"
| "digits_value (c # cs) =
     (if c = CHR ''0'' then digits_value cs
      else if c = CHR ''1'' then rmap (\<lambda>n. 2 ^ length cs + n) (digits_value cs)
      else Inl (Invalid_argument ''bitset''))"

definition up_bound :: "string \<Rightarrow> u64 result" where
  "up_bound prefix =
     (if length prefix > 64 then Inl (Out_of_range ''length_error'')
      else rmap of_nat (digits_value (prefix @ replicate (64 - length prefix) CHR ''1'')))"

definition low_bound :: "string \<Rightarrow> u64 result" where
  "low_bound prefix =
     (if length prefix > 64 then Inl (Out_of_range ''length_error'')
      else rmap of_nat (digits_value (prefix @ replicate (64 - length prefix) CHR ''0'')))"

section \<open>Decomposition of an interval\<close>

text \<open>
  The loop \<open>while (a_prime <= max && (a_prime & mask)) a_prime++\<close>.  It ends:
  the increment can only wrap to 0, where the mask test stops it.
\<close>
function find_a_prime :: "u64 \<Rightarrow> u64 \<Rightarrow> u64 \<Rightarrow> u64" where
  "find_a_prime mx msk a =
     (if a \<le> mx \<and> a AND msk \<noteq> 0 then find_a_prime mx msk (a + 1) else a)"
  by pat_completeness auto
termination
proof (relation "measure (\<lambda>(mx, msk, a). unat (- a))", goal_cases)
  case (2 mx msk a)
  then have "a \<noteq> 0" by auto
  then have "unat (- a) \<noteq> 0" by (simp add: unat_eq_zero)
  moreover have "unat (- a - 1) = unat (- a) - 1"
    using \<open>a \<noteq> 0\<close> by (intro unat_minus_one) simp
  moreover have "- (a + 1) = - a - 1" by simp
  ultimately have "unat (- (a + 1)) < unat (- a)" by simp
  then show ?case by simp
qed simp

declare find_a_prime.simps [simp del]

text \<open>
  The loop \<open>for (i = w; i >= 1; i--)\<close>; the first argument is the code's \<open>i\<close>.
  \<open>x_prime\<close> walks right from the split point and \<open>y_prime\<close> walks left.
\<close>
fun decompose_loop :: "nat \<Rightarrow> u64 \<Rightarrow> u64 \<Rightarrow> u64 \<Rightarrow> u64 \<Rightarrow> string list" where
  "decompose_loop 0 x y x_prime y_prime = []"
| "decompose_loop (Suc i) x y x_prime y_prime =
     (let bits = 64 - Suc i + 1 in
      (if bit x i then [to_binary_string x_prime bits] else []) @
      (if bit y i then [to_binary_string y_prime bits] else []) @
      decompose_loop i x y
        (if bit x i then x_prime + 2 ^ i else x_prime)
        (if bit y i then y_prime - 2 ^ i else y_prime))"

text \<open>
  \<open>floor_log2\<close> is the integer part of \<open>std::log2(t)\<close>.  The double the code computes has
  this integer part for every \<open>t\<close> below \<open>2^31\<close>; for a larger \<open>t\<close> the code's shift
  \<open>1 << (w - 1)\<close> of an \<open>int\<close> leaves the type and the behaviour is undefined, so
  the exact value does not matter there.
\<close>
definition decompose_improve :: "u64 \<Rightarrow> u64 \<Rightarrow> string list result" where
  "decompose_improve mn mx =
     (if mn > mx then Inl (Runtime_error ''decompose improve: max should >= min'')
      else if mn = mx then Inr [to_binary_string mn 64]
      else
        let t = mx - mn + 1; w = floor_log2 (unat t) + 1 in
        if t = 0 \<or> w - 1 \<ge> 31 then Inl (Undefined_behaviour ''1 << (w - 1)'')
        else
          let a_prime = find_a_prime mx (2 ^ (w - 1) - 1) mn in
          if a_prime > mx then Inl (Runtime_error ''decompose improve: cannot find a_prime'')
          else
            let x = mx - a_prime + 1; y = a_prime - mn in
            Inr (decompose_loop w x y a_prime (a_prime - 1)))"

section \<open>Refinement to a set of prefix lengths\<close>

text \<open>\<open>set<u64>\<close> is a set of naturals, iterated in ascending order.\<close>
definition set_round :: "nat \<Rightarrow> nat set \<Rightarrow> nat result" where
  "set_round dec u_set =
     (if u_set = {} then Inl (Runtime_error ''set_round panic! The set is empty.'')
      else case filter (\<lambda>k. k < dec) (sorted_list_of_set u_set) of
             [] \<Rightarrow> Inr 0
           | ks \<Rightarrow> Inr (last ks))"

text \<open>The \<open>padding_bits\<close> characters for the counter \<open>i\<close>, lowest bit first.\<close>
definition padding_string :: "nat \<Rightarrow> nat \<Rightarrow> string" where
  "padding_string padding_bits i = map (\<lambda>j. bit_char (bit i j)) [0..<padding_bits]"

text \<open>The body of the loop over the decomposition.\<close>
definition refine_dec :: "nat set \<Rightarrow> string \<Rightarrow> string list result" where
  "refine_dec u dec =
     (let mu = 64 - length dec in
      if mu \<in> u then Inr [dec]
      else rbind (set_round mu u) (\<lambda>mu_star.
        let padding_bits = mu - mu_star in
        Inr (map (\<lambda>i. dec @ padding_string padding_bits i) [0..<2 ^ padding_bits])))"

definition set_dec :: "u64 \<Rightarrow> u64 \<Rightarrow> nat set \<Rightarrow> string list result" where
  "set_dec x y u =
     rbind (decompose_improve x y) (\<lambda>decs. rmap concat (mapR (refine_dec u) decs))"

text \<open>
  \<open>NUM_BITS - i\<close> wraps around for \<open>i > 64\<close>, so the substring call throws there.
\<close>
definition set_prefix :: "u64 \<Rightarrow> nat set \<Rightarrow> string list result" where
  "set_prefix value u_set =
     (let value_str = to_binary_string value 64 in
      mapR (\<lambda>i. if i > 64 then Inl (Out_of_range ''get_first_n_chars: n > s.size()'')
                else get_first_n_chars value_str (64 - i))
        (sorted_list_of_set u_set))"

section \<open>Prefixes and the values they cover\<close>

text \<open>A value has the string as a prefix of its 64 binary digits.\<close>
definition covers :: "string \<Rightarrow> u64 \<Rightarrow> bool" where
  "covers s v = (take (length s) (bitset_string v) = s)"

lemma bit_char_inject [simp]: "bit_char a = bit_char b \<longleftrightarrow> a = b"
  by (simp add: bit_char_def)

lemma length_bitset_string [simp]: "length (bitset_string v) = 64"
  by (simp add: bitset_string_def)

lemma length_to_binary_string [simp]: "length (to_binary_string v n) = min 64 n"
  by (simp add: to_binary_string_def)

lemma nth_bitset_string: "k < 64 \<Longrightarrow> bitset_string v ! k = bit_char (bit v (63 - k))"
  by (simp add: bitset_string_def rev_nth)

lemma to_binary_string_eq_iff:
  assumes "i \<le> 64"
  shows "to_binary_string a (64 - i) = to_binary_string b (64 - i) \<longleftrightarrow>
    unat a div 2 ^ i = unat b div 2 ^ i"
proof -
  have "to_binary_string a (64 - i) = to_binary_string b (64 - i) \<longleftrightarrow>
      (\<forall>k < 64 - i. bit a (63 - k) = bit b (63 - k))"
    by (auto simp: to_binary_string_def list_eq_iff_nth_eq nth_bitset_string)
  also have "\<dots> \<longleftrightarrow> (\<forall>n. i \<le> n \<longrightarrow> n < 64 \<longrightarrow> bit a n = bit b n)"
  proof (rule iffI; intro allI impI)
    fix n assume *: "\<forall>k < 64 - i. bit a (63 - k) = bit b (63 - k)" "i \<le> n" "n < 64"
    then show "bit a n = bit b n" using *(1) [rule_format, of "63 - n"] by auto
  next
    fix k assume *: "\<forall>n. i \<le> n \<longrightarrow> n < 64 \<longrightarrow> bit a n = bit b n" "k < 64 - i"
    then show "bit a (63 - k) = bit b (63 - k)" by auto
  qed
  also have "\<dots> \<longleftrightarrow> drop_bit i a = drop_bit i b"
  proof
    assume "\<forall>n. i \<le> n \<longrightarrow> n < 64 \<longrightarrow> bit a n = bit b n"
    then have "bit a m = bit b m" if "i \<le> m" for m
      using that by (cases "m < 64") (auto dest: bit_imp_le_length)
    then show "drop_bit i a = drop_bit i b"
      by (intro bit_word_eqI) (simp add: bit_drop_bit_eq)
  next
    assume "drop_bit i a = drop_bit i b"
    then have "bit a (i + m) = bit b (i + m)" for m
      by (metis bit_drop_bit_eq comp_apply)
    then show "\<forall>n. i \<le> n \<longrightarrow> n < 64 \<longrightarrow> bit a n = bit b n"
      by (metis le_add_diff_inverse)
  qed
  also have "\<dots> \<longleftrightarrow> unat (drop_bit i a) = unat (drop_bit i b)"
    by (simp add: word_unat_eq_iff)
  finally show ?thesis by (simp only: unat_drop_bit_div)
qed

lemma covers_to_binary_string:
  "i \<le> 64 \<Longrightarrow> covers (to_binary_string z (64 - i)) v \<longleftrightarrow> unat v div 2 ^ i = unat z div 2 ^ i"
  by (simp add: covers_def flip: to_binary_string_eq_iff) (simp add: to_binary_string_def)

lemma covers_aligned_up:
  assumes "i \<le> 64" "2 ^ i dvd unat z"
  shows "covers (to_binary_string z (64 - i)) v \<longleftrightarrow> unat z \<le> unat v \<and> unat v < unat z + 2 ^ i"
  using assms by (auto simp: covers_to_binary_string div_eq_iff_range)

lemma covers_aligned_down:
  assumes "i \<le> 64" "2 ^ i dvd unat z + 1" "2 ^ i \<le> unat z + 1"
  shows "covers (to_binary_string z (64 - i)) v \<longleftrightarrow> unat z + 1 - 2 ^ i \<le> unat v \<and> unat v \<le> unat z"
proof -
  from assms(2) obtain q where q: "unat z + 1 = 2 ^ i * q" by (auto elim: dvdE)
  with assms(3) have "q \<noteq> 0" by (intro notI) simp
  then obtain r where r: "q = Suc r" by (cases q) auto
  have z: "unat z + 1 = 2 ^ i * r + 2 ^ i" and pos: "0 < (2::nat) ^ i"
    using q r by simp_all
  then have "unat z div 2 ^ i = r"
    by (subst div_eq_iff_range) linarith+
  then have "covers (to_binary_string z (64 - i)) v \<longleftrightarrow> unat v div 2 ^ i = r"
    using assms(1) by (simp add: covers_to_binary_string)
  also have "\<dots> \<longleftrightarrow> unat z + 1 - 2 ^ i \<le> unat v \<and> unat v \<le> unat z"
    using z by (subst div_eq_iff_range [OF pos]) linarith
  finally show ?thesis .
qed

section \<open>The decomposition partitions the interval\<close>

lemma unat_plus_pow2:
  assumes "unat z + 2 ^ i \<le> 2 ^ 64" "i < 64"
  shows "unat (z + 2 ^ i :: u64) = (if unat z + 2 ^ i = 2 ^ 64 then 0 else unat z + 2 ^ i)"
proof -
  have "unat (2 ^ i :: u64) = 2 ^ i" using assms(2) by (simp add: unat_pow2)
  then show ?thesis using assms by (auto simp: unat_word_ariths)
qed

lemma unat_minus_pow2:
  assumes "2 ^ i \<le> unat z + 1" "i < 64"
  shows "unat (z - 2 ^ i :: u64) = (if unat z + 1 = 2 ^ i then 2 ^ 64 - 1 else unat z - 2 ^ i)"
proof -
  have p: "unat (2 ^ i :: u64) = 2 ^ i" using assms(2) by (simp add: unat_pow2)
  show ?thesis
  proof (cases "unat z + 1 = 2 ^ i")
    case True
    then have "(of_nat (unat z + 1) :: u64) = of_nat (2 ^ i)" by simp
    then have "z + 1 = 2 ^ i" by (simp add: add.commute)
    then have "z - 2 ^ i = - 1" by (metis add_diff_cancel_left' diff_diff_eq2 diff_add_cancel minus_diff_eq diff_self diff_0)
    then show ?thesis using True by (simp add: unat_minus1)
  next
    case False
    then have "2 ^ i \<le> z" using assms(1) p by (simp add: word_le_nat_alt)
    then show ?thesis using False p by (simp add: unat_sub)
  qed
qed

lemma decompose_right_step:
  fixes x xp :: u64
  assumes "i < 63" "2 ^ i dvd unat xp" "unat xp + unat x mod 2 ^ Suc i \<le> 2 ^ 64"
    and xp': "xp' = (if bit x i then xp + 2 ^ i else xp)"
  shows "2 ^ i dvd unat xp'" "unat xp' + unat x mod 2 ^ i \<le> 2 ^ 64"
    "(if bit x i \<and> covers (to_binary_string xp (64 - i)) v then 1 else 0) +
     (if unat xp' \<le> unat v \<and> unat v < unat xp' + unat x mod 2 ^ i then 1 else 0) =
     (if unat xp \<le> unat v \<and> unat v < unat xp + unat x mod 2 ^ Suc i then 1 else (0::nat))"
proof -
  note d = assms(2)
  have b: "bit x i \<longleftrightarrow> odd (unat x div 2 ^ i)" using assms(1) by (simp add: bit_u_iff_odd)
  note m = mod_pow2_Suc [of "unat x" i]
  show "2 ^ i dvd unat xp'"
    using d assms by (auto simp: xp' unat_plus_pow2 m b simp del: power_Suc)
  show "unat xp' + unat x mod 2 ^ i \<le> 2 ^ 64"
    using assms by (auto simp: xp' unat_plus_pow2 m b simp del: power_Suc)
  show "(if bit x i \<and> covers (to_binary_string xp (64 - i)) v then 1 else 0) +
     (if unat xp' \<le> unat v \<and> unat v < unat xp' + unat x mod 2 ^ i then 1 else 0) =
     (if unat xp \<le> unat v \<and> unat v < unat xp + unat x mod 2 ^ Suc i then 1 else (0::nat))"
    using assms d u64_bound [of v]
    by (auto simp: xp' unat_plus_pow2 m b covers_aligned_up simp del: power_Suc split: if_splits)
qed

lemma decompose_left_step:
  fixes y yp :: u64
  assumes "i < 63" "2 ^ i dvd unat yp + 1" "unat y mod 2 ^ Suc i \<le> unat yp + 1"
    and yp': "yp' = (if bit y i then yp - 2 ^ i else yp)"
  shows "2 ^ i dvd unat yp' + 1" "unat y mod 2 ^ i \<le> unat yp' + 1"
    "(if bit y i \<and> covers (to_binary_string yp (64 - i)) v then 1 else 0) +
     (if unat yp' + 1 - unat y mod 2 ^ i \<le> unat v \<and> unat v \<le> unat yp' then 1 else 0) =
     (if unat yp + 1 - unat y mod 2 ^ Suc i \<le> unat v \<and> unat v \<le> unat yp then 1 else (0::nat))"
proof -
  note d = assms(2)
  have b: "bit y i \<longleftrightarrow> odd (unat y div 2 ^ i)" using assms(1) by (simp add: bit_u_iff_odd)
  have p: "(2::nat) ^ i dvd 2 ^ 64" using assms(1) by (intro le_imp_power_dvd) simp
  note m = mod_pow2_Suc [of "unat y" i]
  show D: "2 ^ i dvd unat yp' + 1"
  proof (cases "bit y i")
    case True
    then have "unat yp' + 1 = (if unat yp + 1 = 2 ^ i then 2 ^ 64 else unat yp + 1 - 2 ^ i)"
      using assms by (auto simp: m b unat_minus_pow2 simp del: power_Suc)
    then show ?thesis using d p by (simp add: dvd_diff_nat)
  qed (use d yp' in simp)
  show "unat y mod 2 ^ i \<le> unat yp' + 1"
    using assms by (auto simp: yp' unat_minus_pow2 m b simp del: power_Suc)
  show "(if bit y i \<and> covers (to_binary_string yp (64 - i)) v then 1 else 0) +
     (if unat yp' + 1 - unat y mod 2 ^ i \<le> unat v \<and> unat v \<le> unat yp' then 1 else 0) =
     (if unat yp + 1 - unat y mod 2 ^ Suc i \<le> unat v \<and> unat v \<le> unat yp then 1 else (0::nat))"
    using assms d u64_bound [of v]
    by (auto simp: yp' unat_minus_pow2 m b covers_aligned_down simp del: power_Suc split: if_splits)
qed

lemma decompose_loop_count:
  assumes "i \<le> 63"
    "2 ^ (i - 1) dvd unat x_prime" "unat x_prime + unat x mod 2 ^ i \<le> 2 ^ 64"
    "2 ^ (i - 1) dvd unat y_prime + 1" "unat y mod 2 ^ i \<le> unat y_prime + 1"
  shows "length (filter (\<lambda>s. covers s v) (decompose_loop i x y x_prime y_prime)) =
    (if unat x_prime \<le> unat v \<and> unat v < unat x_prime + unat x mod 2 ^ i then 1 else 0) +
    (if unat y_prime + 1 - unat y mod 2 ^ i \<le> unat v \<and> unat v \<le> unat y_prime then 1 else 0)"
  using assms
proof (induction i x y x_prime y_prime rule: decompose_loop.induct)
  case (2 i x y xp yp)
  define xp' where "xp' = (if bit x i then xp + 2 ^ i else xp)"
  define yp' where "yp' = (if bit y i then yp - 2 ^ i else yp)"
  have i: "i < 63" "i \<le> 63" "64 - Suc i + 1 = 64 - i" using 2 by simp_all
  note r = decompose_right_step [OF i(1) 2(3) [unfolded diff_Suc_1] 2(4) xp'_def]
  note l = decompose_left_step [OF i(1) 2(5) [unfolded diff_Suc_1] 2(6) yp'_def]
  have pred: "2 ^ i dvd n \<Longrightarrow> 2 ^ (i - 1) dvd n" for n :: nat
    by (rule dvd_trans [of _ "2 ^ i"]) (simp add: le_imp_power_dvd)
  have "length (filter (\<lambda>s. covers s v) (decompose_loop i x y xp' yp')) =
      (if unat xp' \<le> unat v \<and> unat v < unat xp' + unat x mod 2 ^ i then 1 else 0) +
      (if unat yp' + 1 - unat y mod 2 ^ i \<le> unat v \<and> unat v \<le> unat yp' then 1 else 0)"
    unfolding xp'_def yp'_def
    by (rule 2(1) [OF refl i(2)])
       (fact pred [OF r(1), unfolded xp'_def] r(2) [unfolded xp'_def]
          pred [OF l(1), unfolded yp'_def] l(2) [unfolded yp'_def])+
  then show ?case
    unfolding decompose_loop.simps Let_def i(3) r(3) [symmetric] l(3) [symmetric]
    by (simp add: length_filter_if flip: xp'_def yp'_def)
qed auto

lemma and_mask_eq_0_iff: "a AND (2 ^ k - 1) = 0 \<longleftrightarrow> 2 ^ k dvd unat a" if "k < 64" for a :: u64
proof -
  have "a AND (2 ^ k - 1) = take_bit k a"
    by (simp add: take_bit_eq_mask mask_eq_exp_minus_1)
  moreover have "unat (take_bit k a) = unat a mod 2 ^ k"
    by (simp only: unsigned_take_bit_eq) (simp add: take_bit_eq_mod)
  ultimately show ?thesis by (metis mod_eq_0_iff_dvd unat_eq_0)
qed

lemma find_a_prime_eq:
  assumes "k < 64" "unat a \<le> unat b" "b \<le> mx" "2 ^ k dvd unat b" "unat b - unat a < 2 ^ k"
  shows "find_a_prime mx (2 ^ k - 1) a = b"
  using assms
proof (induction "unat b - unat a" arbitrary: a)
  case 0
  then have "a = b" by (simp add: word_unat_eq_iff)
  then show ?case using 0 by (simp add: find_a_prime.simps [of mx _ b] and_mask_eq_0_iff)
next
  case (Suc d)
  then have lt: "unat a < unat b" by simp
  then have a1: "unat (a + 1) = unat a + 1"
    using u64_bound [of b] by (intro unat_Suc) simp
  have "\<not> 2 ^ k dvd unat a"
  proof
    assume "2 ^ k dvd unat a"
    then have "2 ^ k dvd unat b - unat a" using Suc.prems(4) by (simp add: dvd_diff_nat)
    then show False using lt Suc.prems(5) by (auto dest: dvd_imp_le)
  qed
  moreover have "a \<le> mx" using lt Suc.prems(3) by (simp add: word_le_nat_alt)
  moreover have "find_a_prime mx (2 ^ k - 1) (a + 1) = b"
    using Suc a1 by (intro Suc.hyps(1)) auto
  ultimately show ?case
    using Suc.prems(1) by (subst find_a_prime.simps) (simp add: and_mask_eq_0_iff)
qed

text \<open>The parameters of the main loop, for an interval that is not a point.\<close>
lemma decompose_improve_split:
  assumes "mn < mx" "unat mx - unat mn + 1 < 2 ^ 31"
  obtains k b where "k = floor_log2 (unat mx - unat mn + 1)" "k < 31" "mn \<le> b" "b \<le> mx" "2 ^ k dvd unat b"
    "unat b - unat mn < 2 ^ k" "unat mx - unat mn + 1 < 2 ^ Suc k"
    "decompose_improve mn mx = Inr (decompose_loop (Suc k) (mx - b + 1) (b - mn) b (b - 1))"
proof -
  let ?t = "unat mx - unat mn + 1"
  define k where "k = floor_log2 ?t"
  have mm: "unat mn < unat mx" using assms(1) by (simp add: word_less_nat_alt)
  have t: "unat (mx - mn + 1) = ?t"
    using assms mm by (subst unat_add_le) (simp_all add: unat_sub_le word_le_nat_alt)
  have k: "k < 31" "2 ^ k \<le> ?t" "?t < 2 ^ Suc k"
    using floor_log2_less [of ?t 31] floor_log2_bounds [of ?t] assms(2) by (simp_all add: k_def)
  define n where "n = (unat mn + 2 ^ k - 1) div 2 ^ k * 2 ^ k"
  have n: "unat mn \<le> n" "n < unat mn + 2 ^ k"
  proof -
    have "0 < (2::nat) ^ k" by simp
    then show "unat mn \<le> n" "n < unat mn + 2 ^ k"
      unfolding n_def using div_times_less_eq_dividend [of "unat mn + 2 ^ k - 1" "2 ^ k"]
        mod_less_divisor [of "2 ^ k" "unat mn + 2 ^ k - 1"]
        div_mult_mod_eq [of "unat mn + 2 ^ k - 1" "2 ^ k"] by linarith+
  qed
  have nm: "n \<le> unat mx" using n k mm by linarith
  define b where "b = (of_nat n :: u64)"
  have b: "unat b = n"
    using nm u64_bound [of mx] by (simp add: b_def unat_of_nat)
  have "2 ^ k dvd unat b" by (simp add: b n_def)
  moreover have "mn \<le> b" "b \<le> mx" using b n nm by (simp_all add: word_le_nat_alt)
  moreover have "unat b - unat mn < 2 ^ k" using b n by simp
  moreover have "find_a_prime mx (2 ^ k - 1) mn = b"
    using calculation k by (intro find_a_prime_eq) (simp_all add: word_le_nat_alt)
  moreover have "decompose_improve mn mx =
      Inr (decompose_loop (Suc k) (mx - b + 1) (b - mn) b (b - 1))"
  proof -
    have "\<not> mx < mn" "mn \<noteq> mx" "mx - mn + 1 \<noteq> 0" "\<not> 31 \<le> k"
      "floor_log2 (unat (mx - mn + 1)) = k" "\<not> mx < b"
      using assms(1) k t \<open>b \<le> mx\<close> by (auto simp: k_def)
    then show ?thesis
      using calculation
      by (simp add: decompose_improve_def Let_def del: decompose_loop.simps(2))
  qed
  ultimately show thesis using that k k_def by blast
qed

lemma decompose_improve_count:
  assumes "mn \<le> mx" "unat mx - unat mn + 1 < 2 ^ 31"
  shows "\<exists>P. decompose_improve mn mx = Inr P \<and>
    (\<forall>v. length (filter (\<lambda>s. covers s v) P) = (if mn \<le> v \<and> v \<le> mx then 1 else 0))"
proof (cases "mn = mx")
  case True
  have "covers (to_binary_string mx 64) v \<longleftrightarrow> v = mx" for v
    using covers_to_binary_string [of 0 mx v] by (auto simp: word_unat_eq_iff)
  then show ?thesis using True by (auto simp: decompose_improve_def)
next
  case False
  then have "mn < mx" using assms(1) by simp
  then obtain k b where "k = floor_log2 (unat mx - unat mn + 1)" and k: "k < 31" "mn \<le> b" "b \<le> mx" "2 ^ k dvd unat b"
    "unat b - unat mn < 2 ^ k" "unat mx - unat mn + 1 < 2 ^ Suc k"
    and P: "decompose_improve mn mx = Inr (decompose_loop (Suc k) (mx - b + 1) (b - mn) b (b - 1))"
    using decompose_improve_split assms(2) by blast
  have le: "unat mn \<le> unat b" "unat b \<le> unat mx" using k by (simp_all add: word_le_nat_alt)
  have bound: "unat mx - unat b + 1 < 2 ^ Suc k" using k(6) le by linarith
  have "(2::nat) ^ Suc k \<le> 2 ^ 31" using k(1) by (intro power_increasing) auto
  then have X: "unat (mx - b + 1) = unat mx - unat b + 1"
    using k bound by (subst unat_Suc) (simp_all add: unat_sub_le)
  have Y: "unat (b - mn) = unat b - unat mn" using k by (simp add: unat_sub_le)
  have "length (filter (\<lambda>s. covers s v)
      (decompose_loop (Suc k) (mx - b + 1) (b - mn) b (b - 1))) =
      (if mn \<le> v \<and> v \<le> mx then 1 else 0)" for v
  proof -
    have Y': "unat (b - mn) mod 2 ^ Suc k = unat b - unat mn"
      and X': "unat (mx - b + 1) mod 2 ^ Suc k = unat mx - unat b + 1"
      using k(5) bound by (simp_all add: X Y)
    show ?thesis
    proof (cases "b = 0")
      case True
      then have "length (filter (\<lambda>s. covers s v)
          (decompose_loop (Suc k) (mx - b + 1) (b - mn) b (b - 1))) =
          (if unat b \<le> unat v \<and> unat v < unat b + (unat mx - unat b + 1) then 1 else 0) +
          (if unat (b - 1) + 1 \<le> unat v \<and> unat v \<le> unat (b - 1) then 1 else 0)"
        using k(1,2) u64_bound [of mx] le_imp_power_dvd [of k 64 "2::nat"]
        by (subst decompose_loop_count) (auto simp: X' [unfolded True, simplified] Y' unat_minus1 simp del: decompose_loop.simps)
      then show ?thesis using True k(2) by (simp add: word_le_nat_alt less_Suc_eq_le)
    next
      case False
      then have b1: "unat (b - 1) + 1 = unat b" 
        using unat_minus_one [OF False] unat_eq_0 [of b] by linarith
      have "length (filter (\<lambda>s. covers s v)
          (decompose_loop (Suc k) (mx - b + 1) (b - mn) b (b - 1))) =
          (if unat b \<le> unat v \<and> unat v < unat b + (unat mx - unat b + 1) then 1 else 0) +
          (if unat (b - 1) + 1 - (unat b - unat mn) \<le> unat v \<and> unat v \<le> unat (b - 1) then 1 else 0)"
        using k(1,4) u64_bound [of mx] le b1
        by (subst decompose_loop_count) (auto simp: X' Y' simp del: decompose_loop.simps power_Suc)
      then show ?thesis
        using le b1 by (simp add: word_le_nat_alt) linarith
    qed
  qed
  then show ?thesis using P by auto
qed

lemma decompose_loop_length:
  "i \<le> 63 \<Longrightarrow> s \<in> set (decompose_loop i x y xp yp) \<Longrightarrow> \<exists>j<i. length s = 64 - j"
proof (induction i x y xp yp rule: decompose_loop.induct)
  case (2 i x y xp yp)
  note step = 2
  have [simp]: "Suc (63 - i) = 64 - i" using 2 by simp
  from 2 consider "s \<in> {to_binary_string xp (64 - i), to_binary_string yp (64 - i)}"
    | "s \<in> set (decompose_loop i x y (if bit x i then xp + 2 ^ i else xp) (if bit y i then yp - 2 ^ i else yp))"
    by (auto simp: Let_def split: if_splits)
  then show ?case
  proof cases
    case 1
    then show ?thesis using step(2) by (intro exI [of _ i]) auto
  next
    case 2
    then obtain j where "j < i" "length s = 64 - j" using step(1) [OF refl] step(2) by auto
    then show ?thesis by (intro exI [of _ j]) simp
  qed
qed simp

lemma decompose_loop_size: "length (decompose_loop i x y xp yp) \<le> 2 * i"
  by (induction i x y xp yp rule: decompose_loop.induct) (auto simp: Let_def)

lemma decompose_improve_length:
  assumes "decompose_improve mn mx = Inr P" "s \<in> set P"
  shows "34 \<le> length s" "length s \<le> 64"
proof (atomize(full), cases "mn = mx")
  case True
  then show "34 \<le> length s \<and> length s \<le> 64" using assms by (auto simp: decompose_improve_def)
next
  case False
  define k where "k = floor_log2 (unat (mx - mn + 1))"
  define a where "a = find_a_prime mx (2 ^ k - 1) mn"
  have "k < 31" "P = decompose_loop (Suc k) (mx - a + 1) (a - mn) a (a - 1)"
    using assms(1) False
    by (simp_all add: decompose_improve_def Let_def a_def k_def not_le del: decompose_loop.simps
        split: if_splits)
  then have "\<exists>j < Suc k. length s = 64 - j" "k < 31"
    using assms(2) decompose_loop_length [of "Suc k" s] by auto
  then show "34 \<le> length s \<and> length s \<le> 64" by auto
qed

section \<open>Refinement keeps the partition\<close>

lemma set_round_ok:
  assumes "finite u" "0 \<in> u" "0 < mu" "mu \<notin> u"
  obtains m where "set_round mu u = Inr m" "m \<in> u" "m < mu"
proof -
  let ?ks = "filter (\<lambda>k. k < mu) (sorted_list_of_set u)"
  have "0 \<in> set ?ks" using assms by simp
  then obtain k ks where ks: "?ks = k # ks" by (cases ?ks) auto
  then have "last (k # ks) \<in> set ?ks" by (metis last_in_set list.simps(3))
  then have "last (k # ks) \<in> u" "last (k # ks) < mu" using assms(1) by simp_all
  then show thesis 
    using assms(2) by (intro that [of "last (k # ks)"]) (auto simp: set_round_def ks)
qed

lemma length_padding_string [simp]: "length (padding_string p i) = p"
  by (simp add: padding_string_def)

lemma padding_string_eq_iff:
  assumes "length bs = p" "i < 2 ^ p"
  shows "padding_string p i = map bit_char bs \<longleftrightarrow> i = horner_sum of_bool 2 bs"
proof
  assume "padding_string p i = map bit_char bs"
  then have "\<forall>j<p. bit i j = bs ! j"
    using assms(1) by (auto simp: padding_string_def list_eq_iff_nth_eq)
  moreover have "\<not> bit i j" if "p \<le> j" for j
    using assms(2) that by (metis bit_nat_def div_less even_zero less_le_trans power_increasing one_le_numeral)
  ultimately show "i = horner_sum of_bool 2 bs"
  proof (intro bit_eqI)
    fix j assume *: "\<forall>j<p. bit i j = bs ! j" "\<And>j. p \<le> j \<Longrightarrow> \<not> bit i j"
    show "bit i j = bit (horner_sum of_bool 2 bs :: nat) j"
      using * assms(1) by (cases "j < p") (auto simp: bit_horner_sum_bit_iff)
  qed
next
  assume "i = horner_sum of_bool 2 bs"
  then show "padding_string p i = map bit_char bs"
    using assms(1) by (auto simp: padding_string_def list_eq_iff_nth_eq bit_horner_sum_bit_iff)
qed

lemma padding_count:
  assumes "length bs = p"
  shows "length (filter (\<lambda>i. padding_string p i = map bit_char bs) [0..<2 ^ p]) = 1"
proof -
  have "{i. i < (2::nat) ^ p \<and> padding_string p i = map bit_char bs} = {horner_sum of_bool 2 bs}"
    using padding_string_eq_iff [OF assms] horner_sum_less [of bs] assms by auto
  then show ?thesis by (simp add: length_filter_conv_card conj_commute cong: conj_cong)
qed

lemma covers_append:
  "covers (s @ t) v \<longleftrightarrow> covers s v \<and> take (length t) (drop (length s) (bitset_string v)) = t"
proof
  assume "covers (s @ t) v"
  then have e: "take (length s + length t) (bitset_string v) = s @ t" by (simp add: covers_def)
  show "covers s v \<and> take (length t) (drop (length s) (bitset_string v)) = t"
    using arg_cong [OF e, of "take (length s)"] arg_cong [OF e, of "drop (length s)"]
    by (simp add: covers_def drop_take)
qed (simp add: covers_def take_add)

lemma refine_dec_count:
  assumes "finite u" "0 \<in> u" "length s \<le> 64"
  shows "\<exists>ss. refine_dec u s = Inr ss \<and> (\<forall>t \<in> set ss. 64 - length t \<in> u \<and> length t \<le> 64) \<and>
    (\<forall>v. length (filter (\<lambda>t. covers t v) ss) = (if covers s v then 1 else 0))"
proof (cases "64 - length s \<in> u")
  case True
  then show ?thesis using assms by (auto simp: refine_dec_def)
next
  case False
  then have "0 < 64 - length s" using assms(2) by (metis gr0I)
  then obtain m where m: "set_round (64 - length s) u = Inr m" "m \<in> u" "m < 64 - length s"
    using set_round_ok assms False by blast
  define p where "p = 64 - length s - m"
  let ?ss = "map (\<lambda>i. s @ padding_string p i) [0..<2 ^ p]"
  have r: "refine_dec u s = Inr ?ss" using False m by (simp add: refine_dec_def p_def Let_def)
  have len: "length s + p = 64 - m" "m \<le> 64" using m assms(3) by (simp_all add: p_def)
  have cnt: "length (filter (\<lambda>t. covers t v) ?ss) = (if covers s v then 1 else 0)" for v
  proof -
    define bs where "bs = map (\<lambda>i. bit v (63 - i)) [length s..<length s + p]"
    have bs: "take p (drop (length s) (bitset_string v)) = map bit_char bs"
      using len by (auto simp: bs_def list_eq_iff_nth_eq nth_bitset_string)
    have "length (filter (\<lambda>t. covers t v) ?ss) =
        length (filter (\<lambda>i. covers s v \<and> padding_string p i = map bit_char bs) [0..<2 ^ p])"
    proof -
      have "covers (s @ padding_string p i) v \<longleftrightarrow> covers s v \<and> padding_string p i = map bit_char bs"
        for i using bs by (auto simp: covers_append)
      then show ?thesis by (simp add: filter_map o_def)
    qed
    then show ?thesis using padding_count [of bs p] by (simp add: bs_def)
  qed
  have "64 - length t \<in> u \<and> length t \<le> 64" if "t \<in> set ?ss" for t
    using that m len by (auto simp: padding_string_def)
  then show ?thesis using r cnt by blast
qed

lemma mapR_refine_count:
  assumes "finite u" "0 \<in> u" "\<forall>s \<in> set P. length s \<le> 64"
  shows "\<exists>D. rmap concat (mapR (refine_dec u) P) = Inr D \<and>
    (\<forall>t \<in> set D. 64 - length t \<in> u \<and> length t \<le> 64) \<and>
    (\<forall>v. length (filter (\<lambda>t. covers t v) D) = length (filter (\<lambda>s. covers s v) P))"
  using assms(3)
proof (induction P)
  case (Cons s P)
  then obtain D where D: "rmap concat (mapR (refine_dec u) P) = Inr D"
    "\<forall>t \<in> set D. 64 - length t \<in> u \<and> length t \<le> 64"
    "\<forall>v. length (filter (\<lambda>t. covers t v) D) = length (filter (\<lambda>s. covers s v) P)"
    by auto
  from Cons obtain ss where ss: "refine_dec u s = Inr ss"
    "\<forall>t \<in> set ss. 64 - length t \<in> u \<and> length t \<le> 64"
    "\<forall>v. length (filter (\<lambda>t. covers t v) ss) = (if covers s v then 1 else 0)"
    using refine_dec_count [OF assms(1,2), of s] by auto
  from D ss show ?case by (intro exI [of _ "ss @ D"]) auto
qed simp

lemma set_dec_count:
  assumes "finite u" "0 \<in> u" "x \<le> y" "unat y - unat x + 1 < 2 ^ 31"
  shows "\<exists>D. set_dec x y u = Inr D \<and> (\<forall>t \<in> set D. 64 - length t \<in> u \<and> length t \<le> 64) \<and>
    (\<forall>v. length (filter (\<lambda>t. covers t v) D) = (if x \<le> v \<and> v \<le> y then 1 else 0))"
proof -
  obtain P where P: "decompose_improve x y = Inr P"
    "\<forall>v. length (filter (\<lambda>s. covers s v) P) = (if x \<le> v \<and> v \<le> y then 1 else 0)"
    using decompose_improve_count assms by blast
  then have "\<forall>s \<in> set P. length s \<le> 64" using decompose_improve_length by blast
  from mapR_refine_count [OF assms(1,2) this] P show ?thesis
    by (auto simp: set_dec_def)
qed

section \<open>Prefix lists and the membership test\<close>

lemma set_prefix_ok:
  assumes "finite u" "u \<subseteq> {..64}"
  shows "set_prefix v u = Inr (map (\<lambda>i. to_binary_string v (64 - i)) (sorted_list_of_set u))"
  unfolding set_prefix_def Let_def
  using assms by (intro mapR_Inr) (auto simp: get_first_n_chars_def to_binary_string_def min_def subset_iff)

lemma covers_iff_in_prefixes:
  assumes "finite u" "length t \<le> 64" "64 - length t \<in> u" "u \<subseteq> {..64}"
  shows "covers t v \<longleftrightarrow> t \<in> (\<lambda>i. to_binary_string v (64 - i)) ` u"
proof
  assume "covers t v"
  then have "t = to_binary_string v (64 - (64 - length t))"
    using assms(2) by (simp add: covers_def to_binary_string_def)
  then show "t \<in> (\<lambda>i. to_binary_string v (64 - i)) ` u" using assms(3) by blast
next
  assume "t \<in> (\<lambda>i. to_binary_string v (64 - i)) ` u"
  then show "covers t v" by (auto simp: covers_def to_binary_string_def)
qed

text \<open>How often a prefix of the value occurs in the decomposition.\<close>
lemma prefix_hits:
  assumes "finite u" "0 \<in> u" "u \<subseteq> {..64}" "x \<le> y" "unat y - unat x + 1 < 2 ^ 31"
  shows "\<exists>D p. set_dec x y u = Inr D \<and> set_prefix v u = Inr p \<and>
    length (filter (\<lambda>t. t \<in> set p) D) = (if x \<le> v \<and> v \<le> y then 1 else 0)"
proof -
  obtain D where D: "set_dec x y u = Inr D" "\<forall>t \<in> set D. 64 - length t \<in> u \<and> length t \<le> 64"
    "length (filter (\<lambda>t. covers t v) D) = (if x \<le> v \<and> v \<le> y then 1 else 0)"
    using set_dec_count [OF assms(1,2,4,5)] by blast
  let ?p = "map (\<lambda>i. to_binary_string v (64 - i)) (sorted_list_of_set u)"
  have "filter (\<lambda>t. t \<in> set ?p) D = filter (\<lambda>t. covers t v) D"
    using D(2) assms by (intro filter_cong) (simp_all add: covers_iff_in_prefixes)
  then show ?thesis using D set_prefix_ok [OF assms(1,3)] by auto
qed

section \<open>Bounds of a prefix\<close>

definition digits :: "string \<Rightarrow> bool" where
  "digits s \<longleftrightarrow> set s \<subseteq> {CHR ''0'', CHR ''1''}"

definition digits_nat :: "string \<Rightarrow> nat" where
  "digits_nat s = horner_sum of_bool 2 (map (\<lambda>c. c = CHR ''1'') (rev s))"

lemma digits_Nil [simp]: "digits []"
  and digits_Cons [simp]: "digits (c # s) \<longleftrightarrow> (c = CHR ''0'' \<or> c = CHR ''1'') \<and> digits s"
  and digits_append [simp]: "digits (s @ t) \<longleftrightarrow> digits s \<and> digits t"
  and digits_replicate [simp]: "digits (replicate n c) \<longleftrightarrow> n = 0 \<or> c = CHR ''0'' \<or> c = CHR ''1''"
  by (auto simp: digits_def)

lemma digits_nat_simps [simp]:
  "digits_nat [] = 0"
  "digits_nat (c # s) = (if c = CHR ''1'' then 2 ^ length s else 0) + digits_nat s"
  by (simp_all add: digits_nat_def horner_sum_append)

lemma digits_nat_append [simp]: "digits_nat (s @ t) = digits_nat s * 2 ^ length t + digits_nat t"
  by (induction s) (auto simp: algebra_simps power_add)

lemma digits_nat_replicate [simp]:
  "digits_nat (replicate n CHR ''0'') = 0" "Suc (digits_nat (replicate n CHR ''1'')) = 2 ^ n"
  by (induction n) auto

lemma digits_nat_less: "digits_nat s < 2 ^ length s"
  by (induction s) auto

lemma digits_value_ok: "digits s \<Longrightarrow> digits_value s = Inr (digits_nat s)"
  by (induction s) auto

lemma digits_value_error: "\<not> digits s \<Longrightarrow> \<exists>e. digits_value s = Inl e"
proof (induction s)
  case (Cons c s)
  then show ?case by (cases "digits s") (auto simp: digits_value_ok)
qed simp

lemma digits_take_bitset: "digits (take n (bitset_string v))"
  by (auto simp: digits_def bitset_string_def bit_char_def dest!: in_set_takeD)

lemma digits_nat_take: "n \<le> 64 \<Longrightarrow> digits_nat (take n (bitset_string v)) = unat v div 2 ^ (64 - n)"
proof (induction n)
  case 0
  then show ?case using u64_bound [of v] by simp
next
  case (Suc n)
  then have e: "64 - n = Suc (63 - n)" by simp
  have "digits_nat (take (Suc n) (bitset_string v)) =
      2 * (unat v div 2 ^ (64 - n)) + of_bool (bit v (63 - n))"
    using Suc by (simp add: take_Suc_conv_app_nth nth_bitset_string bit_char_def)
  also have "unat v div 2 ^ (64 - n) = unat v div 2 ^ (63 - n) div 2"
    unfolding e by (metis div_mult2_eq mult.commute power_Suc)
  also have "2 * (unat v div 2 ^ (63 - n) div 2) + of_bool (bit v (63 - n)) = unat v div 2 ^ (63 - n)"
    by (auto simp: bit_u_iff_odd)
  finally show ?case by simp
qed

lemma covers_iff_digits_nat:
  assumes "digits s" "length s \<le> 64"
  shows "covers s v \<longleftrightarrow> unat v div 2 ^ (64 - length s) = digits_nat s"
proof -
  have inj: "digits a \<Longrightarrow> digits b \<Longrightarrow> length a = length b \<Longrightarrow> digits_nat a = digits_nat b \<Longrightarrow> a = b" for a b
  proof (induction a b rule: list_induct2')
    case (4 c a d b)
    have "digits_nat a < 2 ^ length b" "digits_nat b < 2 ^ length b"
      using digits_nat_less [of a] digits_nat_less [of b] 4(4) by simp_all
    then have "(c = CHR ''1'') = (d = CHR ''1'')" "digits_nat a = digits_nat b"
      using 4(4,5) by (simp_all split: if_splits)
    moreover have "a = b" using 4 calculation(2) by simp
    ultimately show ?case using 4(2,3) by auto
  qed simp_all
  have "covers s v \<longleftrightarrow> digits_nat (take (length s) (bitset_string v)) = digits_nat s"
    using inj [of "take (length s) (bitset_string v)" s] assms digits_take_bitset
    by (auto simp: covers_def)
  then show ?thesis using assms(2) by (simp add: digits_nat_take)
qed

lemma bounds_of_prefix:
  assumes "digits s" "length s \<le> 64"
  shows "\<exists>lo hi. low_bound s = Inr lo \<and> up_bound s = Inr hi \<and> (\<forall>v. covers s v \<longleftrightarrow> lo \<le> v \<and> v \<le> hi)"
proof -
  let ?k = "64 - length s" and ?n = "digits_nat s"
  let ?lo = "digits_nat (s @ replicate ?k CHR ''0'')" and ?hi = "digits_nat (s @ replicate ?k CHR ''1'')"
  have small: "?lo < 2 ^ 64" "?hi < 2 ^ 64"
    using digits_nat_less [of "s @ replicate ?k CHR ''0''"] digits_nat_less [of "s @ replicate ?k CHR ''1''"]
      assms(2) by simp_all
  have lo: "?lo = 2 ^ ?k * ?n" and hi: "?hi + 1 = 2 ^ ?k * ?n + 2 ^ ?k" by simp_all
  have "covers s v \<longleftrightarrow> of_nat ?lo \<le> v \<and> v \<le> of_nat ?hi" for v :: u64
    using small lo hi
    unfolding covers_iff_digits_nat [OF assms] word_le_nat_alt unat_of_nat
    by (subst div_eq_iff_range) (auto simp del: digits_nat_append)
  then show ?thesis
    using assms by (auto simp: low_bound_def up_bound_def digits_value_ok simp del: digits_nat_append)
qed

section \<open>The strings of a decomposition are different\<close>

lemma digits_to_binary_string [simp]: "digits (to_binary_string v n)"
  by (simp add: to_binary_string_def digits_take_bitset)

lemma digits_decompose_loop: "s \<in> set (decompose_loop i x y x_prime y_prime) \<Longrightarrow> digits s"
  by (induction i x y x_prime y_prime rule: decompose_loop.induct)
    (auto simp: Let_def split: if_splits)

lemma digits_decompose: "decompose_improve x y = Inr P \<Longrightarrow> s \<in> set P \<Longrightarrow> digits s"
  by (auto simp: decompose_improve_def Let_def digits_decompose_loop split: if_splits)

lemma digits_refine: "refine_dec u dec = Inr ss \<Longrightarrow> digits dec \<Longrightarrow> s \<in> set ss \<Longrightarrow> digits s"
proof -
  assume r: "refine_dec u dec = Inr ss" "digits dec" "s \<in> set ss"
  have "digits (padding_string k i)" for k i by (auto simp: digits_def padding_string_def bit_char_def)
  then show ?thesis using r by (auto simp: refine_dec_def Let_def split: if_splits)
qed

lemma digits_set_dec: "set_dec x y u = Inr D \<Longrightarrow> s \<in> set D \<Longrightarrow> digits s"
proof -
  assume "set_dec x y u = Inr D" "s \<in> set D"
  then obtain P ss where P: "decompose_improve x y = Inr P" "mapR (refine_dec u) P = Inr ss" "s \<in> set (concat ss)"
    by (auto simp: set_dec_def)
  then obtain t where "t \<in> set ss" "s \<in> set t" by auto
  moreover from this obtain p where "p \<in> set P" "refine_dec u p = Inr t" using mapR_set [OF P(2)] by blast
  ultimately show ?thesis using digits_refine digits_decompose [OF P(1)] by blast
qed

lemma covers_some: "digits s \<Longrightarrow> length s \<le> 64 \<Longrightarrow> \<exists>v. covers s v"
proof -
  assume s: "digits s" "length s \<le> 64"
  let ?n = "digits_nat s * 2 ^ (64 - length s)"
  have "?n < 2 ^ length s * 2 ^ (64 - length s)" using digits_nat_less [of s] by (intro mult_strict_right_mono) auto
  also have "\<dots> = (2::nat) ^ 64" using s(2) by (simp flip: power_add)
  finally have "unat (of_nat ?n :: u64) = ?n" by (simp only: unat_of_nat) simp
  then have "covers s (of_nat ?n)" using covers_iff_digits_nat [OF s, of "of_nat ?n"] by simp
  then show ?thesis ..
qed

lemma set_dec_distinct:
  assumes "finite u" "0 \<in> u" "x \<le> y" "unat y - unat x + 1 < 2 ^ 31" "set_dec x y u = Inr D"
  shows "distinct D"
proof (rule ccontr)
  assume "\<not> distinct D"
  then obtain xs ys zs s where D: "D = xs @ [s] @ ys @ [s] @ zs" by (metis not_distinct_decomp)
  have cnt: "length s \<le> 64" "length (filter (\<lambda>t. covers t v) D) \<le> 1" for v
    using set_dec_count [OF assms(1-4)] assms(5) D by auto
  obtain v where "covers s v" using covers_some cnt(1) digits_set_dec [OF assms(5)] D by auto
  then show False using cnt(2) [of v] D by simp
qed
section \<open>Properties\<close>

text \<open>C1. For an interval shorter than \<open>2^31\<close> the decomposition succeeds, and a value has exactly
  one of its strings as a prefix when it lies in the interval and none otherwise: the strings
  partition the interval.\<close>
theorem decompose_improve_partition:
  assumes "mn \<le> mx" "unat mx - unat mn + 1 < 2 ^ 31"
  shows "\<exists>P. decompose_improve mn mx = Inr P \<and>
    (\<forall>v. length (filter (\<lambda>s. covers s v) P) = (if mn \<le> v \<and> v \<le> mx then 1 else 0))"
  using decompose_improve_count [OF assms] .

theorem decompose_improve_partition_witness:
  "\<exists>P. decompose_improve 5 15 = Inr P \<and>
    (\<forall>v. length (filter (\<lambda>s. covers s v) P) = (if 5 \<le> v \<and> v \<le> 15 then 1 else 0))"
  by (rule decompose_improve_partition) simp_all

text \<open>C2. The membership test the protocols rest on: among the strings that \<open>set_dec\<close> makes of the
  interval, exactly one is in the prefix list of a value inside the interval and none in the list
  of a value outside.\<close>
theorem set_dec_membership:
  assumes "finite u" "0 \<in> u" "u \<subseteq> {..64}" "x \<le> y" "unat y - unat x + 1 < 2 ^ 31"
  shows "\<exists>D p. set_dec x y u = Inr D \<and> set_prefix v u = Inr p \<and>
    (set p \<inter> set D \<noteq> {} \<longleftrightarrow> x \<le> v \<and> v \<le> y) \<and>
    length (filter (\<lambda>t. t \<in> set p) D) = (if x \<le> v \<and> v \<le> y then 1 else 0)"
proof -
  obtain D p where D: "set_dec x y u = Inr D" "set_prefix v u = Inr p"
    "length (filter (\<lambda>t. t \<in> set p) D) = (if x \<le> v \<and> v \<le> y then 1 else 0)"
    using prefix_hits [OF assms] by blast
  moreover have "set p \<inter> set D \<noteq> {} \<longleftrightarrow> filter (\<lambda>t. t \<in> set p) D \<noteq> []"
    by (auto simp: filter_empty_conv)
  ultimately show ?thesis by (auto split: if_splits)
qed

theorem set_dec_membership_witness:
  "\<exists>D p. set_dec 5 15 {0, 2} = Inr D \<and> set_prefix 7 {0, 2} = Inr p \<and>
    (set p \<inter> set D \<noteq> {} \<longleftrightarrow> (5::u64) \<le> 7 \<and> (7::u64) \<le> 15) \<and>
    length (filter (\<lambda>t. t \<in> set p) D) = (if (5::u64) \<le> 7 \<and> (7::u64) \<le> 15 then 1 else 0)"
  by (rule set_dec_membership) simp_all

text \<open>\<open>low_bound\<close> and \<open>up_bound\<close> of a string of at most 64 binary digits are the least and the
  greatest value that has the string as a prefix.\<close>
lemma prefix_bounds:
  assumes "digits s" "length s \<le> 64"
  shows "\<exists>lo hi. low_bound s = Inr lo \<and> up_bound s = Inr hi \<and> (\<forall>v. covers s v \<longleftrightarrow> lo \<le> v \<and> v \<le> hi)"
  using bounds_of_prefix [OF assms] .

theorem prefix_bounds_witness:
  "\<exists>lo hi. low_bound ''101'' = Inr lo \<and> up_bound ''101'' = Inr hi \<and>
    (\<forall>v. covers ''101'' v \<longleftrightarrow> lo \<le> v \<and> v \<le> hi)"
  by (rule prefix_bounds) simp_all

text \<open>C3. The decomposition throws on a reversed interval, and its shift of an \<open>int\<close> is undefined
  for an interval of \<open>2^31\<close> values or more.\<close>
theorem decompose_improve_errors:
  "(mx < mn \<longrightarrow>
     decompose_improve mn mx = Inl (Runtime_error ''decompose improve: max should >= min'')) \<and>
   (mn < mx \<and> 2 ^ 31 \<le> unat mx - unat mn + 1 \<longrightarrow>
     decompose_improve mn mx = Inl (Undefined_behaviour ''1 << (w - 1)''))"
proof (intro conjI impI)
  assume a: "mn < mx \<and> 2 ^ 31 \<le> unat mx - unat mn + 1"
  then have lt: "unat mn < unat mx" and le: "mn \<le> mx" by (simp_all add: word_less_nat_alt word_le_nat_alt)
  have ne: "mn \<noteq> mx" "\<not> mx < mn" using a by auto
  show "decompose_improve mn mx = Inl (Undefined_behaviour ''1 << (w - 1)'')"
  proof (cases "unat mx - unat mn + 1 = 2 ^ 64")
    case True
    then have "mx - mn = - 1" using le by (simp add: word_unat_eq_iff unat_sub_le unat_minus1)
    then show ?thesis using ne by (simp add: decompose_improve_def Let_def)
  next
    case False
    then have "unat (mx - mn + 1) = unat mx - unat mn + 1"
      using u64_bound [of mx] lt le by (subst unat_Suc) (simp_all add: unat_sub_le)
    then have "2 ^ 31 \<le> unat (mx - mn + 1)" using a by simp
    then have pos: "0 < unat (mx - mn + 1)" by (rule less_le_trans [rotated]) simp
    have "2 ^ 31 < (2::nat) ^ Suc (floor_log2 (unat (mx - mn + 1)))"
      using \<open>2 ^ 31 \<le> unat (mx - mn + 1)\<close> floor_log2_bounds [OF pos, THEN conjunct2]
      by (rule le_less_trans)
    then have "31 < Suc (floor_log2 (unat (mx - mn + 1)))"
      by (rule power_less_imp_less_exp [rotated]) simp
    then show ?thesis using ne by (simp add: decompose_improve_def Let_def)
  qed
qed (simp add: decompose_improve_def)

theorem decompose_improve_errors_witness:
  "decompose_improve 9 4 = Inl (Runtime_error ''decompose improve: max should >= min'') \<and>
   decompose_improve 0 (2 ^ 31) = Inl (Undefined_behaviour ''1 << (w - 1)'')"
  using decompose_improve_errors [of 4 9] decompose_improve_errors [of "2 ^ 31" 0] by simp

end
