(* ===== verification/Params.thy ===== *)
theory Params
  imports Set_Dec "HOL-Library.Code_Target_Nat"
begin

text \<open>
  fpsi/utils/params\_selects.h: the tables that give, for an interval length
  \<open>t\<close>, the prefix lengths to use and the number of strings the protocols
  reserve for a decomposition.  The theory computes the size of every
  decomposition and shows that the reserved numbers are always enough.
\<close>

type_synonym prefix_param = "nat set \<times> nat"

definition if_match_rows :: "(u64 \<times> prefix_param) list" where
  "if_match_rows =
    [(11, ({0, 2}, 5)), (31, ({0, 1, 2, 3}, 6)), (61, ({0, 2, 3, 4}, 11)),
     (121, ({0, 2, 4, 5}, 14)), (251, ({0, 2, 4, 6}, 17)), (101, ({0, 2, 4, 6}, 14)),
     (901, ({0, 3, 6, 9}, 33)), (3601, ({0, 4, 8, 11}, 46)), (14401, ({0, 4, 8, 13}, 91)),
     (62501, ({0, 5, 10, 15}, 129))]"

definition if_match_table :: "u64 \<Rightarrow> prefix_param option" where
  "if_match_table = map_of if_match_rows"

definition lp_rows :: "(u64 \<times> prefix_param) list" where
  "lp_rows =
    [(10, ({0, 1}, 6)), (11, ({0, 2}, 5)), (30, ({0, 1, 2, 3}, 8)), (31, ({0, 1, 2, 3}, 6)),
     (60, ({0, 2, 3, 4}, 10)), (61, ({0, 2, 3, 4}, 11)), (120, ({0, 3, 4, 5}, 14)),
     (121, ({0, 2, 4, 5}, 14)), (250, ({0, 2, 4, 6}, 19)), (251, ({0, 2, 4, 6}, 17))]"

definition lp_table :: "u64 \<Rightarrow> prefix_param option" where
  "lp_table = map_of lp_rows"

definition linf_rows :: "(u64 \<times> prefix_param) list" where
  "linf_rows =
    [(21, ({0, 1, 2, 3}, 6)), (61, ({0, 1, 2, 3, 4}, 9)), (121, ({0, 1, 2, 3, 4, 5}, 10)),
     (241, ({0, 1, 2, 3, 5, 6}, 13)), (501, ({0, 1, 2, 4, 5, 6}, 17))]"

definition linf_table :: "u64 \<Rightarrow> prefix_param option" where
  "linf_table = map_of linf_rows"

text \<open>\<open>getSelectedParam\<close>, the same in the three classes.\<close>
definition getSelectedParam :: "(u64 \<Rightarrow> prefix_param option) \<Rightarrow> u64 \<Rightarrow> prefix_param result" where
  "getSelectedParam params t =
     (case params t of
        Some p \<Rightarrow> Inr p
      | None \<Rightarrow> Inl (Out_of_range ''getSelectedParam Invalid parameter key''))"

section \<open>The size of a decomposition\<close>

text \<open>How many strings \<open>refine_dec\<close> makes of a prefix that leaves \<open>i\<close> bits open.\<close>
definition refine_cost :: "nat set \<Rightarrow> nat \<Rightarrow> nat" where
  "refine_cost u i =
     (if i \<in> u then 1
      else 2 ^ (i - last (0 # filter (\<lambda>k. k < i) (sorted_list_of_set u))))"

text \<open>
  The strings of a whole decomposition with right part \<open>x\<close> and left part \<open>y\<close>,
  for the list of the costs of levels \<open>0, 1, 2, \<dots>\<close>.
\<close>
fun level_cost :: "nat list \<Rightarrow> nat \<Rightarrow> nat \<Rightarrow> nat" where
  "level_cost [] x y = 0"
| "level_cost (c # cs) x y = (x mod 2 + y mod 2) * c + level_cost cs (x div 2) (y div 2)"

lemma refine_dec_length:
  assumes "refine_dec u s = Inr ss" "length s = 64 - i" "i \<le> 64"
  shows "length ss = refine_cost u i"
proof -
  have "64 - length s = i" using assms by simp
  then show ?thesis using assms(1)
    by (auto simp: refine_dec_def Let_def set_round_def refine_cost_def split: if_splits list.splits)
qed

lemma level_cost_snoc:
  "level_cost (cs @ [c]) x y =
   level_cost cs x y + (x div 2 ^ length cs mod 2 + y div 2 ^ length cs mod 2) * c"
  by (induction cs arbitrary: x y) (simp_all add: div_mult2_eq)

lemma bit_u64_mod: "i < 64 \<Longrightarrow> unat (x :: u64) div 2 ^ i mod 2 = (if bit x i then 1 else 0)"
  by (auto simp: bit_u_iff_odd odd_iff_mod_2_eq_one)

lemma refine_loop_length:
  assumes "i \<le> 63" "mapR (refine_dec u) (decompose_loop i x y xp yp) = Inr ds"
  shows "length (concat ds) = level_cost (map (refine_cost u) [0..<i]) (unat x) (unat y)"
  using assms
proof (induction i x y xp yp arbitrary: ds rule: decompose_loop.induct)
  case (2 i x y xp yp)
  have [simp]: "Suc (63 - i) = 64 - i" using 2 by simp
  have one: "length ss = refine_cost u i" if "refine_dec u (to_binary_string z (64 - i)) = Inr ss" for z ss
    using that 2(2) by (intro refine_dec_length [OF that]) auto
  define xp' where "xp' = (if bit x i then xp + 2 ^ i else xp)"
  define yp' where "yp' = (if bit y i then yp - 2 ^ i else yp)"
  have IH: "length (concat es) = level_cost (map (refine_cost u) [0..<i]) (unat x) (unat y)"
    if "mapR (refine_dec u) (decompose_loop i x y xp' yp') = Inr es" for es
    using 2(1) [OF refl] that 2(2) by (simp add: xp'_def yp'_def)
  have "mapR (refine_dec u) ((if bit x i then [to_binary_string xp (64 - i)] else []) @
      (if bit y i then [to_binary_string yp (64 - i)] else []) @ decompose_loop i x y xp' yp') = Inr ds"
    using 2(3) by (simp add: Let_def xp'_def yp'_def)
  then show ?case using 2(2)
    by (auto simp: level_cost_snoc bit_u64_mod dest!: one IH split: if_splits)
qed simp

lemma set_dec_length:
  assumes "set_dec x y u = Inr D" "x < y" "unat y - unat x + 1 = t" "t < 2 ^ 31"
  shows "\<exists>l < 2 ^ floor_log2 t.
    length D = level_cost (map (refine_cost u) [0..<Suc (floor_log2 t)]) (t - l) l"
proof -
  obtain k b where k: "k = floor_log2 t" "k < 31" "x \<le> b" "b \<le> y" "unat b - unat x < 2 ^ k"
    and P: "decompose_improve x y = Inr (decompose_loop (Suc k) (y - b + 1) (b - x) b (b - 1))"
    using decompose_improve_split [OF assms(2)] assms(3,4) by metis
  have le: "unat x \<le> unat b" "unat b \<le> unat y" using k by (simp_all add: word_le_nat_alt)
  have "unat (y - b + 1) = unat y - unat b + 1"
    using k le assms(3,4) by (subst unat_Suc) (simp_all add: unat_sub_le)
  then have xy: "unat (y - b + 1) = t - unat (b - x)" "unat (b - x) < 2 ^ k"
    using k le assms(3) by (simp_all add: unat_sub_le)
  obtain ds where "mapR (refine_dec u) (decompose_loop (Suc k) (y - b + 1) (b - x) b (b - 1)) = Inr ds"
    "D = concat ds"
    using assms(1) P by (auto simp: set_dec_def simp del: decompose_loop.simps)
  then have "length D = level_cost (map (refine_cost u) [0..<Suc k]) (t - unat (b - x)) (unat (b - x))"
    using refine_loop_length [of "Suc k"] k(2) xy by simp
  then show ?thesis using k(1) xy(2) by blast
qed

text \<open>
  The worst cost over all ways to write \<open>t\<close> as a sum of the two parts, bit by
  bit: an odd sum has one odd part, an even sum none or two.
\<close>
fun max_cost :: "nat list \<Rightarrow> nat \<Rightarrow> nat" where
  "max_cost [] t = 0"
| "max_cost (c # cs) t =
     (if odd t then c + max_cost cs (t div 2)
      else if t = 0 then 0
      else max (max_cost cs (t div 2)) (2 * c + max_cost cs (t div 2 - 1)))"

lemma level_cost_0 [simp]: "level_cost cs 0 0 = 0"
  by (induction cs) simp_all

lemma level_cost_le: "level_cost cs x y \<le> max_cost cs (x + y)"
proof (induction cs arbitrary: x y)
  case (Cons c cs)
  obtain a i where x: "x = 2 * a + i" "i < 2" using mod_less_divisor [of 2 x] div_mult_mod_eq [of x 2]
    by (metis mult.commute zero_less_numeral)
  obtain b j where y: "y = 2 * b + j" "j < 2" using mod_less_divisor [of 2 y] div_mult_mod_eq [of y 2]
    by (metis mult.commute zero_less_numeral)
  have "x + y = i + j + 2 * (a + b)" using x y by simp
  moreover have "level_cost cs a b \<le> max_cost cs (a + b)" by (rule Cons)
  moreover have "i = 0 \<or> i = 1" "j = 0 \<or> j = 1" using x y by auto
  ultimately show ?case using x y
    by (elim disjE) (auto simp: max.coboundedI1)
qed simp

definition sizes_bounded :: "nat \<Rightarrow> prefix_param \<Rightarrow> bool" where
  "sizes_bounded t p = (max_cost (map (refine_cost (fst p)) [0..<Suc (floor_log2 t)]) t \<le> snd p)"

lemma set_dec_length_bounded:
  assumes "sizes_bounded t p" "t < 2 ^ 31" "set_dec x y (fst p) = Inr D" "x < y"
    "unat y - unat x + 1 = t"
  shows "length D \<le> snd p"
proof -
  obtain l where l: "l < 2 ^ floor_log2 t"
    "length D = level_cost (map (refine_cost (fst p)) [0..<Suc (floor_log2 t)]) (t - l) l"
    using set_dec_length [OF assms(3,4,5,2)] by blast
  have "2 ^ floor_log2 t \<le> t" using floor_log2_bounds [of t] assms(5) by simp
  then show ?thesis
    using l level_cost_le [of "map (refine_cost (fst p)) [0..<Suc (floor_log2 t)]" "t - l" l] assms(1)
    by (simp add: sizes_bounded_def del: upt_Suc)
qed

definition row_ok :: "nat \<Rightarrow> prefix_param \<Rightarrow> bool" where
  "row_ok t p \<longleftrightarrow> sizes_bounded t p \<and> 1 < t \<and> t < 2 ^ 31 \<and>
     finite (fst p) \<and> 0 \<in> fst p \<and> fst p \<subseteq> {..64}"

lemma row_okI:
  assumes "floor_log2 t = k" "map (refine_cost u) [0..<Suc k] = cs"
    "max_cost cs t \<le> b" "1 < t" "t < 2 ^ 31" "finite u" "0 \<in> u" "u \<subseteq> {..64}"
  shows "row_ok t (u, b)"
  using assms by (simp add: row_ok_def sizes_bounded_def del: upt_Suc)

lemma row_11: "row_ok 11 ({0, 2}, 5)"
  by (rule row_okI [where k = 3 and cs = "[1, 2, 1, 2]"])
     (simp add: floor_log2.simps, code_simp, simp_all)

lemma row_31: "row_ok 31 ({0, 1, 2, 3}, 6)"
  by (rule row_okI [where k = 4 and cs = "[1, 1, 1, 1, 2]"])
     (simp add: floor_log2.simps, code_simp, simp_all)

lemma row_61: "row_ok 61 ({0, 2, 3, 4}, 11)"
  by (rule row_okI [where k = 5 and cs = "[1, 2, 1, 1, 1, 2]"])
     (simp add: floor_log2.simps, code_simp, simp_all)

lemma row_121: "row_ok 121 ({0, 2, 4, 5}, 14)"
  by (rule row_okI [where k = 6 and cs = "[1, 2, 1, 2, 1, 1, 2]"])
     (simp add: floor_log2.simps, code_simp, simp_all)

lemma row_251: "row_ok 251 ({0, 2, 4, 6}, 17)"
  by (rule row_okI [where k = 7 and cs = "[1, 2, 1, 2, 1, 2, 1, 2]"])
     (simp add: floor_log2.simps, code_simp, simp_all)

lemma row_101: "row_ok 101 ({0, 2, 4, 6}, 14)"
  by (rule row_okI [where k = 6 and cs = "[1, 2, 1, 2, 1, 2, 1]"])
     (simp add: floor_log2.simps, code_simp, simp_all)

lemma row_901: "row_ok 901 ({0, 3, 6, 9}, 33)"
  by (rule row_okI [where k = 9 and cs = "[1, 2, 4, 1, 2, 4, 1, 2, 4, 1]"])
     (simp add: floor_log2.simps, code_simp, simp_all)

lemma row_3601: "row_ok 3601 ({0, 4, 8, 11}, 46)"
  by (rule row_okI [where k = 11 and cs = "[1, 2, 4, 8, 1, 2, 4, 8, 1, 2, 4, 1]"])
     (simp add: floor_log2.simps, code_simp, simp_all)

lemma row_14401: "row_ok 14401 ({0, 4, 8, 13}, 91)"
  by (rule row_okI [where k = 13 and cs = "[1, 2, 4, 8, 1, 2, 4, 8, 1, 2, 4, 8, 16, 1]"])
     (simp add: floor_log2.simps, code_simp, simp_all)

lemma row_62501: "row_ok 62501 ({0, 5, 10, 15}, 129)"
  by (rule row_okI [where k = 15 and cs = "[1, 2, 4, 8, 16, 1, 2, 4, 8, 16, 1, 2, 4, 8, 16, 1]"])
     (simp add: floor_log2.simps, code_simp, simp_all)

lemma row_10: "row_ok 10 ({0, 1}, 6)"
  by (rule row_okI [where k = 3 and cs = "[1, 1, 2, 4]"])
     (simp add: floor_log2.simps, code_simp, simp_all)

lemma row_30: "row_ok 30 ({0, 1, 2, 3}, 8)"
  by (rule row_okI [where k = 4 and cs = "[1, 1, 1, 1, 2]"])
     (simp add: floor_log2.simps, code_simp, simp_all)

lemma row_60: "row_ok 60 ({0, 2, 3, 4}, 10)"
  by (rule row_okI [where k = 5 and cs = "[1, 2, 1, 1, 1, 2]"])
     (simp add: floor_log2.simps, code_simp, simp_all)

lemma row_120: "row_ok 120 ({0, 3, 4, 5}, 14)"
  by (rule row_okI [where k = 6 and cs = "[1, 2, 4, 1, 1, 1, 2]"])
     (simp add: floor_log2.simps, code_simp, simp_all)

lemma row_250: "row_ok 250 ({0, 2, 4, 6}, 19)"
  by (rule row_okI [where k = 7 and cs = "[1, 2, 1, 2, 1, 2, 1, 2]"])
     (simp add: floor_log2.simps, code_simp, simp_all)

lemma linf_row_21: "row_ok 21 ({0, 1, 2, 3}, 6)"
  by (rule row_okI [where k = 4 and cs = "[1, 1, 1, 1, 2]"])
     (simp add: floor_log2.simps, code_simp, simp_all)

lemma linf_row_61: "row_ok 61 ({0, 1, 2, 3, 4}, 9)"
  by (rule row_okI [where k = 5 and cs = "[1, 1, 1, 1, 1, 2]"])
     (simp add: floor_log2.simps, code_simp, simp_all)

lemma linf_row_121: "row_ok 121 ({0, 1, 2, 3, 4, 5}, 10)"
  by (rule row_okI [where k = 6 and cs = "[1, 1, 1, 1, 1, 1, 2]"])
     (simp add: floor_log2.simps, code_simp, simp_all)

lemma linf_row_241: "row_ok 241 ({0, 1, 2, 3, 5, 6}, 13)"
  by (rule row_okI [where k = 7 and cs = "[1, 1, 1, 1, 2, 1, 1, 2]"])
     (simp add: floor_log2.simps, code_simp, simp_all)

lemma linf_row_501: "row_ok 501 ({0, 1, 2, 4, 5, 6}, 17)"
  by (rule row_okI [where k = 8 and cs = "[1, 1, 1, 2, 1, 1, 1, 2, 4]"])
     (simp add: floor_log2.simps, code_simp, simp_all)

lemma if_match_rows_ok: "\<forall>(t, p) \<in> set if_match_rows. row_ok (unat t) p"
  by (simp del: One_nat_def add: if_match_rows_def row_11 row_31 row_61 row_121 row_251 row_101 row_901 row_3601 row_14401 row_62501)

lemma lp_rows_ok: "\<forall>(t, p) \<in> set lp_rows. row_ok (unat t) p"
  by (simp del: One_nat_def add: lp_rows_def row_10 row_11 row_30 row_31 row_60 row_61 row_120 row_121 row_250 row_251)

lemma linf_rows_ok: "\<forall>(t, p) \<in> set linf_rows. row_ok (unat t) p"
  by (simp del: One_nat_def add: linf_rows_def linf_row_21 linf_row_61 linf_row_121 linf_row_241 linf_row_501)

lemmas table_rows_ok = if_match_rows_ok lp_rows_ok linf_rows_ok

lemma selected_row_ok:
  assumes "table = map_of rows" "\<forall>(t, p) \<in> set rows. row_ok (unat t) p"
    "getSelectedParam table t = Inr p"
  shows "row_ok (unat t) p"
  using assms by (auto simp: getSelectedParam_def dest!: map_of_SomeD split: option.splits)

section \<open>Properties\<close>

text \<open>C4. For every entry of the three parameter tables, the decomposition of an interval of the
  key's length never has more strings than the entry reserves, wherever the interval starts; so the
  padding to the reserved number always produces exactly that number.\<close>
theorem table_sizes_suffice:
  assumes "table \<in> {if_match_table, lp_table, linf_table}"
    "getSelectedParam table t = Inr (u, b)" "x \<le> x + (t - 1)"
  shows "\<exists>D. set_dec x (x + (t - 1)) u = Inr D \<and> length D \<le> b"
proof -
  have ok: "row_ok (unat t) (u, b)"
    using assms(1,2) table_rows_ok selected_row_ok
    by (auto simp: if_match_table_def lp_table_def linf_table_def)
  then have t: "1 < unat t" "unat t < 2 ^ 31" by (simp_all add: row_ok_def)
  then have t1: "unat (t - 1) = unat t - 1" by (intro unat_minus_one) auto
  have e: "unat (x + (t - 1)) = unat x + (unat t - 1)"
    using assms(3) t1 unat_plus_simple by metis
  then have len: "unat (x + (t - 1)) - unat x + 1 = unat t" using t by simp
  then have "x < x + (t - 1)" using e t by (simp add: word_less_nat_alt)
  then show ?thesis
    using set_dec_count [of u x "x + (t - 1)"] ok assms(3) len t
      set_dec_length_bounded [of "unat t" "(u, b)" x "x + (t - 1)"]
    by (fastforce simp: row_ok_def)
qed

theorem table_sizes_suffice_witness:
  "\<exists>D. set_dec 1000 (1000 + (61 - 1)) {0, 2, 3, 4} = Inr D \<and> length D \<le> 11"
  by (rule table_sizes_suffice [of lp_table 61])
     (simp_all add: lp_table_def lp_rows_def getSelectedParam_def)

end
