(* ===== verification/Dist_Util.thy ===== *)
theory Dist_Util
  imports Prelude "HOL-Library.Numeral_Type"
begin

text \<open>
  fpsi/utils/dist\_util.cpp and dist\_util.h: the grid cells of a point, the
  distances between points, the cells a ball may touch, and the two arithmetic
  templates.  The coordinates are \<open>u64\<close> and every operation wraps around; a read
  past the end of a vector and a division by zero are undefined behaviour.
\<close>

section \<open>Cells and blocks\<close>

definition cell :: "pt \<Rightarrow> nat \<Rightarrow> u64 \<Rightarrow> pt result" where
  "cell p dim side_len =
     (if length p < dim \<or> (side_len = 0 \<and> 0 < dim) then Inl (Undefined_behaviour ''cell'')
      else Inr (map (\<lambda>i. p ! i div side_len) [0..<dim]))"

definition block_of :: "pt \<Rightarrow> nat \<Rightarrow> u64 \<Rightarrow> u64 \<Rightarrow> pt result" where
  "block_of p dim delta sidelen =
     (if length p < dim then Inl (Undefined_behaviour ''block_of'')
      else cell (map (\<lambda>i. p ! i - delta) [0..<dim]) dim sidelen)"

section \<open>Distances\<close>

definition abs_diff :: "u64 \<Rightarrow> u64 \<Rightarrow> u64" where
  "abs_diff a b = (if a > b then a - b else b - a)"

text \<open>The three loops \<open>for (i = 0; i < dim; ++i)\<close> over an accumulator.\<close>
definition dist_loop :: "(u64 \<Rightarrow> u64 \<Rightarrow> u64) \<Rightarrow> pt \<Rightarrow> pt \<Rightarrow> nat \<Rightarrow> u64 result" where
  "dist_loop step p1 p2 dim =
     (if length p1 < dim \<or> length p2 < dim then Inl (Undefined_behaviour ''dist'')
      else Inr (fold (\<lambda>i acc. step acc (abs_diff (p1 ! i) (p2 ! i))) [0..<dim] 0))"

definition l1_dist :: "pt \<Rightarrow> pt \<Rightarrow> nat \<Rightarrow> u64 result" where
  "l1_dist p1 p2 dim = dist_loop (\<lambda>sum diff. sum + diff) p1 p2 dim"

definition l2_dist :: "pt \<Rightarrow> pt \<Rightarrow> nat \<Rightarrow> u64 result" where
  "l2_dist p1 p2 dim = dist_loop (\<lambda>sum diff. sum + diff * diff) p1 p2 dim"

definition l_inf_dist :: "pt \<Rightarrow> pt \<Rightarrow> nat \<Rightarrow> u64 result" where
  "l_inf_dist p1 p2 dim = dist_loop max p1 p2 dim"

text \<open>\<open>1ULL << i\<close> is undefined for \<open>i \<ge> 64\<close>.\<close>
definition get_position :: "pt \<Rightarrow> pt \<Rightarrow> nat \<Rightarrow> u64 result" where
  "get_position cross_point source_point dim =
     (if length cross_point < dim \<or> length source_point < dim \<or> 
        list_ex (\<lambda>i. cross_point ! i > source_point ! i) [64..<dim]
      then Inl (Undefined_behaviour ''get_position'')
      else Inr (fold (\<lambda>i pos. if cross_point ! i > source_point ! i then pos + 2 ^ i else pos)
                  [0..<dim] 0))"

section \<open>The cells a ball may touch\<close>

text \<open>One iteration of the loop over the boundary blocks; bit \<open>j\<close> of \<open>i\<close> moves along axis \<open>j\<close>.\<close>
definition corner_cell :: "pt \<Rightarrow> nat \<Rightarrow> nat \<Rightarrow> pt" where
  "corner_cell blk dim i = map (\<lambda>j. if bit i j then blk ! j + 1 else blk ! j) [0..<dim]"

definition intersection :: "pt \<Rightarrow> u64 \<Rightarrow> nat \<Rightarrow> u64 \<Rightarrow> u64 \<Rightarrow> nat \<Rightarrow> u64 \<Rightarrow> pt list result" where
  "intersection p metric dim delta sidelen blk_cells delta_l2 =
     rbind (block_of p dim delta sidelen) (\<lambda>blk.
       let cross_point = map (\<lambda>i. blk ! i * sidelen + sidelen) [0..<dim] in
       rbind (if metric = 2 then l2_dist p cross_point dim
              else if metric = 1 then l1_dist p cross_point dim
              else if metric = 0 then l_inf_dist p cross_point dim
              else Inl (Invalid_argument ''Invalid metric value.'')) (\<lambda>dist.
       rbind (get_position cross_point p dim) (\<lambda>pos_ind.
       Inr (map (corner_cell blk dim) [0..<blk_cells]))))"

section \<open>Arithmetic templates\<close>

text \<open>
  \<open>template <typename T> T combination(T n, T k)\<close> for an unsigned \<open>T\<close>; the loop
  \<open>for (i = 0; i < k; ++i)\<close> with its wrapping product and truncating quotient.
\<close>
definition combination :: "'t::len word \<Rightarrow> 't word \<Rightarrow> 't word" where
  "combination n k =
     (if k > n then 0
      else let k = (if k > n - k then n - k else k) in
        fold (\<lambda>i res. res * (n - of_nat i) div (of_nat i + 1)) [0..<unat k] 1)"

text \<open>
  \<open>template <typename T> T fast_pow(u64 base, u64 exp)\<close>: \<open>result *= base\<close> multiplies
  in \<open>u64\<close> and truncates to \<open>T\<close>.
\<close>
function fast_pow_loop :: "'t::len word \<Rightarrow> u64 \<Rightarrow> u64 \<Rightarrow> 't word" where
  "fast_pow_loop res base ex =
     (if ex > 0
      then fast_pow_loop (if bit ex 0 then ucast ((ucast res :: u64) * base) else res)
             (base * base) (drop_bit 1 ex)
      else res)"
  by pat_completeness auto
termination
  by (relation "measure (\<lambda>(res, base, ex). unat ex)")
     (auto simp: unat_drop_bit_div word_less_nat_alt simp del: drop_bit_Suc)

declare fast_pow_loop.simps [simp del]

definition fast_pow :: "u64 \<Rightarrow> u64 \<Rightarrow> 't::len word" where
  "fast_pow base ex = fast_pow_loop 1 base ex"

section \<open>Fast exponentiation\<close>

lemma of_nat_mod_u64:
  assumes "LENGTH('t) \<le> 64"
  shows "(of_nat (n mod 2 ^ 64) :: 't::len word) = of_nat n"
  using mod_mod_cancel [OF le_imp_power_dvd [OF assms], where a = n]
  unfolding word_of_nat_eq_iff take_bit_eq_mod by blast

lemma ucast_u64_mult:
  assumes "LENGTH('t) \<le> 64"
  shows "(ucast (a * b :: u64) :: 't::len word) = ucast a * ucast b"
proof -
  have "(ucast (a * b) :: 't word) = of_nat (unat (a * b))" by (rule of_nat_unat [symmetric])
  also have "unat (a * b) = (unat a * unat b) mod 2 ^ 64" using unat_word_ariths(2) [of a b] by simp
  also have "(of_nat \<dots> :: 't word) = of_nat (unat a * unat b)" using assms by (rule of_nat_mod_u64)
  finally show ?thesis by simp
qed

lemma ucast_u64_ucast: "LENGTH('t) \<le> 64 \<Longrightarrow> (ucast (ucast r :: u64) :: 't::len word) = r"
  by (rule bit_word_eqI) (simp add: bit_unsigned_iff)

lemma fast_pow_loop_eq:
  assumes "LENGTH('t) \<le> 64"
  shows "fast_pow_loop (r :: 't::len word) b e = r * ucast b ^ unat e"
proof (induction r b e rule: fast_pow_loop.induct)
  case (1 r b e)
  show ?case
  proof (cases "e > 0")
    case True
    let ?r = "if bit e 0 then ucast ((ucast r :: u64) * b) else r"
    have "fast_pow_loop r b e = ?r * ucast (b * b) ^ unat (drop_bit 1 e)"
      using 1 [OF True] True by (subst fast_pow_loop.simps) simp
    also have "\<dots> = ?r * ucast b ^ (2 * (unat e div 2))"
      using assms by (simp add: ucast_u64_mult unat_drop_bit_div power_mult power2_eq_square)
    also have "?r = r * ucast b ^ (unat e mod 2)"
      using assms by (auto simp: bit_u_iff_odd ucast_u64_mult ucast_u64_ucast odd_iff_mod_2_eq_one)
    also have "r * ucast b ^ (unat e mod 2) * ucast b ^ (2 * (unat e div 2)) = r * ucast b ^ unat e"
      by (simp add: mult.assoc flip: power_add)
    finally show ?thesis .
  next
    case False
    then have "e = 0" using word_neq_0_conv [of e] by blast
    then show ?thesis by (simp add: fast_pow_loop.simps)
  qed
qed

lemma fast_pow_eq: "LENGTH('t) \<le> 64 \<Longrightarrow> (fast_pow b e :: 't::len word) = ucast b ^ unat e"
  by (simp add: fast_pow_def fast_pow_loop_eq)

section \<open>Binomial coefficients\<close>

lemma binomial_step: "(n - j) * (n choose j) = Suc j * (n choose Suc j)"
  by (metis Suc_times_binomial_add binomial_absorb_comp binomial_absorption)

lemma binomial_le_Suc: "2 * Suc k \<le> n \<Longrightarrow> n choose k \<le> n choose Suc k"
proof -
  assume "2 * Suc k \<le> n"
  then have "Suc k * (n choose k) \<le> (n - k) * (n choose k)" by (intro mult_le_mono) auto
  then show ?thesis unfolding binomial_step by (simp only: Suc_mult_le_cancel1)
qed

lemma binomial_le_half: "k \<le> m \<Longrightarrow> 2 * m \<le> n \<Longrightarrow> n choose k \<le> n choose m"
proof (induction m)
  case (Suc m)
  show ?case
  proof (cases "k = Suc m")
    case False
    then have "n choose k \<le> n choose m" using Suc by simp
    then show ?thesis using binomial_le_Suc [OF Suc.prems(2)] by (rule le_trans)
  qed simp
qed simp

lemma combination_loop:
  fixes n :: "'t::len word"
  assumes "\<And>j. j < k \<Longrightarrow> (unat n choose j) * (unat n - j) < 2 ^ LENGTH('t)" "k \<le> unat n"
  shows "unat (fold (\<lambda>i res. res * (n - of_nat i) div (of_nat i + 1)) [0..<k] 1) = unat n choose k"
  using assms
proof (induction k)
  case (Suc j)
  let ?f = "\<lambda>i res. res * (n - of_nat i) div (of_nat i + 1)"
  let ?r = "fold ?f [0..<j] 1"
  have IH: "unat ?r = unat n choose j" using Suc by simp
  have small: "Suc j < 2 ^ LENGTH('t)" using Suc.prems(2) unat_less_pow2 [of n] by linarith
  have i: "unat (of_nat j :: 't word) = j" using small by (simp add: unat_of_nat)
  have i1: "unat (of_nat j + 1 :: 't word) = Suc j" using small i by (subst unat_Suc) simp_all
  have ni: "unat (n - of_nat j) = unat n - j"
    using Suc.prems(2) i by (subst unat_sub_le) (simp_all add: word_le_nat_alt)
  have "unat (?r * (n - of_nat j)) = (unat n choose j) * (unat n - j)"
    using Suc.prems(1) [of j] IH ni unat_mult_lem [of ?r "n - of_nat j"] by simp
  then have "unat (?f j ?r) = (unat n choose j) * (unat n - j) div Suc j"
    using i1 by (simp add: unat_div)
  also have "\<dots> = unat n choose Suc j"
    using binomial_step [of "unat n" j] by (metis mult.commute nonzero_mult_div_cancel_left nat.distinct(1))
  finally show ?case by simp
qed simp

lemma combination_eq:
  fixes n k :: "'t::len word"
  assumes "(unat n choose unat k) * unat n < 2 ^ LENGTH('t)"
  shows "unat (combination n k) = unat n choose unat k"
proof (cases "k > n")
  case True
  then show ?thesis by (simp add: combination_def word_less_nat_alt binomial_eq_0)
next
  case False
  define k' where "k' = (if k > n - k then n - k else k)"
  have le: "unat k \<le> unat n" using False by (simp add: word_less_nat_alt)
  have sub: "unat (n - k) = unat n - unat k" using False by (intro unat_sub_le) simp
  have k': "2 * unat k' \<le> unat n" "unat n choose unat k' = unat n choose unat k"
    using le sub binomial_symmetric [OF le] by (auto simp: k'_def word_less_nat_alt)
  have "(unat n choose j) * (unat n - j) < 2 ^ LENGTH('t)" if "j < unat k'" for j
  proof -
    have "(unat n choose j) * (unat n - j) = Suc j * (unat n choose Suc j)"
      using binomial_step [of "unat n" j] by (simp add: mult.commute)
    also have "\<dots> \<le> unat n * (unat n choose unat k')"
      using that k'(1) by (intro mult_le_mono binomial_le_half) auto
    finally show ?thesis using assms k'(2) by (simp add: mult.commute)
  qed
  then have "unat (combination n k) = unat n choose unat k'"
    using False k'(1) combination_loop [of "unat k'" n]
    by (simp add: combination_def Let_def not_less flip: k'_def)
  then show ?thesis using k' by simp
qed

section \<open>Exact distances\<close>

lemma unat_abs_diff: "int (unat (abs_diff a b)) = \<bar>int (unat a) - int (unat b)\<bar>"
proof (cases "a > b")
  case True
  then have "unat (abs_diff a b) = unat a - unat b" "unat b \<le> unat a"
    by (simp_all add: abs_diff_def unat_sub_le less_imp_le word_le_nat_alt [symmetric])
  then show ?thesis by linarith
next
  case False
  then have "unat (abs_diff a b) = unat b - unat a" by (simp add: abs_diff_def unat_sub_le)
  moreover have "unat a \<le> unat b" using False by (simp add: word_less_nat_alt)
  ultimately show ?thesis by linarith
qed

lemma abs_diff_commute: "abs_diff a b = abs_diff b a"
  by (auto simp: abs_diff_def not_less dest: less_imp_le)

lemma dist_loop_ok:
  "dim \<le> length p1 \<Longrightarrow> dim \<le> length p2 \<Longrightarrow>
   dist_loop step p1 p2 dim = Inr (fold (\<lambda>i acc. step acc (abs_diff (p1 ! i) (p2 ! i))) [0..<dim] 0)"
  by (simp add: dist_loop_def)

lemma fold_max_le_iff: "fold (\<lambda>i acc. max acc (f i)) xs (a::u64) \<le> c \<longleftrightarrow> a \<le> c \<and> (\<forall>i \<in> set xs. f i \<le> c)"
  by (induction xs arbitrary: a) auto

lemma fold_sum_exact:
  assumes "a + (\<Sum>i<n. g i) < 2 ^ 64" "\<And>i. i < n \<Longrightarrow> g i = unat (f i :: u64)"
  shows "unat (fold (\<lambda>i acc. acc + f i) [0..<n] (of_nat a)) = a + (\<Sum>i<n. g i)"
  using assms
proof (induction n)
  case 0
  then show ?case by (simp add: unat_of_nat)
next
  case (Suc n)
  have "unat (fold (\<lambda>i acc. acc + f i) [0..<n] (of_nat a)) = a + (\<Sum>i<n. g i)"
    using Suc by simp
  then show ?case using Suc.prems by (simp add: unat_add_le)
qed

section \<open>Cells around a point\<close>

lemma cell_ok: "dim \<le> length p \<Longrightarrow> side \<noteq> 0 \<Longrightarrow> cell p dim side = Inr (map (\<lambda>i. p ! i div side) [0..<dim])"
  by (simp add: cell_def)

lemma block_of_ok:
  "dim \<le> length p \<Longrightarrow> side \<noteq> 0 \<Longrightarrow>
   block_of p dim delta side = Inr (map (\<lambda>i. (p ! i - delta) div side) [0..<dim])"
  by (simp add: block_of_def cell_ok)

text \<open>The cell of a coordinate within \<open>delta\<close> is the lower block or the next one.\<close>
lemma near_cell:
  fixes a b delta side :: u64
  assumes "delta \<le> a" "unat (abs_diff a b) \<le> unat delta" "2 * unat delta \<le> unat side" "0 < unat side"
  shows "b div side = (a - delta) div side \<or> b div side = (a - delta) div side + 1"
proof -
  define m where "m = (unat a - unat delta) div unat side"
  have d: "unat a \<le> unat b + unat delta" "unat b \<le> unat a + unat delta"
    using assms(2) unat_abs_diff [of a b] by linarith+
  have le: "unat delta \<le> unat a" using assms(1) by (simp add: word_le_nat_alt)
  have "m \<le> unat b div unat side" using d by (simp add: m_def div_le_mono)
  moreover have "unat b div unat side \<le> (unat a - unat delta + unat side) div unat side"
    using d le assms(3) by (intro div_le_mono) linarith
  then have "unat b div unat side = m \<or> unat b div unat side = m + 1"
  proof -
    have "(unat a - unat delta + unat side) div unat side = m + 1"
      unfolding m_def using assms(4) by (intro div_add_self2) linarith
    then show ?thesis
      using \<open>m \<le> unat b div unat side\<close>
        \<open>unat b div unat side \<le> (unat a - unat delta + unat side) div unat side\<close> by linarith
  qed
  moreover have "unat ((a - delta) div side) = m"
    using assms(1) by (simp add: unat_div unat_sub_le m_def)
  moreover have "unat ((a - delta) div side + 1) = m + 1" if "unat b div unat side = m + 1"
  proof -
    have "unat b div unat side \<le> unat b" by (rule div_le_dividend)
    then have "m + 1 < 2 ^ 64" using that u64_bound [of b] by linarith
    then show ?thesis using \<open>unat ((a - delta) div side) = m\<close> by (subst unat_Suc) simp_all
  qed
  ultimately show ?thesis by (auto simp: word_unat_eq_iff unat_div)
qed

lemma corner_cell_cover:
  assumes "length c = dim" "\<And>j. j < dim \<Longrightarrow> c ! j = blk ! j \<or> c ! j = blk ! j + 1"
  shows "\<exists>i < 2 ^ dim. corner_cell blk dim i = c"
proof (intro exI conjI)
  let ?bs = "map (\<lambda>j. c ! j \<noteq> blk ! j) [0..<dim]"
  let ?i = "horner_sum of_bool 2 ?bs :: nat"
  show "?i < 2 ^ dim" using horner_sum_less [of ?bs] by simp
  show "corner_cell blk dim ?i = c"
    using assms by (auto simp: corner_cell_def list_eq_iff_nth_eq bit_horner_sum_bit_iff) metis
qed

lemma intersection_ok:
  assumes "length p = dim" "sidelen \<noteq> 0" "dim \<le> 64" "metric \<in> {0, 1, 2}"
  shows "intersection p metric dim delta sidelen blk_cells delta_l2 =
    Inr (map (corner_cell (map (\<lambda>i. (p ! i - delta) div sidelen) [0..<dim]) dim) [0..<blk_cells])"
  using assms
  by (auto simp: intersection_def block_of_ok Let_def l1_dist_def l2_dist_def l_inf_dist_def
      dist_loop_ok get_position_def)

section \<open>Properties\<close>

text \<open>C5. The cells that \<open>intersection\<close> lists for a point contain the cell of every point within
  distance \<open>delta\<close> of it in each coordinate, for every metric, when the cells are at least
  \<open>2 * delta\<close> wide and no coordinate of the point is below \<open>delta\<close>.\<close>
theorem intersection_covers:
  assumes "length p = dim" "length q = dim" "dim \<le> 64" "metric \<in> {0, 1, 2}"
    "2 * unat delta \<le> unat sidelen" "0 < unat sidelen"
    "\<And>i. i < dim \<Longrightarrow> delta \<le> p ! i" "\<And>i. i < dim \<Longrightarrow> unat (abs_diff (p ! i) (q ! i)) \<le> unat delta"
  shows "\<exists>cells c. intersection p metric dim delta sidelen (2 ^ dim) delta_l2 = Inr cells \<and>
    cell q dim sidelen = Inr c \<and> c \<in> set cells"
proof -
  let ?blk = "map (\<lambda>i. (p ! i - delta) div sidelen) [0..<dim]"
  let ?c = "map (\<lambda>i. q ! i div sidelen) [0..<dim]"
  have s: "sidelen \<noteq> 0" using assms(6) by auto
  have "?c ! j = ?blk ! j \<or> ?c ! j = ?blk ! j + 1" if "j < dim" for j
    using near_cell [of delta "p ! j" "q ! j" sidelen] assms that by simp
  then obtain i where "i < 2 ^ dim" "corner_cell ?blk dim i = ?c"
    using corner_cell_cover [of ?c dim ?blk] by auto
  then show ?thesis
    using intersection_ok [OF assms(1) s assms(3,4)] cell_ok [of dim q sidelen] assms(2) s
    by (auto intro!: image_eqI [of _ _ i])
qed

theorem intersection_covers_witness:
  "\<exists>cells c. intersection [100, 205] 2 2 10 20 (2 ^ 2) 100 = Inr cells \<and>
    cell [110, 198] 2 20 = Inr c \<and> c \<in> set cells"
proof (rule intersection_covers)
  show "unat (abs_diff ([100, 205] ! i) ([110, 198] ! i)) \<le> unat (10::u64)" if "i < 2" for i :: nat
    using that by (auto simp: less_2_cases_iff abs_diff_def)
  show "(10::u64) \<le> [100, 205] ! i" if "i < 2" for i :: nat
    using that by (auto simp: less_2_cases_iff)
qed simp_all

text \<open>The maximum distance is at most a bound exactly when every coordinate is, and the sum
  distance is the true sum when that fits in 64 bits.\<close>
lemma distances_correct:
  assumes "length p = dim" "length q = dim" "(\<Sum>i<dim. unat (abs_diff (p ! i) (q ! i))) < 2 ^ 64"
  shows "(\<exists>d. l_inf_dist p q dim = Inr d \<and> (d \<le> bound \<longleftrightarrow> (\<forall>i<dim. abs_diff (p ! i) (q ! i) \<le> bound))) \<and>
    (\<exists>d. l1_dist p q dim = Inr d \<and> unat d = (\<Sum>i<dim. unat (abs_diff (p ! i) (q ! i))))"
proof (intro conjI)
  show "\<exists>d. l_inf_dist p q dim = Inr d \<and> (d \<le> bound \<longleftrightarrow> (\<forall>i<dim. abs_diff (p ! i) (q ! i) \<le> bound))"
    using assms(1,2) by (auto simp: l_inf_dist_def dist_loop_ok fold_max_le_iff)
  show "\<exists>d. l1_dist p q dim = Inr d \<and> unat d = (\<Sum>i<dim. unat (abs_diff (p ! i) (q ! i)))"
    using assms fold_sum_exact [of 0 "\<lambda>i. unat (abs_diff (p ! i) (q ! i))" dim
        "\<lambda>i. abs_diff (p ! i) (q ! i)"]
    by (simp add: l1_dist_def dist_loop_ok)
qed

theorem distances_correct_witness:
  "(\<exists>d. l_inf_dist [1, 9] [4, 2] 2 = Inr d \<and> (d \<le> 7 \<longleftrightarrow> (\<forall>i<2. abs_diff ([1, 9] ! i) ([4, 2] ! i) \<le> 7))) \<and>
   (\<exists>d. l1_dist [1, 9] [4, 2] 2 = Inr d \<and> unat d = (\<Sum>i<2. unat (abs_diff ([1, 9] ! i) ([4, 2] ! i))))"
  by (rule distances_correct) (simp_all add: abs_diff_def sum_lessThan_2)

text \<open>\<open>fast_pow\<close> is exponentiation modulo the width of its result type, for every type of at
  most 64 bits.\<close>
lemma fast_pow_correct:
  assumes "LENGTH('t) \<le> 64"
  shows "(fast_pow base ex :: 't::len word) = of_nat (unat base ^ unat ex)"
  using fast_pow_eq [OF assms] by simp

theorem fast_pow_correct_witness: "(fast_pow 7 13 :: u32) = of_nat (unat (7::u64) ^ unat (13::u64))"
  by (rule fast_pow_correct) simp

text \<open>\<open>combination\<close> is the binomial coefficient whenever the product it forms last fits in the
  type.\<close>
lemma combination_correct:
  fixes n k :: "'t::len word"
  assumes "(unat n choose unat k) * unat n < 2 ^ LENGTH('t)"
  shows "unat (combination n k) = unat n choose unat k"
  using combination_eq [OF assms] .

theorem combination_correct_witness: "unat (combination 4 (2::u32)) = 4 choose 2"
proof -
  have "4 choose 2 = (6::nat)" by (simp add: eval_nat_numeral)
  then show ?thesis using combination_correct [of "4 :: u32" 2] by simp
qed

end
