(* ===== verification/Equality.thy ===== *)
theory Equality
  imports Prelude
begin

text \<open>
  fpsi/pis\_new: Beaver triples from oblivious transfer (triple.cpp), the
  secret-shared equality test (equal.cpp), and the batched tests built on it
  (batch\_peqt.h, batch\_psm.cpp, batch\_pis\_new.h).  A \<open>BitVector\<close> is a list of
  booleans and the exclusive or of two bits is \<open>\<noteq>\<close>.  The two parties run in
  lockstep: what one sends is an argument of the other's next step.  The OT
  extension itself is not part of the repository: its messages are arguments,
  and \<open>ot_correct\<close> states what its documentation promises.
\<close>

section \<open>Triples\<close>

definition block_to_bool :: "block \<Rightarrow> bool" where
  "block_to_bool x = bit x 0"

record triples =
  tri_a :: "bool list"
  tri_b :: "bool list"
  tri_c :: "bool list"
  curTriple :: nat

definition curA :: "triples \<Rightarrow> bool" where "curA t = tri_a t ! curTriple t"
definition curB :: "triples \<Rightarrow> bool" where "curB t = tri_b t ! curTriple t"
definition curC :: "triples \<Rightarrow> bool" where "curC t = tri_c t ! curTriple t"

definition move :: "nat \<Rightarrow> triples \<Rightarrow> triples" where
  "move offset t = t\<lparr>curTriple := curTriple t + offset\<rparr>"

definition move_back :: "nat \<Rightarrow> triples \<Rightarrow> triples" where
  "move_back offset t = t\<lparr>curTriple := curTriple t - offset\<rparr>"

text \<open>
  One chunk of \<open>triple0\<close> and of \<open>triple1\<close>: \<open>sendMsg\<close> are the pairs of the OT in
  which this party sends, \<open>recvMsg\<close> the messages of the OT in which it receives
  with the choice bits \<open>tmpb\<close>.  The result is the chunk of \<open>a\<close>, \<open>b\<close> and \<open>c\<close>.
\<close>
definition triple_chunk ::
  "(block \<times> block) list \<Rightarrow> block list \<Rightarrow> bool list \<Rightarrow> bool list \<times> bool list \<times> bool list" where
  "triple_chunk sendMsg recvMsg tmpb =
     (let curStep = length sendMsg;
          x = (\<lambda>i. block_to_bool (fst (sendMsg ! i)) \<noteq> block_to_bool (snd (sendMsg ! i)));
          z = (\<lambda>i. (block_to_bool (fst (sendMsg ! i)) \<noteq> (x i \<and> tmpb ! i)) \<noteq> block_to_bool (recvMsg ! i))
      in (map x [0..<curStep], tmpb, map z [0..<curStep]))"

text \<open>
  The loop over the chunks, one element of each list per iteration.  The vector
  \<open>b\<close> is first filled with random bits, \<open>b_random\<close>, and then overwritten with
  \<open>tmpb\<close> in every chunk.
\<close>
fun triple_loop ::
  "((block \<times> block) list \<times> block list \<times> bool list) list \<Rightarrow> bool list \<Rightarrow>
   bool list \<times> bool list \<times> bool list" where
  "triple_loop [] b_random = ([], b_random, [])"
| "triple_loop ((sendMsg, recvMsg, tmpb) # chunks) b_random =
     (let (a, b, c) = triple_chunk sendMsg recvMsg tmpb;
          (as, bs, cs) = triple_loop chunks (drop (length tmpb) b_random)
      in (a @ as, b @ bs, c @ cs))"

definition triple_gen ::
  "((block \<times> block) list \<times> block list \<times> bool list) list \<Rightarrow> bool list \<Rightarrow> triples" where
  "triple_gen chunks b_random =
     (let (a, b, c) = triple_loop chunks b_random
      in \<lparr>tri_a = a, tri_b = b, tri_c = c, curTriple = 0\<rparr>)"

text \<open>
  \<open>BitVector::resize\<close> keeps the bits it has; what it leaves at a new position \<open>i\<close> is
  \<open>fresh i\<close>.  \<open>triple0\<close> and \<open>triple1\<close> do nothing else to \<open>tmpb\<close> before they hand it to the OT
  as choice bits.
\<close>
definition resize_bits :: "(nat \<Rightarrow> bool) \<Rightarrow> nat \<Rightarrow> bool list \<Rightarrow> bool list" where
  "resize_bits fresh n bs = take n bs @ map fresh [length bs..<n]"

text \<open>The sizes of the chunks of at most \<open>otStep\<close> triples.\<close>
function chunk_sizes :: "nat \<Rightarrow> nat \<Rightarrow> nat list" where
  "chunk_sizes otStep n =
     (if n = 0 \<or> otStep = 0 then [] else min otStep n # chunk_sizes otStep (n - otStep))"
  by auto
termination by (relation "measure snd") auto

declare chunk_sizes.simps [simp del]

text \<open>
  The chunks of a party, from the state of \<open>tmpb\<close>: \<open>sendMsg k\<close> are the pairs of chunk \<open>k\<close>,
  \<open>ot_receive k\<close> what the OT gives for the choice bits.
\<close>
fun party_chunks ::
  "(nat \<Rightarrow> bool) \<Rightarrow> (nat \<Rightarrow> (block \<times> block) list) \<Rightarrow> (nat \<Rightarrow> bool list \<Rightarrow> block list) \<Rightarrow> bool list \<Rightarrow> nat \<Rightarrow> nat list \<Rightarrow>
   ((block \<times> block) list \<times> block list \<times> bool list) list" where
  "party_chunks fresh sendMsg ot_receive tmpb k [] = []"
| "party_chunks fresh sendMsg ot_receive tmpb k (curStep # steps) =
     (let tmpb' = resize_bits fresh curStep tmpb
      in (sendMsg k, ot_receive k tmpb', tmpb') # party_chunks fresh sendMsg ot_receive tmpb' (Suc k) steps)"

text \<open>\<open>triple0\<close> and \<open>triple1\<close> for one party, which draws \<open>b_random\<close> first.\<close>
definition triple_party ::
  "(nat \<Rightarrow> bool) \<Rightarrow> nat \<Rightarrow> nat \<Rightarrow> (nat \<Rightarrow> (block \<times> block) list) \<Rightarrow> (nat \<Rightarrow> bool list \<Rightarrow> block list) \<Rightarrow> bool list \<Rightarrow> triples" where
  "triple_party fresh otStep n sendMsg ot_receive b_random =
     triple_gen (party_chunks fresh sendMsg ot_receive [] 0 (chunk_sizes otStep n)) b_random"

text \<open>The receiver of a random OT holds the message its choice bit selects.\<close>
definition ot_correct :: "(block \<times> block) list \<Rightarrow> bool list \<Rightarrow> block list \<Rightarrow> bool" where
  "ot_correct sendMsg choices recvMsg \<longleftrightarrow>
     length choices = length sendMsg \<and> length recvMsg = length sendMsg \<and>
     (\<forall>i < length sendMsg. recvMsg ! i = (if choices ! i then snd (sendMsg ! i) else fst (sendMsg ! i)))"

text \<open>The product relation of the two parties' triples.\<close>
definition good_triples :: "triples \<Rightarrow> triples \<Rightarrow> nat \<Rightarrow> bool" where
  "good_triples t0 t1 n \<longleftrightarrow>
     (\<forall>m < n. ((tri_a t0 ! m \<noteq> tri_a t1 ! m) \<and> (tri_b t0 ! m \<noteq> tri_b t1 ! m)) =
              (tri_c t0 ! m \<noteq> tri_c t1 ! m))"

section \<open>The equality test\<close>

text \<open>The values of \<open>for (j = 0; j < curLength; j += 2)\<close>.\<close>
definition even_steps :: "nat \<Rightarrow> nat list" where
  "even_steps curLength = map (\<lambda>k. 2 * k) [0..<(curLength + 1) div 2]"

text \<open>First half of a level: mask the pairs of bits with the triples, to be sent.\<close>
definition eq_open :: "nat \<Rightarrow> nat \<Rightarrow> bool list \<Rightarrow> triples \<Rightarrow> bool list \<times> bool list \<times> triples" where
  "eq_open curLength n res t =
     (let sendLength = curLength div 2 in
      fold (\<lambda>i. fold (\<lambda>j (xa, yb, t).
              if j = curLength - 1 then (xa, yb, t)
              else (xa[i * sendLength + j div 2 := (res ! (i * curLength + j) \<noteq> curA t)],
                    yb[i * sendLength + j div 2 := (res ! (i * curLength + j + 1) \<noteq> curB t)],
                    move 1 t)) (even_steps curLength))
        [0..<n] (replicate (sendLength * n) False, replicate (sendLength * n) False, t))"

text \<open>
  Second half of a level, in place in \<open>res\<close>.  The term \<open>d & e\<close> is added by
  \<open>eq0\<close> only; \<open>first\<close> distinguishes the two functions.
\<close>
definition eq_close ::
  "bool \<Rightarrow> nat \<Rightarrow> nat \<Rightarrow> bool list \<Rightarrow> bool list \<Rightarrow> bool list \<Rightarrow> bool list \<Rightarrow> bool list \<Rightarrow> triples \<Rightarrow>
   bool list \<times> triples" where
  "eq_close first curLength n xa0 yb0 xa1 yb1 res t =
     (let sendLength = curLength div 2; nextLength = (curLength + 1) div 2 in
      fold (\<lambda>i. fold (\<lambda>j (res, t).
              if j = curLength - 1
              then (res[i * nextLength + j div 2 := res ! (i * curLength + j)], t)
              else
                let d = (xa0 ! (i * sendLength + j div 2) \<noteq> xa1 ! (i * sendLength + j div 2));
                    e = (yb0 ! (i * sendLength + j div 2) \<noteq> yb1 ! (i * sendLength + j div 2));
                    w = ((d \<and> curB t) \<noteq> (e \<and> curA t)) \<noteq> curC t
                in (res[i * nextLength + j div 2 := (if first then (d \<and> e) \<noteq> w else w)], move 1 t))
            (even_steps curLength))
        [0..<n] (res, t))"

text \<open>
  The levels of \<open>eq0\<close> and \<open>eq1\<close> run together.  A state holds the two share
  vectors and the two triple cursors; the messages are exchanged within a level.
\<close>
fun eq_levels ::
  "nat \<Rightarrow> nat \<Rightarrow> nat \<Rightarrow> bool list \<Rightarrow> triples \<Rightarrow> bool list \<Rightarrow> triples \<Rightarrow> bool list \<times> bool list" where
  "eq_levels 0 curLength n res0 t0 res1 t1 = (take n res0, take n res1)"
| "eq_levels (Suc k) curLength n res0 t0 res1 t1 =
     (let sendLength = curLength div 2;
          (xa0, yb0, t0') = eq_open curLength n res0 t0;
          (xa1, yb1, t1') = eq_open curLength n res1 t1;
          (res0', t0'') = eq_close True curLength n xa0 yb0 xa1 yb1 res0 (move_back (n * sendLength) t0');
          (res1', t1'') = eq_close False curLength n xa0 yb0 xa1 yb1 res1 (move_back (n * sendLength) t1')
      in eq_levels k ((curLength + 1) div 2) n res0' t0'' res1' t1'')"

text \<open>\<open>eq0\<close> and \<open>eq1\<close>; \<open>log2ceil\<close> is cryptoTools' rounded-up logarithm.\<close>
definition eq_protocol ::
  "(nat \<Rightarrow> nat) \<Rightarrow> nat \<Rightarrow> triples \<Rightarrow> triples \<Rightarrow> bool list \<Rightarrow> bool list \<Rightarrow> bool list \<times> bool list" where
  "eq_protocol log2ceil len t0 t1 in0 in1 =
     eq_levels (log2ceil len) len (length in0 div len) in0 t0 in1 t1"

section \<open>Batched tests\<close>

text \<open>Bit \<open>j\<close> of element \<open>i\<close> at position \<open>i * len + j\<close>, as \<open>toBitVector\<close> and the byte-wise append.\<close>
definition toBitVector :: "'t::len word list \<Rightarrow> nat \<Rightarrow> bool list" where
  "toBitVector xs len = concat (map (\<lambda>x. map (bit x) [0..<len]) xs)"

text \<open>\<open>Batch_PEQT_recv\<close> and \<open>Batch_PEQT_send\<close>: one test per pair of elements.\<close>
definition batch_peqt ::
  "(nat \<Rightarrow> nat) \<Rightarrow> triples \<Rightarrow> triples \<Rightarrow> 't::len word list \<Rightarrow> 't word list \<Rightarrow> bool list \<times> bool list" where
  "batch_peqt log2ceil t0 t1 eles datas =
     eq_protocol log2ceil LENGTH('t) t0 t1
       (toBitVector eles LENGTH('t)) (map Not (toBitVector datas LENGTH('t)))"

text \<open>The loops that copy each datum \<open>batch_size\<close> times and that add up a batch of bits.\<close>
definition copy_batches :: "nat \<Rightarrow> 'a list \<Rightarrow> 'a list" where
  "copy_batches batch_size datas = concat (map (replicate batch_size) datas)"

definition batch_xor :: "nat \<Rightarrow> nat \<Rightarrow> bool list \<Rightarrow> bool list" where
  "batch_xor batch_num batch_size eqRes =
     map (\<lambda>i. fold (\<lambda>j s. s \<noteq> eqRes ! (i * batch_size + j)) [0..<batch_size] False) [0..<batch_num]"

text \<open>\<open>Batch_PSM_recv\<close> and \<open>Batch_PSM_send\<close>: a batch of elements against one datum each.\<close>
definition batch_psm ::
  "(nat \<Rightarrow> nat) \<Rightarrow> triples \<Rightarrow> triples \<Rightarrow> u64 list \<Rightarrow> nat \<Rightarrow> u64 list \<Rightarrow> bool list \<times> bool list" where
  "batch_psm log2ceil t0 t1 eles batch_size datas =
     (let (eqRes0, eqRes1) = batch_peqt log2ceil t0 t1 eles (copy_batches batch_size datas)
      in (batch_xor (length eles div batch_size) batch_size eqRes0,
          batch_xor (length datas) batch_size eqRes1))"

section \<open>Private index search\<close>

text \<open>
  A left shift of an \<open>int\<close>, converted to \<open>u64\<close>: 32 bits, sign extended; a shift by the width
  or more is undefined.
\<close>
definition int_shl :: "u32 \<Rightarrow> nat \<Rightarrow> u64 result" where
  "int_shl x n = (if n < 32 then Inr (scast (push_bit n x)) else Inl (Undefined_behaviour ''int shift''))"

text \<open>
  \<open>compute_split_index\<close>: list \<open>j\<close> collects the indices whose bit \<open>j\<close> is set.  The assertion
  wants a power of two.
\<close>
definition compute_split_index :: "nat \<Rightarrow> nat list list result" where
  "compute_split_index eles_size =
     (if eles_size AND (eles_size - 1) \<noteq> 0 then Inl (Runtime_error ''assertion'')
      else
        let vector_num = floor_log2 eles_size in
        rbind (mapR (int_shl 1) [0..<vector_num]) (\<lambda>mask. Inr (
          fold (\<lambda>i. fold (\<lambda>j res. if (of_nat i :: u64) AND mask ! j \<noteq> 0 then res[j := res ! j @ [i]] else res) [0..<vector_num])
            [0..<eles_size] (replicate vector_num []))))"

text \<open>Step 2 for one batch: the shares of the bits of the matching index, packed in a block.\<close>
definition pis_index_share :: "nat list list \<Rightarrow> nat \<Rightarrow> bool list \<Rightarrow> block result" where
  "pis_index_share indexs batch_index eqRes =
     (let psm_num = length indexs; psm_size = length (indexs ! 0) in
      foldR (\<lambda>m s.
          let tmp = fold (\<lambda>n tmp. tmp \<noteq> eqRes ! (batch_index + indexs ! m ! n)) [0..<psm_size] False
          in rbind (int_shl (if tmp then 1 else 0) m) (\<lambda>v. Inr (s OR ucast v)))
        [0..<psm_num] 0)"

text \<open>Step 3, sender: the two messages for the share bit \<open>t0\<close>, the index share and a random mask.\<close>
definition pis_messages :: "bool \<Rightarrow> block \<Rightarrow> block \<Rightarrow> block \<times> block" where
  "pis_messages t0 t r =
     (let q0 = (if \<not> t0 then r XOR t else t); q1 = r XOR q0 in (q0, q1))"

text \<open>Step 3, receiver: the OT output, unmasked, is added to the own index share.\<close>
definition pis_result :: "nat \<Rightarrow> bool \<Rightarrow> block \<Rightarrow> block \<Rightarrow> block \<Rightarrow> block \<Rightarrow> u64" where
  "pis_result psm_num s0 s recvMsg mask_msg_0 mask_msg_1 =
     ucast (((if s0 then recvMsg XOR mask_msg_1 else recvMsg XOR mask_msg_0) XOR s)
            AND ucast (2 ^ psm_num - 1 :: u64))"

text \<open>
  \<open>Batch_PIS_recv_new\<close> with \<open>Batch_PIS_send_new\<close>.  The pairs of the random OT, what the receiver
  gets of it, and the sender's random masks are arguments.  Both parties assert the sizes, and that
  the size of a batch is a power of two.  Reading \<open>indexs[0]\<close> is out of bounds when a batch has one
  element.
\<close>
definition batch_pis ::
  "(nat \<Rightarrow> nat) \<Rightarrow> triples \<Rightarrow> triples \<Rightarrow> 't::len word list \<Rightarrow> nat \<Rightarrow> 't word list \<Rightarrow>
   (block \<times> block) list \<Rightarrow> (bool list \<Rightarrow> block list) \<Rightarrow> block list \<Rightarrow> u64 list result" where
  "batch_pis log2ceil t0 t1 eles batch_size datas sendMsg ot_receive rs =
     (let batch_num = length datas;
          (eqRes0, eqRes1) = batch_peqt log2ceil t0 t1 eles (copy_batches batch_size datas);
          s0 = batch_xor batch_num batch_size eqRes0;
          t0 = batch_xor batch_num batch_size eqRes1
      in if length eles \<noteq> batch_num * batch_size \<or> batch_size AND (batch_size - 1) \<noteq> 0
         then Inl (Runtime_error ''assertion'')
         else
           rbind (compute_split_index batch_size) (\<lambda>indexs.
           if indexs = [] then Inl (Undefined_behaviour ''indexs[0]'')
           else
             let psm_num = length indexs in
             rbind (mapR (\<lambda>i. pis_index_share indexs (i * batch_size) eqRes0) [0..<batch_num]) (\<lambda>s.
             rbind (mapR (\<lambda>i. pis_index_share indexs (i * batch_size) eqRes1) [0..<batch_num]) (\<lambda>t.
             let pis_msg = (\<lambda>i. pis_messages (t0 ! i) (t ! i) (rs ! i));
                 half0 = (\<lambda>i. fst (pis_msg i) XOR fst (sendMsg ! i));
                 half1 = (\<lambda>i. snd (pis_msg i) XOR snd (sendMsg ! i));
                 recvMsg = ot_receive s0
             in Inr (map (\<lambda>i. pis_result psm_num (s0 ! i) (s ! i) (recvMsg ! i) (half0 i) (half1 i)) [0..<batch_num])))))"

section \<open>The loops in closed form\<close>

lemma upt_mult_Suc: "[0..<Suc n * q] = [0..<n * q] @ map (\<lambda>k. n * q + k) [0..<q]"
  using upt_add_eq_append [of 0 "n * q" q] map_add_upt [of "n * q" q]
  by (simp add: add.commute)

lemma fold_nested:
  assumes "0 < q"
  shows "fold (\<lambda>i. fold (f i) (map (\<lambda>k. 2 * k) [0..<q])) [0..<n] st =
    fold (\<lambda>m. f (m div q) (2 * (m mod q))) [0..<n * q] st"
proof (induction n)
  case (Suc n)
  have "fold (f n) (map (\<lambda>k. 2 * k) [0..<q]) s =
      fold (\<lambda>m. f (m div q) (2 * (m mod q))) (map (\<lambda>k. n * q + k) [0..<q]) s" for s
    unfolding fold_map using assms by (intro fold_cong) auto
  then show ?case using Suc by (simp only: upt_mult_Suc fold_append) simp
qed simp

lemma half_last: "2 * k = cur - 1 \<Longrightarrow> 0 < cur \<Longrightarrow> odd cur \<and> k = cur div 2 \<and> Suc cur div 2 = cur div 2 + 1"
  for k cur :: nat
  by presburger

lemma half_pair:
  "2 * k \<noteq> cur - 1 \<Longrightarrow> 0 < cur \<Longrightarrow> k < Suc cur div 2 \<Longrightarrow>
   k < cur div 2 \<and> (k + 1 = Suc cur div 2 \<longrightarrow> Suc cur div 2 = cur div 2)" for k cur :: nat
  by presburger

text \<open>The rank of the pair that loop step \<open>m\<close> starts from, and the step rule for it.\<close>
definition pair_rank :: "nat \<Rightarrow> nat \<Rightarrow> nat" where
  "pair_rank cur m = m div (Suc cur div 2) * (cur div 2) + m mod (Suc cur div 2)"

lemma pair_rank_0 [simp]: "pair_rank cur 0 = 0"
  by (simp add: pair_rank_def)

lemma mod_div_Suc: "Suc m mod q = (if m mod q + 1 = q then 0 else m mod q + 1)"
    "Suc m div q = (if m mod q + 1 = q then m div q + 1 else m div q)" if "0 < q" for q :: nat
  using that by (simp_all add: mod_Suc div_Suc)

lemma pair_rank_Suc:
  assumes "0 < cur"
  shows "pair_rank cur (Suc m) =
    (if 2 * (m mod (Suc cur div 2)) = cur - 1 then pair_rank cur m else pair_rank cur m + 1)"
proof -
  let ?q = "Suc cur div 2" and ?s = "cur div 2"
  have q: "0 < ?q" "m mod ?q < ?q" using assms by auto
  show ?thesis
  proof (cases "2 * (m mod ?q) = cur - 1")
    case True
    then have "odd cur" "m mod ?q = ?s" "?q = ?s + 1" using half_last [OF True assms] by simp_all
    then show ?thesis using True mod_div_Suc [OF q(1), of m] by (simp add: pair_rank_def)
  next
    case False
    then have "m mod ?q + 1 = ?q \<Longrightarrow> ?q = ?s" using half_pair [OF False assms q(2)] by simp
    then show ?thesis using False mod_div_Suc [OF q(1), of m] by (auto simp: pair_rank_def)
  qed
qed

lemma pair_rank_end: "0 < cur \<Longrightarrow> pair_rank cur (n * (Suc cur div 2)) = n * (cur div 2)"
  by (auto simp: pair_rank_def)

text \<open>A step that masks a pair: its rank is in range, and determines row and column.\<close>
lemma pair_rank_step:
  assumes "0 < cur" "m < n * (Suc cur div 2)" "2 * (m mod (Suc cur div 2)) \<noteq> cur - 1"
  shows "pair_rank cur m < n * (cur div 2)"
    "pair_rank cur m div (cur div 2) = m div (Suc cur div 2)"
    "pair_rank cur m mod (cur div 2) = m mod (Suc cur div 2)"
proof -
  let ?q = "Suc cur div 2" and ?s = "cur div 2"
  have "m mod ?q < ?q" using assms(1) by simp
  then have k: "m mod ?q < ?s" using half_pair [OF assms(3,1)] by simp
  have i: "m div ?q < n" using assms(1,2) by (simp add: div_less_iff_less_mult)
  show "pair_rank cur m div ?s = m div ?q" "pair_rank cur m mod ?s = m mod ?q"
    using k by (simp_all add: pair_rank_def)
  have "pair_rank cur m < (m div ?q + 1) * ?s" using k by (simp add: pair_rank_def)
  also have "\<dots> \<le> n * ?s" using i by (intro mult_le_mono1) simp
  finally show "pair_rank cur m < n * ?s" .
qed

lemma list_update_map_upt:
  "p < N \<Longrightarrow> (map g [0..<p] @ replicate (N - p) z)[p := g p] = map g [0..<Suc p] @ replicate (N - Suc p) z"
  by (rule nth_equalityI) (auto simp: nth_list_update nth_append)

lemma move_simps [simp]:
  "tri_a (move k t) = tri_a t" "tri_b (move k t) = tri_b t" "tri_c (move k t) = tri_c t"
  "curTriple (move k t) = curTriple t + k"
  "tri_a (move_back k t) = tri_a t" "tri_b (move_back k t) = tri_b t" "tri_c (move_back k t) = tri_c t"
  "curTriple (move_back k t) = curTriple t - k"
  by (simp_all add: move_def move_back_def)

lemma move_move [simp]: "move j (move k t) = move (k + j) t" "move_back k (move k t) = t" "move 0 t = t"
  by (simp_all add: move_def move_back_def ac_simps)

text \<open>The masked bits of the pair with rank \<open>r\<close>.\<close>
definition masked_x :: "nat \<Rightarrow> bool list \<Rightarrow> triples \<Rightarrow> nat \<Rightarrow> bool" where
  "masked_x cur res t r = (res ! (r div (cur div 2) * cur + 2 * (r mod (cur div 2))) \<noteq> tri_a t ! (curTriple t + r))"

definition masked_y :: "nat \<Rightarrow> bool list \<Rightarrow> triples \<Rightarrow> nat \<Rightarrow> bool" where
  "masked_y cur res t r = (res ! (r div (cur div 2) * cur + 2 * (r mod (cur div 2)) + 1) \<noteq> tri_b t ! (curTriple t + r))"

lemma eq_open_eq:
  assumes "0 < cur"
  shows "eq_open cur n res t =
    (map (masked_x cur res t) [0..<n * (cur div 2)], map (masked_y cur res t) [0..<n * (cur div 2)],
     move (n * (cur div 2)) t)"
proof -
  let ?q = "Suc cur div 2" and ?s = "cur div 2"
  let ?N = "n * ?s"
  let ?step = "\<lambda>i j (xa, yb, t'). if j = cur - 1 then (xa, yb, t')
              else (xa[i * ?s + j div 2 := (res ! (i * cur + j) \<noteq> curA t')],
                    yb[i * ?s + j div 2 := (res ! (i * cur + j + 1) \<noteq> curB t')], move 1 t')"
  let ?st = "\<lambda>p. (map (masked_x cur res t) [0..<p] @ replicate (?N - p) False,
      map (masked_y cur res t) [0..<p] @ replicate (?N - p) False, move p t)"
  have "fold (\<lambda>m. ?step (m div ?q) (2 * (m mod ?q))) [0..<m] (?st 0) = ?st (pair_rank cur m)"
    if "m \<le> n * ?q" for m
    using that
  proof (induction m)
    case (Suc m)
    then have IH: "fold (\<lambda>m. ?step (m div ?q) (2 * (m mod ?q))) [0..<m] (?st 0) = ?st (pair_rank cur m)"
      by simp
    show ?case
    proof (cases "2 * (m mod ?q) = cur - 1")
      case True
      then show ?thesis using IH pair_rank_Suc [OF assms, of m] by simp
    next
      case False
      let ?p = "pair_rank cur m"
      note r = pair_rank_step [OF assms _ False, of n]
      have p: "?p < ?N" "m div ?q * ?s + m mod ?q = ?p" using r Suc.prems by (simp_all add: pair_rank_def)
      have xy: "(res ! (m div ?q * cur + 2 * (m mod ?q)) \<noteq> curA (move ?p t)) = masked_x cur res t ?p"
        "(res ! (m div ?q * cur + 2 * (m mod ?q) + 1) \<noteq> curB (move ?p t)) = masked_y cur res t ?p"
        using r Suc.prems by (simp_all add: masked_x_def masked_y_def curA_def curB_def)
      let ?xs = "map (masked_x cur res t) [0..<?p] @ replicate (?N - ?p) False"
      let ?ys = "map (masked_y cur res t) [0..<?p] @ replicate (?N - ?p) False"
      have "?step (m div ?q) (2 * (m mod ?q)) (?st ?p) =
          (?xs[?p := (res ! (m div ?q * cur + 2 * (m mod ?q)) \<noteq> curA (move ?p t))],
           ?ys[?p := (res ! (m div ?q * cur + 2 * (m mod ?q) + 1) \<noteq> curB (move ?p t))], move 1 (move ?p t))"
        using False p by simp
      also have "\<dots> = ?st (Suc ?p)"
        unfolding xy list_update_map_upt [OF p(1)] by simp
      finally have "?step (m div ?q) (2 * (m mod ?q)) (?st ?p) = ?st (Suc ?p)" .
      then show ?thesis
        using IH False pair_rank_Suc [OF assms, of m] by simp
    qed
  qed simp
  from this [of "n * ?q"] show ?thesis
    using assms fold_nested [of ?q ?step n "?st 0"]
    by (simp add: eq_open_def Let_def even_steps_def pair_rank_end mult.commute)
qed

text \<open>What step \<open>m\<close> of the second loop writes.\<close>
definition closed_bit ::
  "bool \<Rightarrow> nat \<Rightarrow> (nat \<Rightarrow> bool) \<Rightarrow> (nat \<Rightarrow> bool) \<Rightarrow> bool list \<Rightarrow> triples \<Rightarrow> nat \<Rightarrow> bool" where
  "closed_bit first cur d e res t m =
     (let i = m div (Suc cur div 2); k = m mod (Suc cur div 2); r = pair_rank cur m in
      if 2 * k = cur - 1 then res ! (i * cur + 2 * k)
      else (first \<and> d r \<and> e r) \<noteq>
        (((d r \<and> tri_b t ! (curTriple t + r)) \<noteq> (e r \<and> tri_a t ! (curTriple t + r))) \<noteq>
         tri_c t ! (curTriple t + r)))"

lemma list_update_prefix:
  "m < length xs \<Longrightarrow> (map g [0..<m] @ drop m xs)[m := g m] = map g [0..<Suc m] @ drop (Suc m) xs"
  by (rule nth_equalityI) (auto simp: nth_list_update nth_append)

lemma eq_close_eq:
  assumes "0 < cur" "n * (Suc cur div 2) \<le> length res"
    "\<And>r. r < n * (cur div 2) \<Longrightarrow> d r = (xa0 ! r \<noteq> xa1 ! r)"
    "\<And>r. r < n * (cur div 2) \<Longrightarrow> e r = (yb0 ! r \<noteq> yb1 ! r)"
  shows "eq_close first cur n xa0 yb0 xa1 yb1 res t =
    (map (closed_bit first cur d e res t) [0..<n * (Suc cur div 2)] @ drop (n * (Suc cur div 2)) res,
     move (n * (cur div 2)) t)"
proof -
  let ?q = "Suc cur div 2" and ?s = "cur div 2"
  let ?step = "\<lambda>i j (res, t). if j = cur - 1
              then (res[i * ?q + j div 2 := res ! (i * cur + j)], t)
              else let d = (xa0 ! (i * ?s + j div 2) \<noteq> xa1 ! (i * ?s + j div 2));
                       e = (yb0 ! (i * ?s + j div 2) \<noteq> yb1 ! (i * ?s + j div 2));
                       w = ((d \<and> curB t) \<noteq> (e \<and> curA t)) \<noteq> curC t
                   in (res[i * ?q + j div 2 := (if first then (d \<and> e) \<noteq> w else w)], move 1 t)"
  let ?g = "closed_bit first cur d e res t"
  let ?st = "\<lambda>m. (map ?g [0..<m] @ drop m res, move (pair_rank cur m) t)"
  have q: "0 < ?q" "?q \<le> cur" using assms(1) by auto
  note len = assms(2)
  have "fold (\<lambda>m. ?step (m div ?q) (2 * (m mod ?q))) [0..<m] (res, t) = ?st m" if "m \<le> n * ?q" for m
    using that
  proof (induction m)
    case (Suc m)
    then have IH: "fold (\<lambda>m. ?step (m div ?q) (2 * (m mod ?q))) [0..<m] (res, t) = ?st m" by simp
    have m: "m < length res" using Suc.prems len by linarith
    let ?i = "m div ?q" and ?k = "m mod ?q"
    have idx: "?i * ?q + ?k = m" by (rule div_mult_mod_eq)
    have "?step ?i (2 * ?k) (?st m) = ?st (Suc m)"
    proof (cases "2 * ?k = cur - 1")
      case True
      have "m \<le> ?i * cur + 2 * ?k"
        using q(2) idx mult_le_mono2 [of ?q cur ?i] by linarith
      then have "(map ?g [0..<m] @ drop m res) ! (?i * cur + 2 * ?k) = ?g m"
        using True m by (simp add: closed_bit_def Let_def nth_append)
      moreover have "(cur - Suc 0) div 2 = ?k" using arg_cong [OF True, of "\<lambda>x. x div 2"] by simp
      ultimately show ?thesis
        using True pair_rank_Suc [OF assms(1), of m] idx list_update_prefix [OF m, of ?g]
        by (simp del: upt_Suc)
    next
      case False
      let ?p = "pair_rank cur m"
      have k2: "2 * ?k div 2 = ?k" by simp
      have "m < n * ?q" using Suc.prems by simp
      note r = pair_rank_step [OF assms(1) this False]
      have p: "?p < n * ?s" "?i * ?s + ?k = ?p" using r(1) by (simp_all add: pair_rank_def)
      let ?w = "((d ?p \<and> curB (move ?p t)) \<noteq> (e ?p \<and> curA (move ?p t))) \<noteq> curC (move ?p t)"
      have g: "(if first then (d ?p \<and> e ?p) \<noteq> ?w else ?w) = ?g m"
        using False by (simp add: closed_bit_def Let_def curA_def curB_def curC_def)
      have "?step ?i (2 * ?k) (?st m) =
          ((map ?g [0..<m] @ drop m res)[m := (if first then (d ?p \<and> e ?p) \<noteq> ?w else ?w)], move 1 (move ?p t))"
        by (simp only: prod.case Let_def if_not_P [OF False] k2 p(2) idx
            assms(3,4) [OF p(1), symmetric])
      then show ?thesis
        unfolding g list_update_prefix [OF m] using False pair_rank_Suc [OF assms(1), of m] by simp
    qed
    then show ?case using IH by simp
  qed simp
  from this [of "n * ?q"] show ?thesis
    using q(1) fold_nested [of ?q ?step n "(res, t)"]
    by (simp add: eq_close_def Let_def even_steps_def pair_rank_end [OF assms(1)])
qed

section \<open>One level computes the conjunction of pairs\<close>

lemma and_level_bit:
  assumes "0 < cur" "m < n * (Suc cur div 2)"
    "curTriple t0 = base" "curTriple t1 = base"
    "\<And>r. r < n * (cur div 2) \<Longrightarrow>
       ((tri_a t0 ! (base + r) \<noteq> tri_a t1 ! (base + r)) \<and> (tri_b t0 ! (base + r) \<noteq> tri_b t1 ! (base + r))) =
       (tri_c t0 ! (base + r) \<noteq> tri_c t1 ! (base + r))"
    and d: "\<And>r. d r = (masked_x cur res0 t0 r \<noteq> masked_x cur res1 t1 r)"
    and e: "\<And>r. e r = (masked_y cur res0 t0 r \<noteq> masked_y cur res1 t1 r)"
  shows "(closed_bit True cur d e res0 t0 m \<noteq> closed_bit False cur d e res1 t1 m) =
    (let i = m div (Suc cur div 2); k = m mod (Suc cur div 2);
         v = (\<lambda>j. res0 ! (i * cur + j) \<noteq> res1 ! (i * cur + j)) in
     v (2 * k) \<and> (2 * k = cur - 1 \<or> v (2 * k + 1)))"
proof (cases "2 * (m mod (Suc cur div 2)) = cur - 1")
  case True
  then show ?thesis by (simp add: closed_bit_def Let_def)
next
  case False
  have r: "pair_rank cur m < n * (cur div 2)" "pair_rank cur m div (cur div 2) = m div (Suc cur div 2)"
    "pair_rank cur m mod (cur div 2) = m mod (Suc cur div 2)"
    using pair_rank_step [OF assms(1), of m n] assms(2) False by simp_all
  then show ?thesis
    using False assms(5) [OF r(1)]
    unfolding closed_bit_def Let_def d e masked_x_def masked_y_def assms(3,4) r(2,3) if_not_P [OF False]
      add.assoc
    by argo
qed

text \<open>The rows hold the xor of the shares; a level keeps each row's conjunction.\<close>
lemma pairs_all:
  assumes "0 < cur"
  shows "(\<forall>k < Suc cur div 2. v (2 * k) \<and> (2 * k = cur - 1 \<or> v (2 * k + 1))) \<longleftrightarrow> (\<forall>j < cur. v j)"
proof (intro iffI allI impI)
  fix j assume a: "\<forall>k < Suc cur div 2. v (2 * k) \<and> (2 * k = cur - 1 \<or> v (2 * k + 1))" "j < cur"
  have "j div 2 < Suc cur div 2" using a(2) by presburger
  with a(1) have k: "v (2 * (j div 2)) \<and> (2 * (j div 2) = cur - 1 \<or> v (2 * (j div 2) + 1))" by blast
  show "v j"
  proof (cases "even j")
    case True
    then show ?thesis using k by simp
  next
    case False
    then have "2 * (j div 2) + 1 = j" "2 * (j div 2) \<noteq> cur - 1" using a(2) by presburger+
    then show ?thesis using k by simp
  qed
next
  fix k assume a: "\<forall>j < cur. v j" "k < Suc cur div 2"
  then have "2 * k < cur" "2 * k \<noteq> cur - 1 \<Longrightarrow> 2 * k + 1 < cur" using assms by presburger+
  then show "v (2 * k) \<and> (2 * k = cur - 1 \<or> v (2 * k + 1))" using a(1) by blast
qed

definition eq_row :: "nat \<Rightarrow> bool list \<Rightarrow> bool list \<Rightarrow> nat \<Rightarrow> bool" where
  "eq_row cur res0 res1 i \<longleftrightarrow> (\<forall>j < cur. res0 ! (i * cur + j) \<noteq> res1 ! (i * cur + j))"

lemma eq_levels_correct:
  assumes "0 < cur" "cur \<le> 2 ^ k" "n * cur \<le> length res0" "n * cur \<le> length res1"
    "curTriple t0 = curTriple t1" "good_triples t0 t1 (curTriple t0 + n * cur)"
  shows "length (fst (eq_levels k cur n res0 t0 res1 t1)) = n \<and>
    length (snd (eq_levels k cur n res0 t0 res1 t1)) = n \<and>
    (\<forall>i < n. (fst (eq_levels k cur n res0 t0 res1 t1) ! i \<noteq> snd (eq_levels k cur n res0 t0 res1 t1) ! i)
      = eq_row cur res0 res1 i)"
  using assms
proof (induction k arbitrary: cur res0 t0 res1 t1)
  case 0
  then have "cur = 1" by simp
  then show ?case using 0 by (simp add: eq_row_def)
next
  case (Suc k)
  let ?q = "Suc cur div 2" and ?s = "cur div 2"
  define d where "d r = (masked_x cur res0 t0 r \<noteq> masked_x cur res1 t1 r)" for r
  define e where "e r = (masked_y cur res0 t0 r \<noteq> masked_y cur res1 t1 r)" for r
  let ?g0 = "closed_bit True cur d e res0 t0" and ?g1 = "closed_bit False cur d e res1 t1"
  define r0 where "r0 = map ?g0 [0..<n * ?q] @ drop (n * ?q) res0"
  define r1 where "r1 = map ?g1 [0..<n * ?q] @ drop (n * ?q) res1"
  have qc: "?q \<le> cur" "0 < ?q" "?s + ?q = cur" using Suc.prems(1) by presburger+
  have nq: "n * ?q \<le> n * cur" using qc by (intro mult_le_mono2)
  have l: "n * ?q \<le> length res0" "n * ?q \<le> length res1"
    by (rule le_trans [OF nq Suc.prems(3)], rule le_trans [OF nq Suc.prems(4)])
  have c0: "eq_close True cur n (map (masked_x cur res0 t0) [0..<n * ?s]) (map (masked_y cur res0 t0) [0..<n * ?s])
      (map (masked_x cur res1 t1) [0..<n * ?s]) (map (masked_y cur res1 t1) [0..<n * ?s]) res0 t0 =
      (r0, move (n * ?s) t0)"
    unfolding r0_def by (rule eq_close_eq [OF Suc.prems(1) l(1)]) (simp_all add: d_def e_def)
  have c1: "eq_close False cur n (map (masked_x cur res0 t0) [0..<n * ?s]) (map (masked_y cur res0 t0) [0..<n * ?s])
      (map (masked_x cur res1 t1) [0..<n * ?s]) (map (masked_y cur res1 t1) [0..<n * ?s]) res1 t1 =
      (r1, move (n * ?s) t1)"
    unfolding r1_def by (rule eq_close_eq [OF Suc.prems(1) l(2)]) (simp_all add: d_def e_def)
  have step: "eq_levels (Suc k) cur n res0 t0 res1 t1 =
      eq_levels k ?q n r0 (move (n * ?s) t0) r1 (move (n * ?s) t1)"
    using Suc.prems(1) by (simp add: eq_open_eq c0 c1 Let_def)
  have "n * ?s + n * ?q = n * cur" by (simp add: qc(3) flip: distrib_left)
  then have IH: "length (fst (eq_levels k ?q n r0 (move (n * ?s) t0) r1 (move (n * ?s) t1))) = n \<and>
      length (snd (eq_levels k ?q n r0 (move (n * ?s) t0) r1 (move (n * ?s) t1))) = n \<and>
      (\<forall>i < n. (fst (eq_levels k ?q n r0 (move (n * ?s) t0) r1 (move (n * ?s) t1)) ! i \<noteq>
         snd (eq_levels k ?q n r0 (move (n * ?s) t0) r1 (move (n * ?s) t1)) ! i) = eq_row ?q r0 r1 i)"
    using Suc.prems qc nq
    by (intro Suc.IH) (simp_all add: r0_def r1_def good_triples_def)
  have tri: "((tri_a t0 ! (curTriple t0 + r) \<noteq> tri_a t1 ! (curTriple t0 + r)) \<and>
       (tri_b t0 ! (curTriple t0 + r) \<noteq> tri_b t1 ! (curTriple t0 + r))) =
       (tri_c t0 ! (curTriple t0 + r) \<noteq> tri_c t1 ! (curTriple t0 + r))" if "r < n * ?s" for r
  proof -
    have "n * ?s \<le> n * cur" using qc(3) by (intro mult_le_mono2) linarith
    then have "curTriple t0 + r < curTriple t0 + n * cur" using that by linarith
    then show ?thesis using Suc.prems(6) unfolding good_triples_def by blast
  qed
  have row: "eq_row ?q r0 r1 i = eq_row cur res0 res1 i" if "i < n" for i
  proof -
    let ?v = "\<lambda>j. res0 ! (i * cur + j) \<noteq> res1 ! (i * cur + j)"
    have bit: "(r0 ! (i * ?q + k) \<noteq> r1 ! (i * ?q + k)) = (?v (2 * k) \<and> (2 * k = cur - 1 \<or> ?v (2 * k + 1)))"
      if "k < ?q" for k
    proof -
      have "i * ?q + k < (i + 1) * ?q" using that by simp
      also have "\<dots> \<le> n * ?q" using \<open>i < n\<close> by (intro mult_le_mono1) simp
      finally have m: "i * ?q + k < n * ?q" .
      have "(i * ?q + k) div ?q = i" "(i * ?q + k) mod ?q = k" using that by simp_all
      then show ?thesis
        using m and_level_bit [OF Suc.prems(1) m refl Suc.prems(5) [symmetric] tri d_def e_def]
        by (simp add: r0_def r1_def nth_append Let_def)
    qed
    show ?thesis
      unfolding eq_row_def using bit pairs_all [OF Suc.prems(1), of ?v] by auto
  qed
  show ?case using IH row by (simp only: step) simp
qed

section \<open>The batched tests\<close>

lemma length_toBitVector [simp]: "length (toBitVector xs len) = length xs * len"
  by (induction xs) (simp_all add: toBitVector_def)

lemma nth_toBitVector:
  "i < length xs \<Longrightarrow> j < len \<Longrightarrow> toBitVector xs len ! (i * len + j) = bit (xs ! i) j"
proof (induction xs arbitrary: i)
  case (Cons x xs)
  have c: "toBitVector (x # xs) len = map (bit x) [0..<len] @ toBitVector xs len"
    by (simp add: toBitVector_def)
  show ?case
  proof (cases i)
    case 0
    then show ?thesis using Cons.prems by (simp add: c nth_append)
  next
    case (Suc i')
    then have "i * len + j = len + (i' * len + j)" by simp
    then show ?thesis using Cons Suc by (simp add: c nth_append)
  qed
qed simp

lemma batch_peqt_bits:
  fixes eles datas :: "'t::len word list"
  assumes "length datas = length eles" "LENGTH('t) \<le> 2 ^ log2ceil LENGTH('t)"
    "curTriple t0 = 0" "curTriple t1 = 0" "good_triples t0 t1 (length eles * LENGTH('t))"
    "batch_peqt log2ceil t0 t1 eles datas = (r0, r1)"
  shows "length r0 = length eles" "length r1 = length eles"
    "i < length eles \<Longrightarrow> (r0 ! i \<noteq> r1 ! i) = (eles ! i = datas ! i)"
proof -
  let ?L = "LENGTH('t)" and ?n = "length eles"
  let ?in0 = "toBitVector eles ?L" and ?in1 = "map Not (toBitVector datas ?L)"
  have "?n * ?L div ?L = ?n" by simp
  then have r: "eq_levels (log2ceil ?L) ?L ?n ?in0 t0 ?in1 t1 = (r0, r1)"
    using assms(6) by (simp only: batch_peqt_def eq_protocol_def length_toBitVector)
  have "length r0 = ?n \<and> length r1 = ?n \<and> (\<forall>i < ?n. (r0 ! i \<noteq> r1 ! i) = eq_row ?L ?in0 ?in1 i)"
    using eq_levels_correct [of ?L "log2ceil ?L" ?n ?in0 ?in1 t0 t1] assms(1-5)
    unfolding r by simp
  then show "length r0 = ?n" "length r1 = ?n"
    "i < ?n \<Longrightarrow> (r0 ! i \<noteq> r1 ! i) = (eles ! i = datas ! i)"
  proof -
    assume i: "i < ?n"
    have "eq_row ?L ?in0 ?in1 i \<longleftrightarrow> (\<forall>j < ?L. bit (eles ! i) j = bit (datas ! i) j)"
    proof -
      have "i * ?L + j < ?n * ?L" if "j < ?L" for j
      proof -
        have "i * ?L + j < (i + 1) * ?L" using that by simp
        also have "\<dots> \<le> ?n * ?L" using i by (intro mult_le_mono1) simp
        finally show ?thesis .
      qed
      then show ?thesis using i assms(1) by (simp add: eq_row_def nth_toBitVector)
    qed
    also have "\<dots> \<longleftrightarrow> eles ! i = datas ! i" by (auto simp: bit_eq_iff dest: bit_imp_le_length)
    finally show "(r0 ! i \<noteq> r1 ! i) = (eles ! i = datas ! i)"
      using \<open>length r0 = ?n \<and> length r1 = ?n \<and> _\<close> i by simp
  qed auto
qed

lemma length_copy_batches [simp]: "length (copy_batches b xs) = length xs * b"
  by (induction xs) (simp_all add: copy_batches_def)

lemma nth_copy_batches: "i < length xs \<Longrightarrow> j < b \<Longrightarrow> copy_batches b xs ! (i * b + j) = xs ! i"
proof (induction xs arbitrary: i)
  case (Cons x xs)
  have c: "copy_batches b (x # xs) = replicate b x @ copy_batches b xs"
    by (simp add: copy_batches_def)
  show ?case
  proof (cases i)
    case 0
    then show ?thesis using Cons.prems by (simp add: c nth_append)
  next
    case (Suc i')
    then have "i * b + j = b + (i' * b + j)" by simp
    then show ?thesis using Cons Suc by (simp add: c nth_append)
  qed
qed simp

lemma batch_index_less: "i < n \<Longrightarrow> j < b \<Longrightarrow> i * b + j < n * (b :: nat)"
proof -
  assume "i < n" "j < b"
  then have "i * b + j < (i + 1) * b" by simp
  also have "\<dots> \<le> n * b" using \<open>i < n\<close> by (intro mult_le_mono1) simp
  finally show ?thesis .
qed

text \<open>The xor of the two parties' batch sums is the parity of the number of matches.\<close>
lemma nth_batch_xor:
  assumes "i < n"
  shows "batch_xor n b r ! i = odd (length (filter (\<lambda>j. r ! (i * b + j)) [0..<b]))"
proof -
  have "batch_xor n b r ! i = fold (\<lambda>j s. s \<noteq> r ! ([0..<n] ! i * b + j)) [0..<b] False"
    using assms unfolding batch_xor_def by (subst nth_map) simp_all
  then show ?thesis using assms unfolding fold_xor_parity by simp
qed

lemma batch_xor_parity:
  assumes "i < n"
  shows "(batch_xor n b r0 ! i \<noteq> batch_xor n b r1 ! i) =
    odd (length (filter (\<lambda>j. r0 ! (i * b + j) \<noteq> r1 ! (i * b + j)) [0..<b]))"
  unfolding nth_batch_xor [OF assms] parity_xor ..

section \<open>The split index\<close>

lemma split_row:
  fixes i v w :: nat
  assumes "w \<le> v" "length res = v"
  shows "fold (\<lambda>j res. if bit i j then res[j := res ! j @ [i]] else res) [0..<w] res =
   map (\<lambda>j. if j < w \<and> bit i j then res ! j @ [i] else res ! j) [0..<v]"
  using assms
proof (induction w)
  case 0
  then show ?case using map_nth [of res] by simp
next
  case (Suc w)
  have "w < length (map (\<lambda>j. if j < w \<and> bit i j then res ! j @ [i] else res ! j) [0..<v])"
    using Suc.prems by simp
  then show ?case
    unfolding fold_upt_Suc Suc.IH [OF Suc_leD [OF Suc.prems(1)] Suc.prems(2)]
    by (cases "bit i w") (auto intro!: nth_equalityI simp: nth_list_update less_Suc_eq)
qed

lemma bit_int_shl:
  assumes "int_shl (if b then 1 else 0) m = Inr v" "i < 32"
  shows "bit v i \<longleftrightarrow> b \<and> i = m"
  using assms
  by (auto simp: int_shl_def bit_signed_iff bit_push_bit_iff possible_bit_word min_def bit_exp_iff split: if_splits)

lemma pow2_and_pred: "(2::nat) ^ v AND (2 ^ v - 1) = 0"
proof -
  have "(2::nat) ^ v AND mask v = 0" by (simp only: flip: take_bit_eq_mask) (simp add: take_bit_eq_mod)
  then show ?thesis by (simp add: mask_eq_exp_minus_1)
qed

lemmas pow2_and_simps = pow2_and_pred pow2_and_pred [unfolded One_nat_def]

lemma mapR_error:
  "k < n \<Longrightarrow> (\<And>i. i < k \<Longrightarrow> f i = Inr (g i)) \<Longrightarrow> f k = Inl e \<Longrightarrow> mapR f [0..<n] = Inl e"
proof -
  assume k: "k < n" "\<And>i. i < k \<Longrightarrow> f i = Inr (g i)" "f k = Inl e"
  have app: "mapR f (xs @ ys) = Inl e" if "\<And>x. x \<in> set xs \<Longrightarrow> f x = Inr (g x)" "mapR f ys = Inl e" for xs ys
    using that by (induction xs) simp_all
  have "[0..<n] = [0..<k] @ [k..<n]" using upt_add_eq_append [of 0 k "n - k"] k(1) by simp
  then have "[0..<n] = [0..<k] @ k # [Suc k..<n]" using upt_conv_Cons [OF k(1)] by metis
  then show ?thesis using app [of "[0..<k]" "k # [Suc k..<n]"] k(2,3) by simp
qed

lemma and_mask_bit:
  fixes mask :: "u64 list"
  assumes "mapR (int_shl 1) [0..<v] = Inr mask" "j < v" "i < 2 ^ v" "v \<le> 32"
  shows "(of_nat i :: u64) AND mask ! j \<noteq> 0 \<longleftrightarrow> bit i j"
proof -
  obtain g where g: "\<And>m. m < 32 \<Longrightarrow> int_shl 1 m = Inr (g m)" by (simp add: int_shl_def)
  then have "mapR (int_shl 1) [0..<v] = Inr (map g [0..<v])" using assms(4) by (intro mapR_Inr) simp
  then have "mask ! j = g j" using assms(1,2) by simp
  have bits: "bit (g j) n \<longleftrightarrow> n = j" if "n < 32" for n
    using bit_int_shl [of True j "g j" n] g [of j] that assms(2,4) by simp
  have lt: "n < v" if "bit i n" for n
  proof (rule ccontr)
    assume "\<not> n < v"
    then have "(2::nat) ^ v \<le> 2 ^ n" by (intro power_increasing) simp_all
    with assms(3) have "i < 2 ^ n" by (rule less_le_trans)
    then show False using that by (simp add: bit_iff_odd)
  qed
  have lt32: "n < 32" if "bit i n" for n using lt [OF that] assms(4) by simp
  have "bit (of_nat i :: u64) n \<longleftrightarrow> bit i n" for n
    using lt32 [of n] by (auto simp: bit_of_nat_iff possible_bit_word)
  with \<open>mask ! j = g j\<close> bits lt32 have "bit ((of_nat i :: u64) AND mask ! j) n \<longleftrightarrow> n = j \<and> bit i j" for n
    by (metis bit_and_iff)
  then show ?thesis by (metis bit_eq_iff bit_0_eq bot_apply bot_bool_def zero_and_eq)
qed

lemma compute_split_index_eq:
  assumes "v \<le> 32"
  shows "compute_split_index (2 ^ v) = Inr (map (\<lambda>j. filter (\<lambda>i. bit i j) [0..<2 ^ v]) [0..<v])"
proof -
  obtain mask where mask: "mapR (int_shl 1) [0..<v] = Inr mask"
    using mapR_upt [of v "int_shl 1" "\<lambda>_ _. True"] assms by (auto simp: int_shl_def)
  let ?f = "\<lambda>i. fold (\<lambda>j res. if (of_nat i :: u64) AND mask ! j \<noteq> 0 then res[j := res ! j @ [i]] else res) [0..<v]"
  have "fold ?f [0..<m] (replicate v []) = map (\<lambda>j. filter (\<lambda>i. bit i j) [0..<m]) [0..<v]" if "m \<le> 2 ^ v" for m
    using that
  proof (induction m)
    case 0
    then show ?case by (simp add: map_replicate_const)
  next
    case (Suc m)
    let ?m = "map (\<lambda>j. filter (\<lambda>i. bit i j) [0..<m]) [0..<v]"
    have "?f m ?m = fold (\<lambda>j res. if bit m j then res[j := res ! j @ [m]] else res) [0..<v] ?m"
      using and_mask_bit [OF mask _ _ assms, of _ m] Suc.prems by (intro fold_cong) auto
    also have "\<dots> = map (\<lambda>j. if j < v \<and> bit m j then ?m ! j @ [m] else ?m ! j) [0..<v]"
      by (rule split_row) simp_all
    also have "\<dots> = map (\<lambda>j. filter (\<lambda>i. bit i j) [0..<Suc m]) [0..<v]" by auto
    finally show ?case using Suc by (simp only: fold_upt_Suc Suc_leD)
  qed
  then show ?thesis using mask by (simp add: compute_split_index_def pow2_and_simps del: upt_Suc)
qed

lemma compute_split_index_wide:
  assumes "32 < v"
  shows "compute_split_index (2 ^ v) = Inl (Undefined_behaviour ''int shift'')"
proof -
  have "int_shl 1 m = Inr (scast (push_bit m 1 :: u32))" if "m < 32" for m using that by (simp add: int_shl_def)
  from mapR_error [where f = "int_shl 1" and e = "Undefined_behaviour ''int shift''", OF assms this] have "mapR (int_shl 1) [0..<v] = Inl (Undefined_behaviour ''int shift'')"
    by (simp add: int_shl_def)
  then show ?thesis by (simp add: compute_split_index_def pow2_and_simps del: upt_Suc)
qed

text \<open>For a power of two every list of the split has half of the indices.\<close>
lemma length_split_list:
  assumes "j < v"
  shows "length (filter (\<lambda>i. bit i j) [0..<2 ^ v]) = (2::nat) ^ (v - 1)"
  using assms
proof (induction v)
  case (Suc v)
  have up: "[0..<2 ^ Suc v] = [0..<2 ^ v] @ map (\<lambda>i. i + 2 ^ v) [0..<2 ^ v]"
  proof -
    have "[0..<2 ^ v + 2 ^ v] = [0..<2 ^ v] @ [2 ^ v..<2 ^ v + 2 ^ v]"
      by (rule upt_add_eq_append) simp
    then show ?thesis by (simp only: map_add_upt power_Suc mult_2)
  qed
  have hi: "length (filter (\<lambda>i. bit i j) (map (\<lambda>i. i + 2 ^ v) [0..<2 ^ v])) =
      length (filter (\<lambda>i. bit (i + 2 ^ v) j) [0..<2 ^ v])" by (simp add: filter_map o_def)
  show ?case
  proof (cases "j = v")
    case True
    have "filter (\<lambda>i. bit i v) [0..<2 ^ v] = []" by (auto simp: filter_empty_conv bit_iff_odd)
    moreover have "(x + 2 ^ v) div 2 ^ v = 1" if "x < 2 ^ v" for x :: nat
      using that by (subst div_add_self2) simp_all
    then have "filter (\<lambda>i. bit (i + 2 ^ v) v) [0..<2 ^ v] = [0..<2 ^ v]"
      by (simp add: filter_id_conv bit_iff_odd)
    ultimately show ?thesis unfolding up filter_append length_append hi by (simp add: True)
  next
    case False
    then have j: "j < v" using Suc.prems by simp
    have "bit (i + 2 ^ v) j = bit i j" for i :: nat
    proof -
      have "(2::nat) ^ v = 2 ^ (v - j) * 2 ^ j" using j by (simp flip: power_add)
      then have "(i + 2 ^ v) div 2 ^ j = i div 2 ^ j + 2 ^ (v - j)" by simp
      then show ?thesis using j by (simp add: bit_iff_odd)
    qed
    then have "length (filter (\<lambda>i. bit i j) [0..<2 ^ Suc v]) = 2 ^ (v - 1) + 2 ^ (v - 1)"
      unfolding up filter_append length_append hi using Suc.IH [OF j] by simp
    also have "\<dots> = 2 ^ v" using j by (simp flip: mult_2 power_Suc)
    finally show ?thesis by simp
  qed
qed simp

section \<open>The index shares\<close>

lemma length_filter_nth: "length (filter (\<lambda>n. P (xs ! n)) [0..<length xs]) = length (filter P xs)"
proof -
  have "filter P xs = filter P (map ((!) xs) [0..<length xs])" by (simp add: map_nth)
  then show ?thesis by (simp add: filter_map o_def)
qed

lemma or_shifts:
  assumes "k \<le> 32"
  shows "\<exists>s :: block. foldR (\<lambda>m s. rbind (int_shl (if f m then 1 else 0) m) (\<lambda>v. Inr (s OR ucast v))) [0..<k] 0 = Inr s \<and>
    (\<forall>j < 32. bit s j \<longleftrightarrow> j < k \<and> f j)"
  using assms
proof (induction k)
  case (Suc k)
  have app: "foldR g (xs @ [x]) s = rbind (foldR g xs s) (g x)" for g :: "nat \<Rightarrow> block \<Rightarrow> block result" and xs x s
  proof (induction xs arbitrary: s)
    case Nil
    show ?case by (cases "g x s") simp_all
  next
    case (Cons y ys)
    then show ?case by (cases "g y s") simp_all
  qed
  obtain s :: block where s: "foldR (\<lambda>m s. rbind (int_shl (if f m then 1 else 0) m) (\<lambda>v. Inr (s OR ucast v))) [0..<k] 0 = Inr s"
    "\<forall>j < 32. bit s j \<longleftrightarrow> j < k \<and> f j" using Suc by auto
  obtain v where v: "int_shl (if f k then 1 else 0) k = Inr v" using Suc.prems by (simp add: int_shl_def)
  have "bit (s OR ucast v) j \<longleftrightarrow> j < Suc k \<and> f j" if "j < 32" for j
    using s(2) that bit_int_shl [OF v that] by (auto simp: bit_or_iff bit_unsigned_iff possible_bit_word less_Suc_eq)
  moreover have "foldR (\<lambda>m s. rbind (int_shl (if f m then 1 else 0) m) (\<lambda>v. Inr (s OR ucast v))) [0..<Suc k] 0 =
      Inr (s OR ucast v)"
    using s(1) v by (simp add: app)
  ultimately show ?case by blast
qed simp

lemma pis_index_share_bit:
  assumes "length indexs \<le> 32" "\<forall>xs \<in> set indexs. length xs = length (indexs ! 0)"
  shows "\<exists>s. pis_index_share indexs b r = Inr s \<and>
    (\<forall>m < 32. bit s m \<longleftrightarrow> m < length indexs \<and> odd (length (filter (\<lambda>j. r ! (b + j)) (indexs ! m))))"
proof -
  let ?f = "\<lambda>m. odd (length (filter (\<lambda>n. r ! (b + indexs ! m ! n)) [0..<length (indexs ! 0)]))"
  obtain s where s: "pis_index_share indexs b r = Inr s" "\<forall>m < 32. bit s m \<longleftrightarrow> m < length indexs \<and> ?f m"
    using or_shifts [OF assms(1), of ?f] unfolding pis_index_share_def Let_def fold_xor_parity by auto
  have "?f m \<longleftrightarrow> odd (length (filter (\<lambda>j. r ! (b + j)) (indexs ! m)))" if "m < length indexs" for m
    using assms(2) that length_filter_nth [of "\<lambda>j. r ! (b + j)" "indexs ! m"] by auto
  then show ?thesis using s by blast
qed

text \<open>The lists of the split, for a batch of \<open>2^v\<close> elements.\<close>
definition split_lists :: "nat \<Rightarrow> nat list list" where
  "split_lists v = map (\<lambda>j. filter (\<lambda>i. bit i j) [0..<2 ^ v]) [0..<v]"

lemma length_split_lists [simp]: "length (split_lists v) = v"
  by (simp add: split_lists_def)

lemma split_lists_share:
  assumes "v \<le> 32"
  shows "\<exists>s. pis_index_share (split_lists v) b r = Inr s \<and>
    (\<forall>m < 32. bit s m \<longleftrightarrow> m < v \<and> odd (length (filter (\<lambda>j. r ! (b + j)) (split_lists v ! m))))"
proof -
  have "\<forall>xs \<in> set (split_lists v). length xs = length (split_lists v ! 0)"
    by (cases "v = 0") (auto simp: split_lists_def length_split_list)
  from pis_index_share_bit [OF _ this, of b r] show ?thesis using assms by simp
qed

lemma pis_share_xor:
  assumes "v \<le> 32" "filter (\<lambda>j. r0 ! (b + j) \<noteq> r1 ! (b + j)) [0..<2 ^ v] = [k]"
    and "pis_index_share (split_lists v) b r0 = Inr s" "pis_index_share (split_lists v) b r1 = Inr t" "m < 32"
  shows "bit (s XOR t) m \<longleftrightarrow> m < v \<and> bit k m"
proof -
  have "odd (length (filter (\<lambda>j. r0 ! (b + j) \<noteq> r1 ! (b + j)) (split_lists v ! m))) = bit k m" if "m < v"
  proof -
    have "filter (\<lambda>j. r0 ! (b + j) \<noteq> r1 ! (b + j)) (split_lists v ! m) =
        filter (\<lambda>i. bit i m) (filter (\<lambda>j. r0 ! (b + j) \<noteq> r1 ! (b + j)) [0..<2 ^ v])"
      using that by (simp add: split_lists_def conj_commute)
    then show ?thesis unfolding assms(2) by auto
  qed
  note odd = this [unfolded parity_xor]
  have "bit s m \<longleftrightarrow> m < v \<and> odd (length (filter (\<lambda>j. r0 ! (b + j)) (split_lists v ! m)))"
    "bit t m \<longleftrightarrow> m < v \<and> odd (length (filter (\<lambda>j. r1 ! (b + j)) (split_lists v ! m)))"
    using split_lists_share [OF assms(1), of b r0] split_lists_share [OF assms(1), of b r1] assms(3-5) by auto
  then show ?thesis using odd by (simp add: bit_xor_iff) blast
qed

lemma pis_messages_select:
  "s0 \<noteq> t0 \<Longrightarrow> (if s0 then snd (pis_messages t0 t r) else fst (pis_messages t0 t r)) = t"
  by (auto simp: pis_messages_def Let_def)

lemma batch_pis_unique:
  fixes eles datas :: "'t::len word list"
  assumes "LENGTH('t) \<le> 2 ^ log2ceil LENGTH('t)"
    "curTriple t0 = 0" "curTriple t1 = 0" "good_triples t0 t1 (length eles * LENGTH('t))"
    "length eles = length datas * 2 ^ v" "0 < v" "v \<le> 32"
    "\<And>ch. length ch = length datas \<Longrightarrow> ot_correct sendMsg ch (ot_receive ch)"
    "length sendMsg = length datas"
    "i < length datas" "filter (\<lambda>j. eles ! (i * 2 ^ v + j) = datas ! i) [0..<2 ^ v] = [k]"
  shows "\<exists>res. batch_pis log2ceil t0 t1 eles (2 ^ v) datas sendMsg ot_receive rs = Inr res \<and>
    length res = length datas \<and> res ! i = of_nat k"
proof -
  let ?n = "length datas" and ?b = "(2::nat) ^ v"
  obtain r0 r1 where r: "batch_peqt log2ceil t0 t1 eles (copy_batches ?b datas) = (r0, r1)"
    by fastforce
  note peqt = batch_peqt_bits [OF _ assms(1-4) r, simplified]
  define s0 where "s0 = batch_xor ?n ?b r0"
  define t0' where "t0' = batch_xor ?n ?b r1"
  have row: "filter (\<lambda>j. r0 ! (i * ?b + j) \<noteq> r1 ! (i * ?b + j)) [0..<?b] = [k]"
  proof -
    have "(r0 ! (i * ?b + j) \<noteq> r1 ! (i * ?b + j)) = (eles ! (i * ?b + j) = datas ! i)" if "j < ?b" for j
      using peqt(3) [of "i * ?b + j"] assms(5,10) that batch_index_less [OF assms(10) that]
      by (simp add: nth_copy_batches)
    then have "filter (\<lambda>j. r0 ! (i * ?b + j) \<noteq> r1 ! (i * ?b + j)) [0..<?b] =
        filter (\<lambda>j. eles ! (i * ?b + j) = datas ! i) [0..<?b]" by (intro filter_cong) auto
    then show ?thesis using assms(11) by simp
  qed
  have ch: "s0 ! i \<noteq> t0' ! i"
    unfolding s0_def t0'_def batch_xor_parity [OF assms(10)] row by simp
  have k: "k < 2 ^ v" using arg_cong [OF row, of set] by auto
  have all: "\<exists>ys. mapR (\<lambda>i. pis_index_share (split_lists v) (i * ?b) r') [0..<?n] = Inr ys \<and> length ys = ?n \<and>
      (\<forall>i < ?n. pis_index_share (split_lists v) (i * ?b) r' = Inr (ys ! i))" for r'
    using split_lists_share [OF assms(7), of _ r'] by (intro mapR_upt) blast
  obtain ss where ss: "mapR (\<lambda>i. pis_index_share (split_lists v) (i * ?b) r0) [0..<?n] = Inr ss"
    "pis_index_share (split_lists v) (i * ?b) r0 = Inr (ss ! i)" using all [of r0] assms(10) by blast
  obtain ts where ts: "mapR (\<lambda>i. pis_index_share (split_lists v) (i * ?b) r1) [0..<?n] = Inr ts"
    "pis_index_share (split_lists v) (i * ?b) r1 = Inr (ts ! i)" using all [of r1] assms(10) by blast
  let ?m = "pis_messages (t0' ! i) (ts ! i) (rs ! i)"
  have ot: "ot_receive s0 ! i = (if s0 ! i then snd (sendMsg ! i) else fst (sendMsg ! i))"
    using assms(8) [of s0] assms(9,10) by (simp add: ot_correct_def s0_def batch_xor_def)
  have "pis_result v (s0 ! i) (ss ! i) (ot_receive s0 ! i) (fst ?m XOR fst (sendMsg ! i)) (snd ?m XOR snd (sendMsg ! i))
      = ucast ((ss ! i XOR ts ! i) AND ucast (2 ^ v - 1 :: u64))"
    using pis_messages_select [OF ch, of "ts ! i" "rs ! i"]
    by (cases "s0 ! i") (simp_all add: pis_result_def ot xor_ac)
  also have "\<dots> = of_nat k"
  proof (rule bit_word_eqI)
    fix m assume "m < LENGTH(64)"
    have "(2 ^ v - 1 :: u64) = mask v" by (simp add: mask_eq_exp_minus_1)
    then have "bit (ucast ((ss ! i XOR ts ! i) AND ucast (2 ^ v - 1 :: u64)) :: u64) m \<longleftrightarrow> m < v \<and> bit k m"
      using pis_share_xor [OF assms(7) row ss(2) ts(2), of m] \<open>m < LENGTH(64)\<close> assms(7)
      by (auto simp: bit_and_iff bit_unsigned_iff bit_mask_iff possible_bit_word)
    moreover have "bit k m \<Longrightarrow> m < v"
      using k by (metis bit_nat_def div_less even_zero less_le_trans not_less one_le_numeral power_increasing)
    ultimately show "bit (ucast ((ss ! i XOR ts ! i) AND ucast (2 ^ v - 1 :: u64)) :: u64) m = bit (of_nat k :: u64) m"
      using \<open>m < LENGTH(64)\<close> by (auto simp: bit_of_nat_iff possible_bit_word)
  qed
  finally have res: "pis_result v (s0 ! i) (ss ! i) (ot_receive s0 ! i) (fst ?m XOR fst (sendMsg ! i)) (snd ?m XOR snd (sendMsg ! i))
      = of_nat k" .
  have "split_lists v \<noteq> []" using assms(6) by (simp add: split_lists_def)
  then show ?thesis
    using res assms(5,10) r ss(1) ts(1) compute_split_index_eq [OF assms(7)]
    by (simp add: batch_pis_def pow2_and_simps s0_def t0'_def Let_def flip: split_lists_def)
qed

section \<open>Triples from oblivious transfer\<close>

lemma triple_loop_b: "fst (snd (triple_loop chunks r)) = concat (map (snd \<circ> snd) chunks) @
    drop (length (concat (map (snd \<circ> snd) chunks))) r"
  by (induction chunks r rule: triple_loop.induct)
     (auto simp: Let_def triple_chunk_def ac_simps split: prod.splits)

lemma resize_fresh: "resize_bits fresh n (map fresh [0..<m]) = map fresh [0..<n]"
proof (cases "n \<le> m")
  case True
  then show ?thesis by (simp add: resize_bits_def take_map)
next
  case False
  then have "[0..<n] = [0..<m] @ [m..<n]" using upt_add_eq_append [of 0 m "n - m"] by simp
  then show ?thesis using False by (simp add: resize_bits_def)
qed

text \<open>The choice bits of every chunk are what \<open>resize\<close> leaves, from its first position on.\<close>
lemma party_chunks_choices:
  "map (snd \<circ> snd) (party_chunks fresh sendMsg ot_receive (map fresh [0..<m]) k steps) =
    map (\<lambda>n. map fresh [0..<n]) steps"
proof (induction steps arbitrary: m k)
  case (Cons n steps)
  then show ?case by (simp add: resize_fresh Let_def del: map_map)
qed simp

lemma concat_chunks:
  assumes "0 < otStep"
  shows "concat (map (\<lambda>n. map fresh [0..<n]) (chunk_sizes otStep n)) = map (\<lambda>i. fresh (i mod otStep)) [0..<n]"
  using assms
proof (induction otStep n rule: chunk_sizes.induct)
  case (1 otStep n)
  show ?case
  proof (cases "n \<le> otStep")
    case True
    have "fresh (i mod otStep) = fresh i" if "i < n" for i using that True by simp
    then show ?thesis
      using 1 True by (simp add: chunk_sizes.simps [of otStep n] chunk_sizes.simps [of otStep 0] min_absorb2)
  next
    case False
    then have up: "[0..<n] = [0..<otStep] @ map (\<lambda>i. i + otStep) [0..<n - otStep]"
      using upt_add_eq_append [of 0 otStep "n - otStep"] by (simp add: map_add_upt)
    show ?thesis
      using 1 False by (subst chunk_sizes.simps) (simp add: up o_def min_absorb1)
  qed
qed

lemma triple_party_b:
  assumes "0 < otStep" "length b_random = n"
  shows "tri_b (triple_party fresh otStep n sendMsg ot_receive b_random) = map (\<lambda>i. fresh (i mod otStep)) [0..<n]"
proof -
  let ?chunks = "party_chunks fresh sendMsg ot_receive [] 0 (chunk_sizes otStep n)"
  have "concat (map (snd \<circ> snd) ?chunks) = map (\<lambda>i. fresh (i mod otStep)) [0..<n]"
    using party_chunks_choices [of fresh sendMsg ot_receive 0 0 "chunk_sizes otStep n"] concat_chunks [OF assms(1)]
    by simp
  then show ?thesis
    using triple_loop_b [of ?chunks b_random] assms(2)
    by (auto simp: triple_party_def triple_gen_def split: prod.splits)
qed

definition triple_bits ::
  "bool list \<times> bool list \<times> bool list \<Rightarrow> bool list \<times> bool list \<times> bool list \<Rightarrow> nat \<Rightarrow> bool" where
  "triple_bits x y m = (case (x, y) of ((a0, b0, c0), (a1, b1, c1)) \<Rightarrow>
     ((a0 ! m \<noteq> a1 ! m) \<and> (b0 ! m \<noteq> b1 ! m)) = (c0 ! m \<noteq> c1 ! m))"

lemma triple_chunk_good:
  assumes "ot_correct send0 b1 recv1" "ot_correct send1 b0 recv0" "length send0 = length send1"
    "m < length send0"
  shows "triple_bits (triple_chunk send0 recv0 b0) (triple_chunk send1 recv1 b1) m"
  using assms by (simp add: triple_bits_def triple_chunk_def Let_def ot_correct_def) argo

text \<open>The chunks of the two parties fit together: same sizes, and the two OTs are correct.\<close>
definition ot_chunks ::
  "((block \<times> block) list \<times> block list \<times> bool list) list \<Rightarrow>
   ((block \<times> block) list \<times> block list \<times> bool list) list \<Rightarrow> bool" where
  "ot_chunks = list_all2 (\<lambda>(send0, recv0, b0) (send1, recv1, b1).
     ot_correct send0 b1 recv1 \<and> ot_correct send1 b0 recv0 \<and> length send0 = length send1)"

lemma triple_loop_good:
  assumes "ot_chunks c0 c1" "m < length (concat (map fst c0))"
  shows "triple_bits (triple_loop c0 r0) (triple_loop c1 r1) m"
  using assms
proof (induction c0 c1 arbitrary: m r0 r1 rule: list_induct2')
  case (4 x c0 y c1)
  obtain send0 recv0 b0 where x: "x = (send0, recv0, b0)" by (cases x)
  obtain send1 recv1 b1 where y: "y = (send1, recv1, b1)" by (cases y)
  have ot: "ot_correct send0 b1 recv1" "ot_correct send1 b0 recv0" "length send0 = length send1"
    "ot_chunks c0 c1" using 4(2) by (simp_all add: x y ot_chunks_def)
  have len: "length b0 = length send0" "length b1 = length send0"
    using ot by (simp_all add: ot_correct_def)
  show ?case
  proof (cases "m < length send0")
    case True
    then show ?thesis
      using triple_chunk_good [OF ot(1,2,3) True] len ot(3)
      by (simp add: x y triple_bits_def triple_chunk_def Let_def nth_append split: prod.splits)
  next
    case False
    then have "triple_bits (triple_loop c0 (drop (length b0) r0)) (triple_loop c1 (drop (length b1) r1))
        (m - length send0)"
      using 4 ot by (intro 4(1)) (simp_all add: x)
    then show ?thesis
      using False len ot(3)
      by (simp add: x y triple_bits_def triple_chunk_def Let_def nth_append split: prod.splits)
  qed
qed (simp_all add: ot_chunks_def)

section \<open>The equality test as an interface\<close>

text \<open>
  What the clients of the batched equality test use: for a usable setup \<open>s\<close>, the two results
  are shares of the bits that tell which positions are equal.
\<close>
locale share_equality =
  fixes ok :: "'s \<Rightarrow> nat \<Rightarrow> bool"
    and run :: "'s \<Rightarrow> 'e list \<Rightarrow> 'e list \<Rightarrow> bool list \<times> bool list"
  assumes run_length: "ok s (length xs) \<Longrightarrow> length ys = length xs \<Longrightarrow> run s xs ys = (r0, r1) \<Longrightarrow>
      length r0 = length xs \<and> length r1 = length xs"
    and run_bit: "ok s (length xs) \<Longrightarrow> length ys = length xs \<Longrightarrow> run s xs ys = (r0, r1) \<Longrightarrow>
      i < length xs \<Longrightarrow> (r0 ! i \<noteq> r1 ! i) = (xs ! i = ys ! i)"
begin

lemma batch_bits:
  assumes "ok s (length xs)" "length xs = length ys * b" "run s xs (copy_batches b ys) = (r0, r1)"
    "i < length ys" "j < b"
  shows "(r0 ! (i * b + j) \<noteq> r1 ! (i * b + j)) = (xs ! (i * b + j) = ys ! i)"
  using run_bit [OF assms(1) _ assms(3), of "i * b + j"] assms(2,4,5)
    batch_index_less [OF assms(4,5)] by (simp add: nth_copy_batches)

text \<open>The shares of a batch add up to the parity of its matches.\<close>
lemma batch_parity:
  assumes "ok s (length xs)" "length xs = length ys * b" "run s xs (copy_batches b ys) = (r0, r1)"
    "i < length ys"
  shows "(batch_xor (length ys) b r0 ! i \<noteq> batch_xor (length ys) b r1 ! i) =
    odd (length (filter (\<lambda>j. xs ! (i * b + j) = ys ! i) [0..<b]))"
proof -
  have "filter (\<lambda>j. r0 ! (i * b + j) \<noteq> r1 ! (i * b + j)) [0..<b] =
      filter (\<lambda>j. xs ! (i * b + j) = ys ! i) [0..<b]"
    using batch_bits [OF assms] by (intro filter_cong) auto
  then show ?thesis unfolding batch_xor_parity [OF assms(4)] by simp
qed

end

text \<open>A setup of the code's test: the logarithm and the two parties' triples.\<close>
type_synonym eq_setup = "(nat \<Rightarrow> nat) \<times> triples \<times> triples"

definition eq_setup_ok :: "nat \<Rightarrow> eq_setup \<Rightarrow> nat \<Rightarrow> bool" where
  "eq_setup_ok len = (\<lambda>(log2ceil, t0, t1) n. len \<le> 2 ^ log2ceil len \<and>
     curTriple t0 = 0 \<and> curTriple t1 = 0 \<and> good_triples t0 t1 (n * len))"

definition run_peqt :: "eq_setup \<Rightarrow> 't::len word list \<Rightarrow> 't word list \<Rightarrow> bool list \<times> bool list" where
  "run_peqt = (\<lambda>(log2ceil, t0, t1). batch_peqt log2ceil t0 t1)"

interpretation peqt: share_equality "eq_setup_ok LENGTH('t::len)"
  "run_peqt :: eq_setup \<Rightarrow> 't word list \<Rightarrow> 't word list \<Rightarrow> bool list \<times> bool list"
proof
  fix s and xs ys :: "'t word list" and r0 r1
  assume s: "eq_setup_ok LENGTH('t) s (length xs)" "length ys = length xs" "run_peqt s xs ys = (r0, r1)"
  obtain l t0 t1 where [simp]: "s = (l, t0, t1)" by (cases s)
  note bits = batch_peqt_bits [of ys xs l t0 t1 r0 r1]
  show "length r0 = length xs \<and> length r1 = length xs"
    using s bits by (simp add: eq_setup_ok_def run_peqt_def)
  show "(r0 ! i \<noteq> r1 ! i) = (xs ! i = ys ! i)" if "i < length xs" for i
    using s bits(3) that by (simp add: eq_setup_ok_def run_peqt_def)
qed

section \<open>Properties\<close>

text \<open>C6. The equality test on shares: whatever its inputs, element by element the two parties'
  result bits differ exactly when the elements are equal.\<close>
theorem batch_peqt_correct:
  fixes eles datas :: "'t::len word list"
  assumes "length datas = length eles" "LENGTH('t) \<le> 2 ^ log2ceil LENGTH('t)"
    "curTriple t0 = 0" "curTriple t1 = 0" "good_triples t0 t1 (length eles * LENGTH('t))"
  shows "\<exists>r0 r1. batch_peqt log2ceil t0 t1 eles datas = (r0, r1) \<and>
    length r0 = length eles \<and> length r1 = length eles \<and>
    (\<forall>i < length eles. (r0 ! i \<noteq> r1 ! i) = (eles ! i = datas ! i))"
proof -
  obtain r0 r1 where r: "batch_peqt log2ceil t0 t1 eles datas = (r0, r1)" by fastforce
  show ?thesis using batch_peqt_bits [OF assms r] r by blast
qed

theorem batch_peqt_correct_witness:
  "\<exists>r0 r1. batch_peqt (\<lambda>_. 3) \<lparr>tri_a = replicate 16 True, tri_b = replicate 16 True, tri_c = replicate 16 True, curTriple = 0\<rparr>
      \<lparr>tri_a = replicate 16 False, tri_b = replicate 16 False, tri_c = replicate 16 False, curTriple = 0\<rparr>
      [5, 7 :: u8] [5, 9] = (r0, r1) \<and> length r0 = length [5, 7 :: u8] \<and> length r1 = length [5, 7 :: u8] \<and>
    (\<forall>i < length [5, 7 :: u8]. (r0 ! i \<noteq> r1 ! i) = ([5, 7 :: u8] ! i = [5, 9] ! i))"
  by (rule batch_peqt_correct) (simp_all add: good_triples_def)

text \<open>C8. The batched membership test: the two parties' bits for a batch differ exactly when an odd
  number of the batch's elements equals the datum, so for a batch without repetitions exactly when
  the datum is in it.\<close>
theorem batch_psm_correct:
  assumes "(64::nat) \<le> 2 ^ log2ceil 64" "curTriple t0 = 0" "curTriple t1 = 0"
    "good_triples t0 t1 (length eles * 64)" "0 < b" "length eles = length datas * b"
    "batch_psm log2ceil t0 t1 eles b datas = (s, t)" "i < length datas"
    "distinct (map (\<lambda>j. eles ! (i * b + j)) [0..<b])"
  shows "(s ! i \<noteq> t ! i) = (\<exists>j < b. eles ! (i * b + j) = datas ! i)"
proof -
  let ?m = "filter (\<lambda>j. eles ! (i * b + j) = datas ! i) [0..<b]"
  obtain r0 r1 where r: "run_peqt (log2ceil, t0, t1) eles (copy_batches b datas) = (r0, r1)" by fastforce
  have "eq_setup_ok LENGTH(64) (log2ceil, t0, t1) (length eles)"
    using assms by (simp add: eq_setup_ok_def)
  from peqt.batch_parity [OF this assms(6) r assms(8)]
  have odd: "(s ! i \<noteq> t ! i) = odd (length ?m)"
    using assms(5,6,7) r by (simp add: batch_psm_def run_peqt_def)
  have one: "length ?m \<le> 1"
  proof (rule ccontr)
    assume "\<not> length ?m \<le> 1"
    then obtain x y zs where xyz: "?m = x # y # zs" by (cases ?m; cases "tl ?m") auto
    moreover have "distinct ?m" by simp
    ultimately have "x \<noteq> y" "x \<in> set ?m" "y \<in> set ?m" by (metis distinct_length_2_or_more, simp_all)
    then show False using assms(9) by (fastforce simp: distinct_conv_nth)
  qed
  have "(\<exists>j < b. eles ! (i * b + j) = datas ! i) \<longleftrightarrow> ?m \<noteq> []" by (auto simp: filter_empty_conv)
  then show ?thesis using odd one by (cases ?m) auto
qed

theorem batch_psm_correct_witness:
  "\<exists>s t. batch_psm (\<lambda>_. 6) \<lparr>tri_a = replicate 128 False, tri_b = replicate 128 True, tri_c = replicate 128 False, curTriple = 0\<rparr>
      \<lparr>tri_a = replicate 128 False, tri_b = replicate 128 False, tri_c = replicate 128 False, curTriple = 0\<rparr>
      [4, 9] 2 [9] = (s, t) \<and> (s ! 0 \<noteq> t ! 0) = (\<exists>j < 2. [4, 9 :: u64] ! (0 * 2 + j) = [9] ! 0)"
proof -
  obtain s t where st: "batch_psm (\<lambda>_. 6) \<lparr>tri_a = replicate 128 False, tri_b = replicate 128 True, tri_c = replicate 128 False, curTriple = 0\<rparr>
      \<lparr>tri_a = replicate 128 False, tri_b = replicate 128 False, tri_c = replicate 128 False, curTriple = 0\<rparr>
      [4, 9] 2 [9] = (s, t)" by fastforce
  have "(s ! 0 \<noteq> t ! 0) = (\<exists>j < 2. [4, 9 :: u64] ! (0 * 2 + j) = [9] ! 0)"
    by (rule batch_psm_correct [OF _ _ _ _ _ _ st]) (simp_all add: good_triples_def upt_rec)
  then show ?thesis using st by blast
qed

text \<open>C7. The private index search returns the index of the match: for a batch of \<open>2^v\<close> elements
  exactly one of which equals the datum, the receiver obtains its position, whatever the triples,
  the OT messages and the sender's masks are, as long as \<open>v\<close> is at most 32.  For longer batches
  the shifts of \<open>1\<close>, which is an \<open>int\<close>, are undefined.\<close>
theorem batch_pis_correct:
  fixes eles datas :: "'t::len word list"
  assumes "LENGTH('t) \<le> 2 ^ log2ceil LENGTH('t)"
    "curTriple t0 = 0" "curTriple t1 = 0" "good_triples t0 t1 (length eles * LENGTH('t))"
    "length eles = length datas * 2 ^ v" "0 < v"
    "\<And>ch. length ch = length datas \<Longrightarrow> ot_correct sendMsg ch (ot_receive ch)"
    "length sendMsg = length datas"
    "i < length datas" "filter (\<lambda>j. eles ! (i * 2 ^ v + j) = datas ! i) [0..<2 ^ v] = [k]"
  shows "if v \<le> 32
    then \<exists>res. batch_pis log2ceil t0 t1 eles (2 ^ v) datas sendMsg ot_receive rs = Inr res \<and>
      length res = length datas \<and> res ! i = of_nat k
    else batch_pis log2ceil t0 t1 eles (2 ^ v) datas sendMsg ot_receive rs = Inl (Undefined_behaviour ''int shift'')"
proof (cases "v \<le> 32")
  case True
  have "\<exists>res. batch_pis log2ceil t0 t1 eles (2 ^ v) datas sendMsg ot_receive rs = Inr res \<and>
      length res = length datas \<and> res ! i = of_nat k"
    by (rule batch_pis_unique) (fact assms True)+
  then show ?thesis using True by simp
next
  case False
  then show ?thesis
    using compute_split_index_wide [of v] assms(5)
    by (simp add: batch_pis_def pow2_and_simps Let_def split: prod.split)
qed

theorem batch_pis_correct_witness:
  "\<exists>res. batch_pis (\<lambda>_. 3) \<lparr>tri_a = replicate 16 False, tri_b = replicate 16 True, tri_c = replicate 16 False, curTriple = 0\<rparr>
      \<lparr>tri_a = replicate 16 False, tri_b = replicate 16 False, tri_c = replicate 16 False, curTriple = 0\<rparr>
      [4, 9 :: u8] (2 ^ 1) [9] [(11, 22)] (map (\<lambda>c. if c then 22 else 11)) [77] = Inr res \<and>
    length res = length [9 :: u8] \<and> res ! 0 = of_nat 1"
  by (rule batch_pis_correct [where v = 1, simplified if_P [OF one_le_numeral]])
    (auto simp: good_triples_def ot_correct_def upt_rec)

text \<open>C9. Triples made by the two correlated OTs satisfy the product relation, for every number of
  chunks.\<close>
theorem triple_gen_correct:
  assumes "ot_chunks c0 c1"
  shows "good_triples (triple_gen c0 b0) (triple_gen c1 b1) (length (concat (map fst c0)))"
proof -
  have "good_triples (triple_gen c0 b0) (triple_gen c1 b1) n \<longleftrightarrow>
      (\<forall>m < n. triple_bits (triple_loop c0 b0) (triple_loop c1 b1) m)" for n
    by (cases "triple_loop c0 b0"; cases "triple_loop c1 b1")
       (simp add: good_triples_def triple_gen_def triple_bits_def)
  then show ?thesis using triple_loop_good [OF assms] by blast
qed

theorem triple_gen_correct_witness:
  "good_triples (triple_gen [([(3, 4)], [7], [True])] [False]) (triple_gen [([(6, 7)], [3], [False])] [True])
     (length (concat (map fst [([(3::block, 4::block)], [7::block], [True])])))"
  by (rule triple_gen_correct) (simp add: ot_chunks_def ot_correct_def)

text \<open>C10. The bits of \<open>b\<close> mask the second half of the message of every level of the equality
  test.  Whatever random bits a party draws for \<open>b\<close>, they mask nothing: the party's input bits are
  its message added to what \<open>resize\<close> leaves in a fresh vector, which repeats every \<open>otStep\<close>
  positions, so they can be read off the message by whoever knows that.\<close>
theorem triple_b_leaks:
  assumes "0 < otStep" "length b_random = n" "0 < curLength" "m * (curLength div 2) \<le> n"
    and "eq_open curLength m res (triple_party fresh otStep n sendMsg ot_receive b_random) = (xa, yb, t)"
    and "r < m * (curLength div 2)"
  shows "res ! (r div (curLength div 2) * curLength + 2 * (r mod (curLength div 2)) + 1) = (yb ! r \<noteq> fresh (r mod otStep))"
proof -
  let ?t = "triple_party fresh otStep n sendMsg ot_receive b_random"
  have "curTriple ?t = 0" by (simp add: triple_party_def triple_gen_def split: prod.split)
  then show ?thesis
    using assms triple_party_b [OF assms(1,2), of fresh sendMsg ot_receive]
    by (auto simp: eq_open_eq masked_y_def)
qed

theorem triple_b_leaks_witness:
  "\<exists>xa yb t. eq_open 2 3 [True, False, False, True, True, True]
       (triple_party (\<lambda>_. False) 2 3 (\<lambda>_. [(3, 4), (5, 6)]) (\<lambda>_ _. [7, 8]) [True, True, False]) = (xa, yb, t) \<and>
     [True, False, False, True, True, True] ! (2 div (2 div 2) * 2 + 2 * (2 mod (2 div 2)) + 1) = (yb ! 2 \<noteq> False)"
proof -
  obtain xa yb t where eq: "eq_open 2 3 [True, False, False, True, True, True]
       (triple_party (\<lambda>_. False) 2 3 (\<lambda>_. [(3, 4), (5, 6)]) (\<lambda>_ _. [7, 8]) [True, True, False]) = (xa, yb, t)"
    by (cases "eq_open 2 3 [True, False, False, True, True, True]
       (triple_party (\<lambda>_. False) 2 3 (\<lambda>_. [(3, 4), (5, 6)]) (\<lambda>_ _. [7, 8]) [True, True, False])") auto
  then show ?thesis using triple_b_leaks [OF _ _ _ _ eq, of 2] by simp
qed

end
