(* ===== verification/Paxos_Decode.thy ===== *)
theory Paxos_Decode
  imports Prelude
begin

text \<open>
  fpsi/opprf/Paxos.h and PaxosImpl.h, the decoding side: the sparse row of a
  hashed key (\<open>buildRow\<close> and its 32-lane version), the decoding of one and of 32
  keys, and the binned decoder of \<open>Baxos\<close>.  A table \<open>p\<close> is a list of blocks:
  the sparse part followed by the dense part.  The GF(2^128) product and the AES
  hash of the crypto library are the parameters \<open>gfmul\<close> and \<open>aes\<close>.  Row entries are
  naturals: their C++ type, of \<open>w\<close> bits, holds them once \<open>Paxos::init\<close> has let the table through.
\<close>

section \<open>Parameters\<close>

datatype dense_type = Binary | GF128

record paxos_param =
  sparse_size :: nat
  dense_size :: nat
  weight :: nat
  dense_ty :: dense_type

definition paxos_size :: "paxos_param \<Rightarrow> nat" where
  "paxos_size prm = sparse_size prm + dense_size prm"

text \<open>\<open>Paxos::init\<close> for an index type of \<open>w\<close> bits; the result is \<open>mNumItems\<close>, cast to that type.\<close>
definition paxos_init :: "nat \<Rightarrow> nat \<Rightarrow> paxos_param \<Rightarrow> nat result" where
  "paxos_init w numItems prm =
     (if 2 ^ w - 1 \<le> sparse_size prm then Inl (Runtime_error ''RTE_LOC'')
      else if paxos_size prm < numItems then Inl (Runtime_error ''RTE_LOC'')
      else Inr (numItems mod 2 ^ w))"

section \<open>The row of a hashed key\<close>

text \<open>The 64 bits of the hash that start at its 32-bit word \<open>i\<close>.\<close>
definition hash_word :: "block \<Rightarrow> nat \<Rightarrow> u64" where
  "hash_word hash i = ucast (drop_bit (32 * i) hash)"

text \<open>\<open>buildRow\<close> for weight 3.\<close>
definition build_row3 :: "nat \<Rightarrow> block \<Rightarrow> nat list" where
  "build_row3 n hash =
     (let row0 = unat (hash_word hash 0) mod n;
          row1 = unat (hash_word hash 1) mod (n - 1);
          row2 = unat (hash_word hash 2) mod (n - 2);
          mn = min row0 row1;
          mx = row0 + row1 - mn;
          (row1, mx) = (if mx = row1 then (row1 + 1, mx + 1) else (row1, mx));
          row2 = (if row2 \<ge> mn then row2 + 1 else row2);
          row2 = (if row2 \<ge> mx then row2 + 1 else row2)
      in [row0, row1, row2])"

text \<open>
  The insertion of one index into the sorted row: pass the entries that are not
  larger, counting up, and shift the rest.
\<close>
fun insert_index :: "nat \<Rightarrow> nat list \<Rightarrow> nat list" where
  "insert_index colIdx [] = [colIdx]"
| "insert_index colIdx (x # row) =
     (if x \<le> colIdx then x # insert_index (colIdx + 1) row else colIdx # x # row)"

text \<open>\<open>buildRow\<close> for the other weights: \<open>hh\<close> is squared for every new index.\<close>
fun build_row_loop :: "(block \<Rightarrow> block \<Rightarrow> block) \<Rightarrow> nat \<Rightarrow> nat list \<Rightarrow> block \<Rightarrow> nat list \<Rightarrow> nat list" where
  "build_row_loop gfmul n [] hh row = row"
| "build_row_loop gfmul n (j # js) hh row =
     (let hh = gfmul hh hh; colIdx = unat (ucast hh :: u64) mod (n - j)
      in build_row_loop gfmul n js hh (insert_index colIdx row))"

definition build_row :: "(block \<Rightarrow> block \<Rightarrow> block) \<Rightarrow> paxos_param \<Rightarrow> block \<Rightarrow> nat list" where
  "build_row gfmul prm hash =
     (if weight prm = 3 then build_row3 (sparse_size prm) hash
      else build_row_loop gfmul (sparse_size prm) [0..<weight prm] hash [])"

section \<open>Thirty-two rows at once\<close>

definition cmpgt64 :: "u64 \<Rightarrow> u64 \<Rightarrow> u64" where
  "cmpgt64 a b = (if a > b then - 1 else 0)"

definition cmpeq64 :: "u64 \<Rightarrow> u64 \<Rightarrow> u64" where
  "cmpeq64 a b = (if a = b then - 1 else 0)"

text \<open>\<open>doMod32\<close>, on one lane: subtract the quotient times the modulus.\<close>
definition mod_lane :: "u64 \<Rightarrow> u64 \<Rightarrow> u64" where
  "mod_lane val modVal = val - (val div modVal) * modVal"

text \<open>One 64-bit lane of the vector code: comparisons give masks, minus a mask adds one.\<close>
definition build_row_lane :: "u64 \<Rightarrow> block \<Rightarrow> u64 list" where
  "build_row_lane n hash =
     (let a = mod_lane (hash_word hash 0) n;
          b = mod_lane (hash_word hash 1) (n - 1);
          c = mod_lane (hash_word hash 2) (n - 2);
          msk = cmpgt64 a b;
          mn = a XOR b;
          mx = (mn AND msk) XOR b;
          mn = mn XOR mx;
          msk = cmpeq64 mx b;
          b = b - msk;
          mx = mx - msk;
          msk = cmpgt64 mn c XOR - 1;
          c = c - msk;
          msk = cmpgt64 mx c XOR - 1;
          c = c - msk
      in [a, b, c])"

text \<open>\<open>buildRow32\<close>: the rows of 32 hashes one after the other.\<close>
definition build_row32 :: "(block \<Rightarrow> block \<Rightarrow> block) \<Rightarrow> paxos_param \<Rightarrow> block list \<Rightarrow> nat list" where
  "build_row32 gfmul prm hashes =
     (if weight prm = 3
      then concat (map (\<lambda>k. map unat (build_row_lane (of_nat (sparse_size prm)) (hashes ! k))) [0..<32])
      else concat (map (\<lambda>k. build_row gfmul prm (hashes ! k)) [0..<32]))"

section \<open>Decoding\<close>

text \<open>\<open>decode1\<close>: the dense part multiplies by the powers of the hash, or selects by its bits.\<close>
definition decode_dense1 :: "(block \<Rightarrow> block \<Rightarrow> block) \<Rightarrow> paxos_param \<Rightarrow> block \<Rightarrow> block list \<Rightarrow> block \<Rightarrow> block" where
  "decode_dense1 gfmul prm dense p value =
     (case dense_ty prm of
        GF128 \<Rightarrow>
          snd (fold (\<lambda>i (x, v). let x = gfmul x dense in (x, v XOR gfmul (p ! (i + sparse_size prm)) x))
                [1..<dense_size prm] (dense, value XOR gfmul (p ! sparse_size prm) dense))
      | Binary \<Rightarrow>
          fold (\<lambda>i v. if bit dense i then v XOR p ! (i + sparse_size prm) else v)
            [0..<dense_size prm] value)"

definition decode1 :: "(block \<Rightarrow> block \<Rightarrow> block) \<Rightarrow> paxos_param \<Rightarrow> nat list \<Rightarrow> block \<Rightarrow> block list \<Rightarrow> block" where
  "decode1 gfmul prm rows dense p =
     decode_dense1 gfmul prm dense p
       (fold (\<lambda>j v. v XOR p ! (rows ! j)) [1..<weight prm] (p ! (rows ! 0)))"

text \<open>
  \<open>decode32\<close> (and \<open>decode8\<close>, for \<open>k = 8\<close>): the same on \<open>k\<close> lanes at a time,
  all lanes advancing column by column.
\<close>
definition decode_lanes ::
  "nat \<Rightarrow> (block \<Rightarrow> block \<Rightarrow> block) \<Rightarrow> paxos_param \<Rightarrow> nat list \<Rightarrow> block list \<Rightarrow> block list \<Rightarrow> block list" where
  "decode_lanes k gfmul prm rows dense p =
     (let w = weight prm;
          values = map (\<lambda>l. p ! (rows ! (w * l + 0))) [0..<k];
          values = fold (\<lambda>j. each_lane k (\<lambda>l v. v XOR p ! (rows ! (w * l + j)))) [1..<w] values
      in case dense_ty prm of
           GF128 \<Rightarrow>
             map snd (fold (\<lambda>i. each_lane k (\<lambda>l (x, v).
                 let x = gfmul x (dense ! l) in (x, v XOR gfmul (p ! (sparse_size prm + i)) x)))
               [1..<dense_size prm]
               (map (\<lambda>l. (dense ! l, values ! l XOR gfmul (p ! sparse_size prm) (dense ! l))) [0..<k]))
         | Binary \<Rightarrow>
             map snd (fold (\<lambda>i. each_lane k (\<lambda>l (d2 :: u64, v).
                 (drop_bit 1 d2, v XOR (p ! (sparse_size prm + i) AND (if bit d2 0 then - 1 else 0)))))
               [0..<dense_size prm]
               (map (\<lambda>l. (ucast (dense ! l), values ! l)) [0..<k])))"

definition decode32 ::
  "(block \<Rightarrow> block \<Rightarrow> block) \<Rightarrow> paxos_param \<Rightarrow> nat list \<Rightarrow> block list \<Rightarrow> block list \<Rightarrow> block list" where
  "decode32 = decode_lanes 32"

definition decode8 ::
  "(block \<Rightarrow> block \<Rightarrow> block) \<Rightarrow> paxos_param \<Rightarrow> nat list \<Rightarrow> block list \<Rightarrow> block list \<Rightarrow> block list" where
  "decode8 = decode_lanes 8"

text \<open>\<open>Paxos::decode\<close>: batches of 32 inputs, then the rest; with \<open>mAddToDecode\<close> the result is added.\<close>
fun paxos_decode_loop ::
  "(block \<Rightarrow> block \<Rightarrow> block) \<Rightarrow> paxos_param \<Rightarrow> block list \<Rightarrow> block list \<Rightarrow> nat \<Rightarrow> block list" where
  "paxos_decode_loop gfmul prm p hashes 0 = map (\<lambda>h. decode1 gfmul prm (build_row gfmul prm h) h p) hashes"
| "paxos_decode_loop gfmul prm p hashes (Suc batches) =
     decode32 gfmul prm (build_row32 gfmul prm (take 32 hashes)) (take 32 hashes) p @
     paxos_decode_loop gfmul prm p (drop 32 hashes) batches"

definition paxos_decode ::
  "(block \<Rightarrow> block \<Rightarrow> block) \<Rightarrow> (block \<Rightarrow> block) \<Rightarrow> paxos_param \<Rightarrow> bool \<Rightarrow>
   block list \<Rightarrow> block list \<Rightarrow> block list \<Rightarrow> block list result" where
  "paxos_decode gfmul aes prm mAddToDecode inputs values p =
     (if length p \<noteq> paxos_size prm then Inl (Runtime_error ''RTE_LOC'')
      else
        let vs = paxos_decode_loop gfmul prm p (map aes inputs) (length inputs div 32)
        in Inr (if mAddToDecode then map2 (XOR) values vs else vs))"

section \<open>The binned decoder\<close>

text \<open>\<open>binIdxCompress\<close> and \<open>modNumBins\<close>.\<close>
definition binIdxCompress :: "block \<Rightarrow> u64" where
  "binIdxCompress h = (ucast h XOR ucast (drop_bit 64 h)) XOR ucast (ucast (drop_bit 96 h) :: u32)"

definition modNumBins :: "nat \<Rightarrow> block \<Rightarrow> nat" where
  "modNumBins mNumBins h = unat (binIdxCompress h) mod mNumBins"

text \<open>\<open>pp.subspan(binIdx * sizePer, sizePer)\<close>.\<close>
definition bin_table :: "paxos_param \<Rightarrow> block list \<Rightarrow> nat \<Rightarrow> block list" where
  "bin_table prm pp binIdx = take (paxos_size prm) (drop (binIdx * paxos_size prm) pp)"

definition put_value :: "bool \<Rightarrow> block \<Rightarrow> block \<Rightarrow> block" where
  "put_value mAddToDecode old v = (if mAddToDecode then old XOR v else v)"

text \<open>
  \<open>implDecodeBin\<close>: decode the queued hashes of one bin and write the results at their indices.
  The rows are built in an array for 32 rows of at most 20 columns.
\<close>
definition implDecodeBin ::
  "(block \<Rightarrow> block \<Rightarrow> block) \<Rightarrow> paxos_param \<Rightarrow> bool \<Rightarrow> block list \<Rightarrow> (block \<times> nat) list \<Rightarrow> block list \<Rightarrow>
   block list result" where
  "implDecodeBin gfmul prm mAddToDecode p queue values =
     (if 20 < weight prm then Inl (Runtime_error ''assertion'')
      else
        let hashes = map fst queue;
            decoded = paxos_decode_loop gfmul prm p hashes (length hashes div 32)
        in Inr (fold (\<lambda>(i, v) values. values[i := put_value mAddToDecode (values ! i) v])
             (zip (map snd queue) decoded) values))"

text \<open>\<open>implDecodeBatch\<close>: queue each input in its bin and decode a bin when its queue is full.\<close>
definition decode_batch_step ::
  "(block \<Rightarrow> block \<Rightarrow> block) \<Rightarrow> (block \<Rightarrow> block) \<Rightarrow> paxos_param \<Rightarrow> nat \<Rightarrow> bool \<Rightarrow> nat \<Rightarrow> block list \<Rightarrow> block list \<Rightarrow>
   nat \<Rightarrow> (block \<times> nat) list list \<times> block list \<Rightarrow> ((block \<times> nat) list list \<times> block list) result" where
  "decode_batch_step gfmul aes prm mNumBins mAddToDecode decodeSize pp inputs i st =
     (let (queues, values) = st;
          h = aes (inputs ! i);
          binIdx = modNumBins mNumBins h;
          queue = queues ! binIdx @ [(h, i)]
      in if length queue = decodeSize
         then rbind (implDecodeBin gfmul prm mAddToDecode (bin_table prm pp binIdx) queue values) (\<lambda>values.
                Inr (queues[binIdx := []], values))
         else Inr (queues[binIdx := queue], values))"

definition implDecodeBatch ::
  "nat \<Rightarrow> (block \<Rightarrow> block \<Rightarrow> block) \<Rightarrow> (block \<Rightarrow> block) \<Rightarrow> paxos_param \<Rightarrow> nat \<Rightarrow> bool \<Rightarrow>
   block list \<Rightarrow> block list \<Rightarrow> block list \<Rightarrow> block list result" where
  "implDecodeBatch w gfmul aes prm mNumBins mAddToDecode inputs values pp =
     rbind (paxos_init w 1 prm) (\<lambda>_.
       let decodeSize = min 512 (length inputs)
       in rbind (foldR (decode_batch_step gfmul aes prm mNumBins mAddToDecode decodeSize pp inputs)
            [0..<length inputs] (replicate mNumBins [], values)) (\<lambda>(queues, values).
          foldR (\<lambda>binIdx values. if queues ! binIdx \<noteq> []
               then implDecodeBin gfmul prm mAddToDecode (bin_table prm pp binIdx) (queues ! binIdx) values
               else Inr values) [0..<mNumBins] values))"

text \<open>
  \<open>implParDecode\<close>, for an index type of \<open>w\<close> bits: one bin goes to \<open>Paxos::decode\<close>,
  otherwise the threads take consecutive parts.
\<close>
definition implParDecode ::
  "nat \<Rightarrow> (block \<Rightarrow> block \<Rightarrow> block) \<Rightarrow> (block \<Rightarrow> block) \<Rightarrow> paxos_param \<Rightarrow> nat \<Rightarrow> bool \<Rightarrow> nat \<Rightarrow>
   block list \<Rightarrow> block list \<Rightarrow> block list \<Rightarrow> block list result" where
  "implParDecode w gfmul aes prm mNumBins mAddToDecode numThreads inputs values pp =
     (if mNumBins = 1 then
        rbind (paxos_init w 1 prm) (\<lambda>_. paxos_decode gfmul aes prm mAddToDecode inputs values pp)
      else
        let numThreads = max numThreads 1; n = length inputs in
        thread_throw numThreads (rmap concat (mapR (\<lambda>i.
          let begin = n * i div numThreads; en = n * (i + 1) div numThreads
          in implDecodeBatch w gfmul aes prm mNumBins mAddToDecode
               (take (en - begin) (drop begin inputs)) (take (en - begin) (drop begin values)) pp)
          [0..<numThreads])))"

section \<open>Rows are distinct and in range\<close>

lemma build_row3_ok:
  assumes "3 \<le> n"
  shows "length (build_row3 n hash) = 3" "distinct (build_row3 n hash)" "set (build_row3 n hash) \<subseteq> {..<n}"
proof -
  define a b c where abc: "a = unat (hash_word hash 0) mod n" "b = unat (hash_word hash 1) mod (n - 1)"
    "c = unat (hash_word hash 2) mod (n - 2)"
  have "a < n" "b < n - 1" "c < n - 2" using assms by (simp_all add: abc)
  then show "length (build_row3 n hash) = 3" "distinct (build_row3 n hash)" "set (build_row3 n hash) \<subseteq> {..<n}"
    unfolding build_row3_def abc [symmetric] Let_def min_def by auto
qed

lemma insert_index_ok:
  assumes "sorted_wrt (<) row" "\<forall>x \<in> set row. x < n" "c + length row < n"
  shows "sorted_wrt (<) (insert_index c row) \<and> (\<forall>x \<in> set (insert_index c row). c \<le> x \<or> x \<in> set row) \<and>
    (\<forall>x \<in> set (insert_index c row). x < n) \<and> length (insert_index c row) = Suc (length row)"
  using assms
proof (induction c row rule: insert_index.induct)
  case (2 c x row)
  show ?case
  proof (cases "x \<le> c")
    case True
    then have "sorted_wrt (<) (insert_index (c + 1) row) \<and>
        (\<forall>x \<in> set (insert_index (c + 1) row). c + 1 \<le> x \<or> x \<in> set row) \<and>
        (\<forall>x \<in> set (insert_index (c + 1) row). x < n) \<and> length (insert_index (c + 1) row) = Suc (length row)"
      using 2 by simp
    then show ?thesis using 2(2,3) True by fastforce
  next
    case False
    then show ?thesis using 2(2,3,4) by auto
  qed
qed auto

lemma build_row_loop_ok:
  assumes "sorted_wrt (<) row" "\<forall>x \<in> set row. x < n" "js = [length row..<w]" "w \<le> n" "length row \<le> w"
  shows "sorted_wrt (<) (build_row_loop gfmul n js hh row) \<and>
    (\<forall>x \<in> set (build_row_loop gfmul n js hh row). x < n) \<and> length (build_row_loop gfmul n js hh row) = w"
  using assms
proof (induction js arbitrary: hh row)
  case (Cons j js)
  then have j: "j = length row" "js = [Suc (length row)..<w]" "length row < w"
    using upt_eq_Cons_conv [of "length row" w j js] by auto
  define hh' where "hh' = gfmul hh hh"
  define c where "c = unat (ucast hh' :: u64) mod (n - j)"
  have "c < n - j" unfolding c_def using j Cons.prems(4) by (intro mod_less_divisor) simp
  then have ins: "sorted_wrt (<) (insert_index c row)" "\<forall>x \<in> set (insert_index c row). x < n"
    "length (insert_index c row) = Suc (length row)"
    using insert_index_ok [OF Cons.prems(1,2), of c] j by auto
  have "build_row_loop gfmul n (j # js) hh row = build_row_loop gfmul n js hh' (insert_index c row)"
    by (simp add: Let_def c_def hh'_def)
  then show ?case using Cons.IH [OF ins(1,2), of hh'] ins(3) j Cons.prems(4) by simp
next
  case Nil
  then have "w \<le> length row" by (metis upt_eq_Nil_conv le_zero_eq)
  then show ?case using Nil by simp
qed

definition param_ok :: "paxos_param \<Rightarrow> bool" where
  "param_ok prm \<longleftrightarrow> 0 < weight prm \<and> weight prm \<le> sparse_size prm \<and> sparse_size prm < 2 ^ 64 \<and>
     0 < dense_size prm \<and> (dense_ty prm = Binary \<longrightarrow> dense_size prm \<le> 64)"

lemma build_row_ok:
  assumes "param_ok prm"
  shows "length (build_row gfmul prm hash) = weight prm" "distinct (build_row gfmul prm hash)"
    "set (build_row gfmul prm hash) \<subseteq> {..<sparse_size prm}"
proof -
  show "length (build_row gfmul prm hash) = weight prm" "distinct (build_row gfmul prm hash)"
    "set (build_row gfmul prm hash) \<subseteq> {..<sparse_size prm}"
    using assms build_row3_ok [of "sparse_size prm" hash]
      build_row_loop_ok [of "[]" "sparse_size prm" "[0..<weight prm]" "weight prm" gfmul hash]
    by (auto simp: build_row_def param_ok_def simp: strict_sorted_iff)
qed

section \<open>The vector code agrees with the scalar code\<close>

lemma mod_lane_eq: "mod_lane v m = v mod m"
  by (simp add: mod_lane_def minus_div_mult_eq_mod)

lemma mask_select: "((a XOR b) AND cmpgt64 a b) XOR b = max a b"
  by (auto simp: cmpgt64_def max_def dest: less_imp_le)

lemma xor_max: "(a XOR b) XOR max a b = min a (b :: u64)"
  by (auto simp: max_def min_def xor_ac)

lemma minus_mask: "c - (cmpgt64 m c XOR - 1) = (if m \<le> c then c + 1 else c)"
  by (auto simp: cmpgt64_def not_less)

lemma minus_cmpeq: "c - cmpeq64 a b = (if a = b then c + 1 else c)"
  by (simp add: cmpeq64_def)

lemma build_row_lane_eq:
  assumes "3 \<le> n" "n < 2 ^ 64"
  shows "map unat (build_row_lane (of_nat n) hash) = build_row3 n hash"
proof -
  define a b c where abc: "a = hash_word hash 0 mod of_nat n" "b = hash_word hash 1 mod (of_nat n - 1)"
    "c = hash_word hash 2 mod (of_nat n - 2)"
  have n: "unat (of_nat n :: u64) = n" using assms(2) by (simp add: unat_of_nat)
  have n12: "unat (of_nat n - 1 :: u64) = n - 1" "unat (of_nat n - 2 :: u64) = n - 2"
    using assms n by (simp_all add: unat_sub_le word_le_nat_alt)
  have u: "unat a = unat (hash_word hash 0) mod n" "unat b = unat (hash_word hash 1) mod (n - 1)"
    "unat c = unat (hash_word hash 2) mod (n - 2)"
    using n n12 by (simp_all add: abc unat_mod)
  have lt: "unat a < n" "unat b < n - 1" "unat c < n - 2" using assms(1) by (simp_all add: u)
  have S: "unat (x + 1) = unat x + 1" if "unat x < n" for x :: u64
    using that assms(2) by (intro unat_Suc) simp
  have c1: "unat (c + 1) = unat c + 1" "unat (c + 1 + 1) = unat c + 2" using S [of c] S [of "c + 1"] lt by simp_all
  have b1: "unat (b + 1) = unat b + 1" using S [of b] lt by simp
  have lane: "build_row_lane (of_nat n) hash =
      (let mn = min a b; mx = max a b; b' = (if mx = b then b + 1 else b); mx' = (if mx = b then mx + 1 else mx);
           c1 = (if mn \<le> c then c + 1 else c); c2 = (if mx' \<le> c1 then c1 + 1 else c1) in [a, b', c2])"
    unfolding build_row_lane_def Let_def mod_lane_eq abc [symmetric] mask_select xor_max minus_mask minus_cmpeq ..
  show ?thesis
    unfolding lane build_row3_def Let_def u [symmetric]
    using b1 c1 by (auto simp: word_le_nat_alt word_less_nat_alt max_def min_def word_unat_eq_iff)
qed

lemma build_row32_eq:
  assumes "param_ok prm" "k < 32" "j < weight prm"
  shows "build_row32 gfmul prm hashes ! (weight prm * k + j) = build_row gfmul prm (hashes ! k) ! j"
proof (cases "weight prm = 3")
  case True
  then have n: "3 \<le> sparse_size prm" "sparse_size prm < 2 ^ 64" using assms(1) by (simp_all add: param_ok_def)
  have "build_row32 gfmul prm hashes = concat (map (\<lambda>k. build_row3 (sparse_size prm) (hashes ! k)) [0..<32])"
    by (simp only: build_row32_def build_row_lane_eq [OF n] True if_True simp_thms)
  then show ?thesis
    using True assms(2,3) build_row3_ok(1) [OF n(1)]
      nth_concat_map [of 32 "\<lambda>k. build_row3 (sparse_size prm) (hashes ! k)" 3 k j]
    by (simp add: build_row_def)
next
  case False
  then have "build_row32 gfmul prm hashes = concat (map (\<lambda>k. build_row gfmul prm (hashes ! k)) [0..<32])"
    by (simp only: build_row32_def False if_False simp_thms)
  then show ?thesis
    using assms(2,3) build_row_ok(1) [OF assms(1)]
      nth_concat_map [of 32 "\<lambda>k. build_row gfmul prm (hashes ! k)" "weight prm" k j] by simp
qed

lemma length_decode_lanes [simp]: "length (decode_lanes k gfmul prm rows dense p) = k"
  by (simp add: decode_lanes_def Let_def fold_each_lane split: dense_type.split)

text \<open>The scalar loop of the binary dense part, by shifting the low word.\<close>
lemma binary_dense_shift:
  assumes "d \<le> 64"
  shows "fold (\<lambda>i (x, v). (drop_bit 1 x, v XOR (q i AND (if bit x 0 then - 1 else 0)))) [0..<d] (ucast h :: u64, v) =
    (drop_bit d (ucast h), fold (\<lambda>i v. if bit (h :: block) i then v XOR q i else v) [0..<d] (v :: block))"
  using assms
proof (induction d)
  case (Suc d)
  have "bit (drop_bit d (ucast h :: u64)) 0 = bit h d"
    using Suc.prems by (simp add: bit_drop_bit_eq bit_unsigned_iff possible_bit_word)
  then show ?case using Suc unfolding fold_upt_Suc by (simp add: drop_bit_drop_bit)
qed simp

lemma nth_decode_lanes:
  assumes "l < k" "dense_ty prm = Binary \<longrightarrow> dense_size prm \<le> 64" "0 < weight prm"
    "\<And>j. j < weight prm \<Longrightarrow> rows ! (weight prm * l + j) = row ! j"
  shows "decode_lanes k gfmul prm rows dense p ! l = decode1 gfmul prm row (dense ! l) p"
proof -
  let ?w = "weight prm" and ?S = "sparse_size prm"
  have row: "fold (\<lambda>j v. v XOR p ! (rows ! (?w * l + j))) [1..<?w] (p ! (rows ! (?w * l + 0))) =
      fold (\<lambda>j v. v XOR p ! (row ! j)) [1..<?w] (p ! (row ! 0))"
    using assms(3) assms(4) [of 0] by (intro fold_cong) (auto simp: assms(4))
  show ?thesis
    using assms(1,2) binary_dense_shift [of "dense_size prm" "\<lambda>i. p ! (i + ?S)" "dense ! l"] row
    by (cases "dense_ty prm")
       (simp_all add: decode_lanes_def decode1_def decode_dense1_def Let_def fold_each_lane add.commute [of "sparse_size prm"])
qed

section \<open>The decoders compute one function per key\<close>

text \<open>What a key with hash \<open>h\<close> decodes to in a table.\<close>
definition decode_hash :: "(block \<Rightarrow> block \<Rightarrow> block) \<Rightarrow> paxos_param \<Rightarrow> block list \<Rightarrow> block \<Rightarrow> block" where
  "decode_hash gfmul prm p h = decode1 gfmul prm (build_row gfmul prm h) h p"

lemma param_ok_dense: "param_ok prm \<Longrightarrow> dense_ty prm = Binary \<longrightarrow> dense_size prm \<le> 64"
  and param_ok_weight: "param_ok prm \<Longrightarrow> 0 < weight prm"
  by (auto simp: param_ok_def)

lemma decode32_eq:
  assumes "param_ok prm" "length hashes = 32"
  shows "decode32 gfmul prm (build_row32 gfmul prm hashes) hashes p = map (decode_hash gfmul prm p) hashes"
proof (rule nth_equalityI)
  fix l assume "l < length (decode32 gfmul prm (build_row32 gfmul prm hashes) hashes p)"
  then have l: "l < 32" by (simp add: decode32_def)
  then show "decode32 gfmul prm (build_row32 gfmul prm hashes) hashes p ! l =
      map (decode_hash gfmul prm p) hashes ! l"
    unfolding decode32_def decode_hash_def
    using assms nth_decode_lanes [OF l param_ok_dense [OF assms(1)] param_ok_weight [OF assms(1)]
        build_row32_eq [OF assms(1) l]] by simp
qed (simp add: decode32_def assms(2))

lemma paxos_decode_loop_eq:
  "param_ok prm \<Longrightarrow> 32 * batches \<le> length hashes \<Longrightarrow>
   paxos_decode_loop gfmul prm p hashes batches = map (decode_hash gfmul prm p) hashes"
proof (induction gfmul prm p hashes batches rule: paxos_decode_loop.induct)
  case (2 gfmul prm p hashes batches)
  then have "map (decode_hash gfmul prm p) (take 32 hashes @ drop 32 hashes) =
      paxos_decode_loop gfmul prm p hashes (Suc batches)"
    unfolding map_append by (simp add: decode32_eq)
  then show ?case by simp
qed (simp add: decode_hash_def)

lemma paxos_decode_eq:
  assumes "param_ok prm" "length p = paxos_size prm" "length values = length inputs"
  shows "paxos_decode gfmul aes prm add inputs values p =
    Inr (map2 (\<lambda>x v. put_value add v (decode_hash gfmul prm p (aes x))) inputs values)"
  using assms
  by (auto simp: paxos_decode_def Let_def paxos_decode_loop_eq put_value_def list_eq_iff_nth_eq)

definition baxos_hash :: "(block \<Rightarrow> block \<Rightarrow> block) \<Rightarrow> paxos_param \<Rightarrow> nat \<Rightarrow> block list \<Rightarrow> block \<Rightarrow> block" where
  "baxos_hash gfmul prm mNumBins pp h = decode_hash gfmul prm (bin_table prm pp (modNumBins mNumBins h)) h"

lemma implDecodeBin_eq:
  assumes "param_ok prm" "weight prm \<le> 20"
  shows "implDecodeBin gfmul prm add p queue values =
    Inr (fold (\<lambda>(h, i) values. values[i := put_value add (values ! i) (decode_hash gfmul prm p h)]) queue values)"
proof -
  have "zip (map snd queue) (map (decode_hash gfmul prm p) (map fst queue)) =
      map (\<lambda>(h, i). (i, decode_hash gfmul prm p h)) queue"
    by (induction queue) auto
  then show ?thesis
    using assms by (simp add: implDecodeBin_def paxos_decode_loop_eq fold_map o_def case_prod_unfold)
qed

lemma fold_put_nth:
  assumes "distinct (map snd queue)"
  shows "fold (\<lambda>(h, i) vals. vals[i := put_value add (vals ! i) (f h)]) queue vals ! j =
    (if j < length vals \<and> j \<in> snd ` set queue
     then put_value add (vals ! j) (f (fst (hd (filter (\<lambda>q. snd q = j) queue)))) else vals ! j)"
  using assms
proof (induction queue arbitrary: vals)
  case (Cons q queue)
  obtain h i where q: "q = (h, i)" by (cases q)
  show ?case
  proof (cases "i = j")
    case True
    then have "j \<notin> snd ` set queue" using Cons.prems by (auto simp: q)
    then show ?thesis using Cons True by (cases "j < length vals") (simp_all add: q list_update_beyond)
  next
    case False
    then show ?thesis using Cons by (auto simp: q)
  qed
qed simp

lemma length_fold_put [simp]:
  "length (fold (\<lambda>(h, i) vals. vals[i := put_value add (vals ! i) (f h)]) queue vals) = length vals"
  by (induction queue arbitrary: vals) auto

text \<open>
  The batching loop.  At every moment an input before \<open>m\<close> either waits, once, in the queue of its
  bin or has its final value.
\<close>
definition batch_inv ::
  "(nat \<Rightarrow> block) \<Rightarrow> nat \<Rightarrow> nat \<Rightarrow> (nat \<Rightarrow> block) \<Rightarrow> block list \<Rightarrow> nat \<Rightarrow>
   (block \<times> nat) list list \<times> block list \<Rightarrow> bool" where
  "batch_inv hsh B n final vals0 m st = (case st of (queues, vals) \<Rightarrow>
     length queues = B \<and> length vals = n \<and>
     (\<forall>b < B. distinct (map snd (queues ! b)) \<and>
        (\<forall>q \<in> set (queues ! b). snd q < m \<and> fst q = hsh (snd q) \<and> modNumBins B (hsh (snd q)) = b)) \<and>
     (\<forall>j < n. vals ! j = (if j < m \<and> j \<notin> snd ` set (queues ! modNumBins B (hsh j)) then final j else vals0 ! j)))"

text \<open>What decoding a bin leaves in the output.\<close>
definition bin_values :: "(block \<Rightarrow> block \<Rightarrow> block) \<Rightarrow> paxos_param \<Rightarrow> bool \<Rightarrow> block list \<Rightarrow> (block \<times> nat) list \<Rightarrow> block list \<Rightarrow> block list" where
  "bin_values gfmul prm add p queue values =
    fold (\<lambda>(h, i) values. values[i := put_value add (values ! i) (decode_hash gfmul prm p h)]) queue values"

lemma bin_values_nth:
  assumes "distinct (map snd queue)"
    "\<forall>q \<in> set queue. fst q = hsh (snd q) \<and> modNumBins B (hsh (snd q)) = b"
    "j < length vals" "j \<in> snd ` set queue \<longrightarrow> vals ! j = vals0 ! j"
  shows "bin_values gfmul prm add (bin_table prm pp b) queue vals ! j =
    (if j \<in> snd ` set queue then put_value add (vals0 ! j) (baxos_hash gfmul prm B pp (hsh j)) else vals ! j)"
proof (cases "j \<in> snd ` set queue")
  case True
  then have "filter (\<lambda>q. snd q = j) queue \<noteq> []" by (auto simp: filter_empty_conv)
  then have "hd (filter (\<lambda>q. snd q = j) queue) \<in> set (filter (\<lambda>q. snd q = j) queue)" by (rule hd_in_set)
  then have "fst (hd (filter (\<lambda>q. snd q = j) queue)) = hsh j" "modNumBins B (hsh j) = b"
    using assms(2) by auto
  then show ?thesis
    using True assms by (simp add: bin_values_def fold_put_nth baxos_hash_def)
qed (use assms in \<open>simp add: bin_values_def fold_put_nth\<close>)

lemma length_bin_values [simp]: "length (bin_values gfmul prm add p queue vals) = length vals"
  by (simp add: bin_values_def)

lemma decode_batch_step_inv:
  assumes "param_ok prm" "weight prm \<le> 20" "0 < B" "m < length inputs" "n = length inputs"
    "hsh = (\<lambda>j. aes (inputs ! j))"
    "final = (\<lambda>j. put_value add (vals0 ! j) (baxos_hash gfmul prm B pp (hsh j)))"
    "batch_inv hsh B n final vals0 m st"
  shows "\<exists>st'. decode_batch_step gfmul aes prm B add decodeSize pp inputs m st = Inr st' \<and>
    batch_inv hsh B n final vals0 (Suc m) st'"
proof -
  obtain queues vals where st: "st = (queues, vals)" by (cases st)
  let ?b = "modNumBins B (hsh m)"
  let ?q = "queues ! ?b @ [(hsh m, m)]"
  note inv = assms(8) [unfolded batch_inv_def st prod.case]
  have b: "?b < B" using assms(3) by (simp add: modNumBins_def)
  have queue: "distinct (map snd ?q)"
    "\<forall>q \<in> set ?q. fst q = hsh (snd q) \<and> modNumBins B (hsh (snd q)) = ?b \<and> snd q < Suc m"
    using inv b by (auto simp: less_Suc_eq)
  have rest: "\<forall>b < B. distinct (map snd (queues ! b)) \<and>
      (\<forall>q \<in> set (queues ! b). snd q < Suc m \<and> fst q = hsh (snd q) \<and> modNumBins B (hsh (snd q)) = b)"
    using inv by (auto simp: less_Suc_eq)
  show ?thesis
  proof (cases "length ?q = decodeSize")
    case False
    then have "decode_batch_step gfmul aes prm B add decodeSize pp inputs m st = Inr (queues[?b := ?q], vals)"
      by (simp add: decode_batch_step_def st Let_def assms(6))
    then show ?thesis
      using inv b queue rest by (auto simp: batch_inv_def nth_list_update less_Suc_eq)
  next
    case True
    let ?vals = "bin_values gfmul prm add (bin_table prm pp ?b) ?q vals"
    have step: "decode_batch_step gfmul aes prm B add decodeSize pp inputs m st = Inr (queues[?b := []], ?vals)"
      using True implDecodeBin_eq [OF assms(1,2)] by (simp add: decode_batch_step_def st Let_def assms(6) bin_values_def)
    have old: "vals ! j = vals0 ! j" if "j < n" "j \<in> snd ` set ?q" for j
    proof -
      have "modNumBins B (hsh j) = ?b" "j = m \<or> j \<in> snd ` set (queues ! ?b)" using queue(2) that(2) by auto
      then have no: "\<not> (j < m \<and> j \<notin> snd ` set (queues ! modNumBins B (hsh j)))" by auto
      have "vals ! j = (if j < m \<and> j \<notin> snd ` set (queues ! modNumBins B (hsh j)) then final j else vals0 ! j)"
        using inv that(1) by blast
      then show ?thesis unfolding if_not_P [OF no] .
    qed
    have v1: "?vals ! j = (if j \<in> snd ` set ?q then final j else vals ! j)" if "j < n" for j
      unfolding assms(7)
      using inv queue that old [OF that] by (intro bin_values_nth) auto
    have qb: "j \<in> snd ` set ?q \<Longrightarrow> modNumBins B (hsh j) = ?b" for j using queue(2) by auto
    have v2: "(if j \<in> snd ` set ?q then final j else vals ! j) =
        (if j < Suc m \<and> j \<notin> snd ` set (queues[?b := []] ! modNumBins B (hsh j)) then final j else vals0 ! j)"
      if "j < n" for j
    proof (cases "modNumBins B (hsh j) = ?b")
      case True
      have v: "vals ! j = (if j < m \<and> j \<notin> snd ` set (queues ! ?b) then final j else vals0 ! j)"
        using inv that True by simp
      have e: "queues[?b := []] ! modNumBins B (hsh j) = []" using True inv b by simp
      have q: "snd ` set ?q = insert m (snd ` set (queues ! ?b))" by auto
      have "\<forall>q \<in> set (queues ! ?b). snd q < m" using inv b by blast
      then have "j \<in> snd ` set (queues ! ?b) \<Longrightarrow> j < m" by auto
      then show ?thesis unfolding e q v by (auto simp: less_Suc_eq)
    next
      case False
      then have "j \<notin> snd ` set ?q" "j \<noteq> m" using qb [of j] by (blast, meson)
      moreover have e: "queues[?b := []] ! modNumBins B (hsh j) = queues ! modNumBins B (hsh j)"
        using False by simp
      moreover have "vals ! j = (if j < m \<and> j \<notin> snd ` set (queues ! modNumBins B (hsh j)) then final j else vals0 ! j)"
        using inv that by simp
      ultimately show ?thesis by (simp only: e if_False simp_thms less_Suc_eq)
    qed
    have "length ?vals = n" using inv by simp
    moreover have "length (queues[?b := []]) = B" using inv by simp
    moreover have "\<forall>b' < B. distinct (map snd (queues[?b := []] ! b')) \<and>
        (\<forall>q \<in> set (queues[?b := []] ! b'). snd q < Suc m \<and> fst q = hsh (snd q) \<and> modNumBins B (hsh (snd q)) = b')"
    proof (intro allI impI)
      fix b' assume b': "b' < B"
      show "distinct (map snd (queues[?b := []] ! b')) \<and>
        (\<forall>q \<in> set (queues[?b := []] ! b'). snd q < Suc m \<and> fst q = hsh (snd q) \<and> modNumBins B (hsh (snd q)) = b')"
      proof (cases "b' = ?b")
        case True
        then have "queues[?b := []] ! b' = []" using inv b by simp
        then show ?thesis by simp
      next
        case False
        then have "queues[?b := []] ! b' = queues ! b'" by simp
        then show ?thesis using rest b' by simp
      qed
    qed
    moreover have "\<forall>j < n. ?vals ! j =
        (if j < Suc m \<and> j \<notin> snd ` set (queues[?b := []] ! modNumBins B (hsh j)) then final j else vals0 ! j)"
      using v1 v2 by metis
    ultimately have "batch_inv hsh B n final vals0 (Suc m) (queues[?b := []], ?vals)"
      unfolding batch_inv_def prod.case by (intro conjI)
    then show ?thesis unfolding step by blast
  qed
qed

lemma flush_bins:
  assumes "param_ok prm" "weight prm \<le> 20" "length vals = n"
    "\<forall>b < B. distinct (map snd (queues ! b)) \<and>
       (\<forall>q \<in> set (queues ! b). fst q = hsh (snd q) \<and> modNumBins B (hsh (snd q)) = b)"
    "\<forall>j < n. vals ! j = (if j \<notin> snd ` set (queues ! modNumBins B (hsh j)) then final j else vals0 ! j)"
    "final = (\<lambda>j. put_value add (vals0 ! j) (baxos_hash gfmul prm B pp (hsh j)))"
  shows "\<exists>out. foldR (\<lambda>b vals. if queues ! b \<noteq> []
        then implDecodeBin gfmul prm add (bin_table prm pp b) (queues ! b) vals else Inr vals) [0..<B] vals = Inr out \<and>
    (length out = n \<and> (\<forall>j < n. out ! j =
      (if modNumBins B (hsh j) < B \<or> j \<notin> snd ` set (queues ! modNumBins B (hsh j)) then final j else vals0 ! j)))"
proof (rule foldR_upt_inv [where I = "\<lambda>b out. length out = n \<and> (\<forall>j < n. out ! j =
    (if modNumBins B (hsh j) < b \<or> j \<notin> snd ` set (queues ! modNumBins B (hsh j)) then final j else vals0 ! j))"])
  show "length vals = n \<and> (\<forall>j < n. vals ! j =
    (if modNumBins B (hsh j) < 0 \<or> j \<notin> snd ` set (queues ! modNumBins B (hsh j)) then final j else vals0 ! j))"
    using assms(3,5) by simp
next
  fix b vs
  assume bB: "b < B" and IH: "length vs = n \<and> (\<forall>j < n. vs ! j =
    (if modNumBins B (hsh j) < b \<or> j \<notin> snd ` set (queues ! modNumBins B (hsh j)) then final j else vals0 ! j))"
  let ?f = "\<lambda>b vals. if queues ! b \<noteq> [] then bin_values gfmul prm add (bin_table prm pp b) (queues ! b) vals else vals"
  have q: "distinct (map snd (queues ! b))"
    "\<forall>q \<in> set (queues ! b). fst q = hsh (snd q) \<and> modNumBins B (hsh (snd q)) = b"
    using assms(4) bB by blast+
  have b: "modNumBins B (hsh j) = b" if "j \<in> snd ` set (queues ! b)" for j using q(2) that by auto
  have nth: "?f b vs ! j = (if j \<in> snd ` set (queues ! b) then final j else vs ! j)" if "j < n" for j
  proof (cases "queues ! b = []")
    case False
    have "vs ! j = vals0 ! j" if "j \<in> snd ` set (queues ! b)"
      using IH \<open>j < n\<close> b [OF that] that by auto
    then have "bin_values gfmul prm add (bin_table prm pp b) (queues ! b) vs ! j =
        (if j \<in> snd ` set (queues ! b) then put_value add (vals0 ! j) (baxos_hash gfmul prm B pp (hsh j)) else vs ! j)"
      using IH that by (intro bin_values_nth [OF q]) auto
    then show ?thesis using False by (simp add: assms(6))
  qed simp
  have "?f b vs ! j = (if modNumBins B (hsh j) < Suc b \<or> j \<notin> snd ` set (queues ! modNumBins B (hsh j))
      then final j else vals0 ! j)" if "j < n" for j
    using nth [OF that] IH that b by (auto simp: less_Suc_eq)
  moreover have "length (?f b vs) = n" using IH by simp
  moreover have "(if queues ! b \<noteq> [] then implDecodeBin gfmul prm add (bin_table prm pp b) (queues ! b) vs else Inr vs) = Inr (?f b vs)"
    using implDecodeBin_eq [OF assms(1,2)] by (simp add: bin_values_def)
  ultimately show "\<exists>s'. (if queues ! b \<noteq> [] then implDecodeBin gfmul prm add (bin_table prm pp b) (queues ! b) vs else Inr vs) = Inr s' \<and>
      (length s' = n \<and> (\<forall>j < n. s' ! j =
        (if modNumBins B (hsh j) < Suc b \<or> j \<notin> snd ` set (queues ! modNumBins B (hsh j)) then final j else vals0 ! j)))"
    by blast
qed

lemma implDecodeBatch_eq:
  assumes "param_ok prm" "weight prm \<le> 20" "sparse_size prm < 2 ^ w - 1" "0 < B" "length vals = length inputs"
  shows "implDecodeBatch w gfmul aes prm B add inputs vals pp =
    Inr (map2 (\<lambda>x v. put_value add v (baxos_hash gfmul prm B pp (aes x))) inputs vals)"
proof -
  let ?n = "length inputs"
  define hsh where "hsh = (\<lambda>j. aes (inputs ! j))"
  define final where "final = (\<lambda>j. put_value add (vals ! j) (baxos_hash gfmul prm B pp (hsh j)))"
  let ?step = "decode_batch_step gfmul aes prm B add (min 512 ?n) pp inputs"
  have "batch_inv hsh B ?n final vals 0 (replicate B [], vals)" using assms by (simp add: batch_inv_def)
  then obtain st where "foldR ?step [0..<?n] (replicate B [], vals) = Inr st" "batch_inv hsh B ?n final vals ?n st"
    using foldR_upt_inv [where I = "batch_inv hsh B ?n final vals" and f = ?step and n = ?n,
        OF decode_batch_step_inv [OF assms(1,2,4) _ refl hsh_def final_def]] by blast
  then obtain queues vs where st: "foldR ?step [0..<?n] (replicate B [], vals) = Inr (queues, vs)"
    and i: "batch_inv hsh B ?n final vals ?n (queues, vs)" by (cases st) blast
  note i = i [unfolded batch_inv_def prod.case]
  have "\<exists>out. foldR (\<lambda>b vals. if queues ! b \<noteq> []
        then implDecodeBin gfmul prm add (bin_table prm pp b) (queues ! b) vals else Inr vals) [0..<B] vs = Inr out \<and>
    (length out = ?n \<and> (\<forall>j < ?n. out ! j =
      (if modNumBins B (hsh j) < B \<or> j \<notin> snd ` set (queues ! modNumBins B (hsh j)) then final j else vals ! j)))"
    using i by (intro flush_bins [OF assms(1,2) _ _ _ final_def]) auto
  then obtain out where out: "foldR (\<lambda>b vals. if queues ! b \<noteq> []
        then implDecodeBin gfmul prm add (bin_table prm pp b) (queues ! b) vals else Inr vals) [0..<B] vs = Inr out"
    "length out = ?n" "\<forall>j < ?n. out ! j =
      (if modNumBins B (hsh j) < B \<or> j \<notin> snd ` set (queues ! modNumBins B (hsh j)) then final j else vals ! j)" by blast
  have "modNumBins B h < B" for h using assms(4) by (simp add: modNumBins_def)
  then have "out = map2 (\<lambda>x v. put_value add v (baxos_hash gfmul prm B pp (aes x))) inputs vals"
    using assms(5) out(2,3) by (simp add: list_eq_iff_nth_eq final_def hsh_def)
  moreover have "paxos_init w 1 prm = Inr (1 mod 2 ^ w)"
    using assms(1,3) by (simp add: paxos_init_def param_ok_def paxos_size_def)
  ultimately show ?thesis using st out(1) by (simp add: implDecodeBatch_def Let_def)
qed

lemma concat_cuts:
  assumes "\<And>i. i < k \<Longrightarrow> c i \<le> c (i + 1)" "c 0 = 0"
  shows "concat (map (\<lambda>i. take (c (i + 1) - c i) (drop (c i) xs)) [0..<k]) = take (c k) xs \<and> 0 \<le> c k"
  using assms(1)
proof (induction k)
  case (Suc k)
  then have "concat (map (\<lambda>i. take (c (i + 1) - c i) (drop (c i) xs)) [0..<Suc k]) =
      take (c k) xs @ take (c (k + 1) - c k) (drop (c k) xs)" by simp
  also have "\<dots> = take (c k + (c (k + 1) - c k)) xs" by (simp add: take_add)
  also have "c k + (c (k + 1) - c k) = c (Suc k)" using Suc.prems [of k] by simp
  finally show ?case by simp
qed (simp add: assms(2))

text \<open>The index type holds the sparse part, and the rows fit in the array of the binned decoder.\<close>
definition decode_fits :: "nat \<Rightarrow> paxos_param \<Rightarrow> nat \<Rightarrow> bool" where
  "decode_fits w prm B \<longleftrightarrow> sparse_size prm < 2 ^ w - 1 \<and> (B \<noteq> 1 \<longrightarrow> weight prm \<le> 20)"

lemma implParDecode_eq:
  assumes "param_ok prm" "0 < B" "decode_fits w prm B" "length vals = length inputs" "length pp = B * paxos_size prm"
  shows "implParDecode w gfmul aes prm B add T inputs vals pp =
    Inr (map2 (\<lambda>x v. put_value add v (baxos_hash gfmul prm B pp (aes x))) inputs vals)"
proof (cases "B = 1")
  case True
  then have "baxos_hash gfmul prm B pp h = decode_hash gfmul prm pp h" for h
    using assms(5) by (simp add: baxos_hash_def modNumBins_def bin_table_def)
  moreover have "paxos_init w 1 prm = Inr (1 mod 2 ^ w)"
    using assms(1,3) by (simp add: paxos_init_def param_ok_def paxos_size_def decode_fits_def)
  ultimately show ?thesis
    using True assms paxos_decode_eq [OF assms(1) _ assms(4), of pp] by (simp add: implParDecode_def)
next
  case False
  let ?T = "max T 1" and ?n = "length inputs"
  let ?f = "\<lambda>x v. put_value add v (baxos_hash gfmul prm B pp (aes x))"
  define c where "c i = ?n * i div ?T" for i
  have mono: "c i \<le> c (i + 1)" for i by (simp add: c_def div_le_mono)
  have fits: "weight prm \<le> 20" "sparse_size prm < 2 ^ w - 1" using assms(3) False by (simp_all add: decode_fits_def)
  have "implDecodeBatch w gfmul aes prm B add (take (c (i + 1) - c i) (drop (c i) inputs))
      (take (c (i + 1) - c i) (drop (c i) vals)) pp =
      Inr (take (c (i + 1) - c i) (drop (c i) (map2 ?f inputs vals)))" for i
    using assms by (simp add: implDecodeBatch_eq [OF assms(1) fits] take_map drop_map take_zip drop_zip)
  then have "mapR (\<lambda>i. implDecodeBatch w gfmul aes prm B add (take (c (i + 1) - c i) (drop (c i) inputs))
      (take (c (i + 1) - c i) (drop (c i) vals)) pp) [0..<?T] =
      Inr (map (\<lambda>i. take (c (i + 1) - c i) (drop (c i) (map2 ?f inputs vals))) [0..<?T])"
    by (intro mapR_Inr) simp
  then have "implParDecode w gfmul aes prm B add T inputs vals pp =
      Inr (concat (map (\<lambda>i. take (c (i + 1) - c i) (drop (c i) (map2 ?f inputs vals))) [0..<?T]))"
    using False by (simp add: implParDecode_def Let_def c_def)
  also have "\<dots> = Inr (take (c ?T) (map2 ?f inputs vals))"
    using concat_cuts [of ?T c "map2 ?f inputs vals"] mono by (simp add: c_def)
  also have "c ?T = ?n" by (simp add: c_def)
  finally show ?thesis using assms(4) by simp
qed

text \<open>An index type that is too small is refused, in the calling thread or in the others.\<close>
lemma implParDecode_refused:
  assumes "2 ^ w - 1 \<le> sparse_size prm"
  shows "implParDecode w gfmul aes prm B add T inputs vals pp = Inl (if B \<noteq> 1 \<and> 1 < T then Terminate else Runtime_error ''RTE_LOC'')"
proof -
  have init: "paxos_init w 1 prm = Inl (Runtime_error ''RTE_LOC'')" using assms by (simp add: paxos_init_def)
  have batch: "implDecodeBatch w gfmul aes prm B add xs vs pp = Inl (Runtime_error ''RTE_LOC'')" for xs vs
    by (simp only: implDecodeBatch_def init rbind.simps)
  have "[0..<max T 1] = 0 # [1..<max T 1]" by (simp add: upt_conv_Cons)
  then have "mapR (\<lambda>i. Inl e) [0..<max T 1] = (Inl e :: block list list result)" for e by simp
  then show ?thesis by (simp only: implParDecode_def init batch Let_def rbind.simps rmap.simps thread_throw.simps) (auto simp: max_def)
qed

section \<open>Decoding is linear in the table\<close>

text \<open>What the decoder relies on of the GF(2^128) product.\<close>
definition gf_laws :: "(block \<Rightarrow> block \<Rightarrow> block) \<Rightarrow> bool" where
  "gf_laws mul \<longleftrightarrow> (\<forall>a b c. mul a (b XOR c) = mul a b XOR mul a c) \<and>
     (\<forall>a b. mul a b = mul b a) \<and> (\<forall>a b c. mul a (mul b c) = mul (mul a b) c)"

lemma gf_laws_AND: "gf_laws (AND)"
  by (auto simp: gf_laws_def bit_eq_iff bit_and_iff bit_xor_iff)

lemma decode1_combine:
  fixes f :: "block \<Rightarrow> block \<Rightarrow> block"
  assumes f: "\<And>a b c d. f (a XOR b) (c XOR d) = f a c XOR f b d"
    and g: "\<And>a b x. gfmul (f a b) x = f (gfmul a x) (gfmul b x)"
    and r: "\<And>i. i < paxos_size prm \<Longrightarrow> r ! i = f (p ! i) (q ! i)"
    and row: "param_ok prm" "length row = weight prm" "set row \<subseteq> {..<sparse_size prm}"
  shows "decode1 gfmul prm row dense r = f (decode1 gfmul prm row dense p) (decode1 gfmul prm row dense q)"
proof -
  let ?S = "sparse_size prm"
  have idx: "row ! j < paxos_size prm" if "j < weight prm" for j
  proof -
    have "row ! j < sparse_size prm" using row that by (metis lessThan_iff nth_mem subsetD)
    then show ?thesis by (simp add: paxos_size_def)
  qed
  have dn: "i + ?S < paxos_size prm" if "i < dense_size prm" for i using that by (simp add: paxos_size_def)
  have sparse: "fold (\<lambda>j v. v XOR r ! (row ! j)) js (f a b) =
      f (fold (\<lambda>j v. v XOR p ! (row ! j)) js a) (fold (\<lambda>j v. v XOR q ! (row ! j)) js b)"
    if "\<forall>j \<in> set js. j < weight prm" for js a b
    using that by (induction js arbitrary: a b) (simp_all add: r [OF idx] flip: f)
  have bin: "fold (\<lambda>i v. if bit dense i then v XOR r ! (i + ?S) else v) is (f a b) =
      f (fold (\<lambda>i v. if bit dense i then v XOR p ! (i + ?S) else v) is a)
        (fold (\<lambda>i v. if bit dense i then v XOR q ! (i + ?S) else v) is b)"
    if "\<forall>i \<in> set is. i < dense_size prm" for "is" a b
    using that by (induction "is" arbitrary: a b) (simp_all add: r [OF dn] flip: f)
  have gf: "snd (fold (\<lambda>i (x, v). (gfmul x dense, v XOR gfmul (r ! (i + ?S)) (gfmul x dense))) is (x, f a b)) =
      f (snd (fold (\<lambda>i (x, v). (gfmul x dense, v XOR gfmul (p ! (i + ?S)) (gfmul x dense))) is (x, a)))
        (snd (fold (\<lambda>i (x, v). (gfmul x dense, v XOR gfmul (q ! (i + ?S)) (gfmul x dense))) is (x, b)))"
    if "\<forall>i \<in> set is. i < dense_size prm" for "is" x a b
    using that by (induction "is" arbitrary: x a b) (simp_all add: r [OF dn] g flip: f)
  have w: "0 < weight prm" "0 < dense_size prm" using row(1) by (simp_all add: param_ok_def)
  have s0: "r ! ?S = f (p ! ?S) (q ! ?S)" using r w by (simp add: paxos_size_def)
  show ?thesis
    using w bin [of "[0..<dense_size prm]"] gf [of "[1..<dense_size prm]"] sparse [of "[1..<weight prm]"]
    by (cases "dense_ty prm")
       (simp_all add: decode1_def decode_dense1_def r [OF idx] s0 g Let_def flip: f)
qed


lemma nth_bin_table:
  assumes "length pp = B * paxos_size prm" "b < B" "i < paxos_size prm"
  shows "bin_table prm pp b ! i = pp ! (b * paxos_size prm + i)"
    and "b * paxos_size prm + i < length pp"
proof -
  have "Suc b * paxos_size prm \<le> B * paxos_size prm" using assms(2) by (intro mult_le_mono1) simp
  then show "b * paxos_size prm + i < length pp" using assms by simp
  then show "bin_table prm pp b ! i = pp ! (b * paxos_size prm + i)"
    using assms by (simp add: bin_table_def)
qed

lemma baxos_hash_combine:
  fixes f :: "block \<Rightarrow> block \<Rightarrow> block"
  assumes f: "\<And>a b c d. f (a XOR b) (c XOR d) = f a c XOR f b d"
    and g: "\<And>a b x. gfmul (f a b) x = f (gfmul a x) (gfmul b x)"
    and prm: "param_ok prm" "0 < B"
    and len: "length p = B * paxos_size prm" "length q = B * paxos_size prm"
  shows "baxos_hash gfmul prm B (map2 f p q) h = f (baxos_hash gfmul prm B p h) (baxos_hash gfmul prm B q h)"
proof -
  let ?b = "modNumBins B h"
  have b: "?b < B" using prm(2) by (simp add: modNumBins_def)
  have r: "bin_table prm (map2 f p q) ?b ! i = f (bin_table prm p ?b ! i) (bin_table prm q ?b ! i)"
    if i: "i < paxos_size prm" for i
  proof -
    have "?b * paxos_size prm + i < length p" "?b * paxos_size prm + i < length q"
      using nth_bin_table(2) [OF len(1) b i] len by simp_all
    then show ?thesis
      using nth_bin_table(1) [OF _ b i] len by simp
  qed
  show ?thesis
    unfolding baxos_hash_def decode_hash_def
    using build_row_ok(1,3) [OF prm(1)] prm(1) r by (intro decode1_combine [of f] f g) simp_all
qed

text \<open>A family of decoders that are linear over a multiplication: what the protocols use of \<open>Baxos\<close>.\<close>
locale linear_decoder =
  fixes ok :: "'c \<Rightarrow> bool"
    and dec :: "'c \<Rightarrow> block list \<Rightarrow> block \<Rightarrow> block"
    and mul :: "'c \<Rightarrow> block \<Rightarrow> block \<Rightarrow> block"
    and size :: "'c \<Rightarrow> nat"
  assumes dec_xor: "ok c \<Longrightarrow> length p = size c \<Longrightarrow> length q = size c \<Longrightarrow>
      dec c (map2 (XOR) p q) h = dec c p h XOR dec c q h"
    and dec_mul: "ok c \<Longrightarrow> length p = size c \<Longrightarrow> dec c (map (mul c d) p) h = mul c d (dec c p h)"
    and mul_xor: "ok c \<Longrightarrow> mul c d (x XOR y) = mul c d x XOR mul c d y"
begin

lemma dec_affine:
  assumes "ok c" "length b = size c" "length p = size c"
  shows "dec c (map2 (\<lambda>b p. b XOR mul c d p) b p) h = dec c b h XOR mul c d (dec c p h)"
proof -
  have "map2 (\<lambda>b p. b XOR mul c d p) b p = map2 (XOR) b (map (mul c d) p)"
    using assms by (simp add: map2_map_map list_eq_iff_nth_eq)
  then show ?thesis using assms by (simp add: dec_xor dec_mul)
qed

text \<open>The correlation \<open>a + b = d c\<close> is kept by decoding, also when \<open>b\<close> is corrected by \<open>d (p + c)\<close>.\<close>
lemma dec_correlation:
  assumes "ok c" and len: "length a = size c" "length b = size c" "length p = size c" "length v = size c"
    and rel: "\<And>i. i < size c \<Longrightarrow> a ! i XOR b ! i = mul c d (v ! i)"
  shows "dec c (map2 (\<lambda>b p. b XOR mul c d p) b (map2 (XOR) p v)) h XOR mul c d (dec c p h) = dec c a h"
proof -
  have a: "a = map2 (\<lambda>b p. b XOR mul c d p) b v"
    using len by (auto simp: list_eq_iff_nth_eq xor_simps xor_ac simp flip: rel)
  show ?thesis
    using assms(1) len
    by (subst a) (simp add: dec_affine dec_xor mul_xor xor_simps xor_ac)
qed

end

type_synonym paxos_ctx = "(block \<Rightarrow> block \<Rightarrow> block) \<times> paxos_param \<times> nat"

definition ctx_ok :: "paxos_ctx \<Rightarrow> bool" where
  "ctx_ok c \<longleftrightarrow> (case c of (gfmul, prm, B) \<Rightarrow> gf_laws gfmul \<and> param_ok prm \<and> 0 < B)"

definition ctx_decode :: "paxos_ctx \<Rightarrow> block list \<Rightarrow> block \<Rightarrow> block" where
  "ctx_decode c = (case c of (gfmul, prm, B) \<Rightarrow> baxos_hash gfmul prm B)"

definition ctx_size :: "paxos_ctx \<Rightarrow> nat" where
  "ctx_size c = (case c of (gfmul, prm, B) \<Rightarrow> B * paxos_size prm)"

interpretation baxos: linear_decoder ctx_ok ctx_decode fst ctx_size
proof unfold_locales
  fix c :: paxos_ctx and p q :: "block list" and h :: block
  assume "ctx_ok c" "length p = ctx_size c" "length q = ctx_size c"
  then show "ctx_decode c (map2 (XOR) p q) h = ctx_decode c p h XOR ctx_decode c q h"
    by (auto simp: ctx_ok_def ctx_decode_def ctx_size_def gf_laws_def xor_ac intro!: baxos_hash_combine)
next
  fix c :: paxos_ctx and p :: "block list" and d h :: block
  assume c: "ctx_ok c" and p: "length p = ctx_size c"
  obtain mul prm B where m: "c = (mul, prm, B)" by (cases c)
  have laws: "mul d (x XOR y) = mul d x XOR mul d y" "mul (mul d x) y = mul d (mul x y)" for x y
    using c unfolding m ctx_ok_def gf_laws_def prod.case by metis+
  have "baxos_hash mul prm B (map2 (\<lambda>x _. mul d x) p p) h = mul d (baxos_hash mul prm B p h)"
    by (rule baxos_hash_combine [of "\<lambda>x _. mul d x"])
      (use c p in \<open>simp_all add: laws m ctx_ok_def ctx_size_def\<close>)
  moreover have "map2 (\<lambda>x _. mul d x) p p = map (mul d) p" by (simp add: list_eq_iff_nth_eq)
  ultimately show "ctx_decode c (map (fst c d) p) h = fst c d (ctx_decode c p h)"
    by (simp add: m ctx_decode_def)
next
  fix c :: paxos_ctx and d x y :: block
  assume "ctx_ok c"
  then show "fst c d (x XOR y) = fst c d x XOR fst c d y"
    by (auto simp: ctx_ok_def gf_laws_def)
qed

section \<open>Properties\<close>

text \<open>C11. The row of a key has \<open>weight\<close> distinct positions, all inside the sparse part.\<close>
theorem build_row_correct:
  assumes "param_ok prm"
  shows "length (build_row gfmul prm hash) = weight prm \<and> distinct (build_row gfmul prm hash) \<and>
    set (build_row gfmul prm hash) \<subseteq> {..<sparse_size prm}"
  using build_row_ok [OF assms] by simp

lemma build_row_correct_witness:
  "set (build_row (AND) \<lparr>sparse_size = 5, dense_size = 2, weight = 4, dense_ty = Binary\<rparr> 77) \<subseteq> {..<5}"
  using build_row_correct [of "\<lparr>sparse_size = 5, dense_size = 2, weight = 4, dense_ty = Binary\<rparr>"]
  by (simp add: param_ok_def)

text \<open>The 32-lane code agrees with the scalar code: the rows computed with vector
  masks and the lane-wise decoding give, for each of the 32 hashes, what
  \<open>buildRow\<close> and \<open>decode1\<close> give.
\<close>
lemma decode32_scalar:
  assumes "param_ok prm" "length hashes = 32"
  shows "decode32 gfmul prm (build_row32 gfmul prm hashes) hashes p =
    map (\<lambda>h. decode1 gfmul prm (build_row gfmul prm h) h p) hashes"
  using decode32_eq [OF assms] by (simp add: decode_hash_def)

lemma decode32_scalar_witness:
  "decode32 (AND) \<lparr>sparse_size = 5, dense_size = 2, weight = 3, dense_ty = GF128\<rparr>
      (build_row32 (AND) \<lparr>sparse_size = 5, dense_size = 2, weight = 3, dense_ty = GF128\<rparr> (replicate 32 9))
      (replicate 32 9) [1, 2, 3, 4, 5, 6, 7] =
    map (\<lambda>h. decode1 (AND) \<lparr>sparse_size = 5, dense_size = 2, weight = 3, dense_ty = GF128\<rparr>
      (build_row (AND) \<lparr>sparse_size = 5, dense_size = 2, weight = 3, dense_ty = GF128\<rparr> h) h [1, 2, 3, 4, 5, 6, 7])
      (replicate 32 9)"
  by (rule decode32_scalar) (simp_all add: param_ok_def)

text \<open>C12. The parallel, binned and queued decoder, on a table of the right size and with rows
  of at most 20 columns when there are several bins: when the index type of \<open>w\<close> bits is
  larger than the sparse part, it writes at every index the decoding of that key in the table
  of its bin, added to the old value when \<open>mAddToDecode\<close> is set, for any number of threads;
  otherwise it throws, and the process ends when that happens in one of several threads.
\<close>
theorem implParDecode_correct:
  assumes "param_ok prm" "0 < B" "B \<noteq> 1 \<longrightarrow> weight prm \<le> 20"
    and "length vals = length inputs" "length pp = B * paxos_size prm"
  shows "implParDecode w gfmul aes prm B add T inputs vals pp =
    (if 2 ^ w - 1 \<le> sparse_size prm then Inl (if B \<noteq> 1 \<and> 1 < T then Terminate else Runtime_error ''RTE_LOC'')
     else Inr (map2 (\<lambda>x v. put_value add v (decode1 gfmul prm (build_row gfmul prm (aes x)) (aes x)
       (bin_table prm pp (modNumBins B (aes x))))) inputs vals))"
  using implParDecode_eq [OF assms(1,2) _ assms(4,5), where w = w] implParDecode_refused [where w = w and prm = prm] assms(3)
  by (simp add: baxos_hash_def decode_hash_def decode_fits_def)

lemma implParDecode_correct_witness:
  "\<exists>r. implParDecode 8 (AND) id \<lparr>sparse_size = 3, dense_size = 1, weight = 3, dense_ty = Binary\<rparr> 2 True 4
      [1, 2, 3] [0, 0, 7] [1, 2, 3, 4, 5, 6, 7, 8] = Inr r \<and> length r = 3"
  by (subst implParDecode_correct) (simp_all add: param_ok_def paxos_size_def)

text \<open>Decoding is linear: over a commutative associative product that distributes
  over addition, the decoding of \<open>p + d q\<close> is the decoding of \<open>p\<close> plus \<open>d\<close> times
  the decoding of \<open>q\<close>, at every key.
\<close>
lemma implParDecode_linear:
  assumes "gf_laws gfmul" "param_ok prm" "0 < B" "decode_fits w prm B"
    and "length p = B * paxos_size prm" "length q = B * paxos_size prm"
    and "length vals = length inputs"
    and "implParDecode w gfmul aes prm B False T inputs vals p = Inr u"
    and "implParDecode w gfmul aes prm B False T inputs vals q = Inr v"
  shows "implParDecode w gfmul aes prm B False T inputs vals (map2 (\<lambda>x y. x XOR gfmul d y) p q) =
    Inr (map2 (\<lambda>x y. x XOR gfmul d y) u v)"
proof -
  have "baxos_hash gfmul prm B (map2 (\<lambda>x y. x XOR gfmul d y) p q) h =
      baxos_hash gfmul prm B p h XOR gfmul d (baxos_hash gfmul prm B q h)" for h
    using baxos.dec_affine [of "(gfmul, prm, B)" p q d h] assms
    by (simp add: ctx_ok_def ctx_size_def ctx_decode_def)
  then show ?thesis
    using assms by (auto simp: implParDecode_eq put_value_def list_eq_iff_nth_eq)
qed

lemma implParDecode_linear_witness:
  "\<exists>u v. implParDecode 8 (AND) id \<lparr>sparse_size = 3, dense_size = 1, weight = 3, dense_ty = Binary\<rparr> 1 False 4
      [1, 2] [0, 0] (map2 (\<lambda>x y. x XOR (6 AND y)) [1, 2, 3, 4] [5, 6, 7, 8]) =
    Inr (map2 (\<lambda>x y. x XOR (6 AND y)) u v)"
proof -
  let ?prm = "\<lparr>sparse_size = 3, dense_size = 1, weight = 3, dense_ty = Binary\<rparr>"
  let ?d = "implParDecode 8 (AND) id ?prm 1 False 4 [1, 2] [0, 0]"
  have "param_ok ?prm" "decode_fits 8 ?prm 1" by (simp_all add: param_ok_def decode_fits_def)
  then obtain u v where "?d [1, 2, 3, 4] = Inr u" "?d [5, 6, 7, 8] = Inr v"
    using implParDecode_eq [of ?prm 1 8 "[0, 0]" "[1, 2]"] by (simp add: paxos_size_def)
  then show ?thesis
    using implParDecode_linear [OF gf_laws_AND \<open>param_ok ?prm\<close> _ \<open>decode_fits 8 ?prm 1\<close>, of "[1, 2, 3, 4]" "[5, 6, 7, 8]" "[0, 0]" "[1, 2]" id 4 u v 6]
    by (auto simp: paxos_size_def)
qed

end
