(* ===== verification/Oprf.thy ===== *)
theory Oprf
  imports Paxos_Decode
begin

text \<open>
  fpsi/opprf/Oprf.cpp: the oblivious pseudo random function on top of the vector
  OLE correlation.  The crypto library is a record of functions (the GF(2^128)
  product, the fixed-key and keyed AES hashes, the random oracle, the two integer
  helpers \<open>oc::log2ceil\<close> and \<open>oc::roundUpTo\<close>); the parties'
  shares of the correlation, the table solved for and the parameters that
  \<open>Baxos::init\<close> computes are arguments.  Messages between the parties are values:
  what one definition returns is what the other consumes.
\<close>

section \<open>Shared data\<close>

record crypto =
  gfMul :: "block \<Rightarrow> block \<Rightarrow> block"
  hash_fixed :: "block \<Rightarrow> block"
  hash_keyed :: "block \<Rightarrow> block \<Rightarrow> block"
  random_oracle :: "block \<Rightarrow> u8 list"
  oc_log2ceil :: "nat \<Rightarrow> nat"
  oc_roundUpTo :: "nat \<Rightarrow> nat \<Rightarrow> nat"

record baxos =
  bx_param :: paxos_param
  bx_bins :: nat
  bx_seed :: block

definition baxos_size :: "baxos \<Rightarrow> nat" where
  "baxos_size bx = bx_bins bx * paxos_size (bx_param bx)"

text \<open>The width of the index type that \<open>Baxos::solve\<close> and \<open>Baxos::decode\<close> pick.\<close>
definition idx_width :: "crypto \<Rightarrow> paxos_param \<Rightarrow> nat" where
  "idx_width cr prm =
     (let bitLength = oc_roundUpTo cr (oc_log2ceil cr (sparse_size prm + 1)) 8
      in if bitLength \<le> 8 then 8 else if bitLength \<le> 16 then 16 else if bitLength \<le> 32 then 32 else 64)"

text \<open>\<open>Baxos::decode\<close>; \<open>values\<close> is the output buffer before the call.\<close>
definition baxos_decode ::
  "crypto \<Rightarrow> baxos \<Rightarrow> bool \<Rightarrow> nat \<Rightarrow> block list \<Rightarrow> block list \<Rightarrow> block list \<Rightarrow> block list result" where
  "baxos_decode cr bx mAddToDecode numThreads inputs values p =
     implParDecode (idx_width cr (bx_param bx)) (gfMul cr) (hash_keyed cr (bx_seed bx)) (bx_param bx) (bx_bins bx)
       mAddToDecode numThreads inputs values p"

section \<open>Receiver\<close>

text \<open>
  The loop that masks the table with \<open>c\<close> and sends it in chunks of \<open>K\<close> blocks.
  \<open>p\<close> and \<open>c\<close> are what the spans still cover; \<open>psize\<close> is the size of \<open>p\<close> after it
  has moved past the chunk, which is also the bound of the second inner loop,
  whose pointers run on from the chunk into the rest of the two buffers.  The message is
  the chunk, unless \<open>p\<close> has the chunk's size by then: then it is \<open>p\<close>, which is the chunk
  itself in the last round and the chunk after it when two whole ones were left.  Sending
  moves \<open>p\<close> out, which leaves the span as it is.
\<close>
partial_function (option) send_masked :: "nat \<Rightarrow> block list \<Rightarrow> block list \<Rightarrow> block list list option" where
  "send_masked K p c =
     (if c = [] then Some []
      else
        let n = min (length p) K;
            psize = (if length p \<noteq> n then length p - n else length p);
            main = n div 8 * 8;
            count = main + (psize - main);
            masked = map2 (XOR) (take count p) c @ drop count p;
            rest = (if length p \<noteq> n then drop n masked else masked);
            msg = (if psize \<noteq> n then take n masked else rest)
        in Option.bind (send_masked K rest (drop n c)) (\<lambda>msgs. Some (msg # msgs)))"

text \<open>The output of the function: the malicious variant also checks the sender's commitment to \<open>ws\<close>.\<close>
definition oprf_output ::
  "crypto \<Rightarrow> bool \<Rightarrow> u8 list \<Rightarrow> block \<Rightarrow> block \<Rightarrow> block list \<Rightarrow> block list \<Rightarrow> block list result" where
  "oprf_output cr mMalicious Hws ws wr values outputs =
     (if mMalicious then
        if Hws \<noteq> random_oracle cr ws then Inl (Runtime_error ''RTE_LOC'')
        else
          let w = ws XOR wr
          in Inr (map2 (\<lambda>v u. hash_keyed cr (u XOR w) v) values outputs)
      else Inr (map (hash_fixed cr) outputs))"

text \<open>
  \<open>RsOprfReceiver::receive\<close>: \<open>a\<close> and \<open>c\<close> are its shares of the correlation and
  \<open>solve\<close> is \<open>Baxos::solve\<close>.  The result is the messages sent and the outputs.
\<close>
definition oprf_receive ::
  "crypto \<Rightarrow> (nat \<Rightarrow> block \<Rightarrow> baxos) \<Rightarrow> (baxos \<Rightarrow> block list \<Rightarrow> block list \<Rightarrow> block list result) \<Rightarrow> nat \<Rightarrow> bool \<Rightarrow>
   block \<Rightarrow> u8 list \<Rightarrow> block \<Rightarrow> block \<Rightarrow> block list \<Rightarrow> block list \<Rightarrow> block list \<Rightarrow> block list \<Rightarrow> nat \<Rightarrow>
   (block list list \<times> block list) result" where
  "oprf_receive cr init solve K mMalicious hashingSeed Hws ws wr a c values outputs numThreads =
     (if length values \<noteq> length outputs then Inl (Runtime_error ''RTE_LOC'')
      else
        let paxos = init (length values) hashingSeed;
            h = map (hash_fixed cr) values
        in rbind (solve paxos values h) (\<lambda>p.
           case send_masked K p c of
             None \<Rightarrow> Inl (Runtime_error ''the send loop does not end'')
           | Some msgs \<Rightarrow>
               rbind (baxos_decode cr paxos False numThreads values outputs a) (\<lambda>decoded.
               rbind (oprf_output cr mMalicious Hws ws wr values decoded) (\<lambda>outs.
               Inr (msgs, outs)))))"

section \<open>Sender\<close>

record oprf_sender =
  mB :: "block list"
  mD :: block
  mPaxos :: baxos
  mMalicious :: bool
  mW :: block

text \<open>The loop that receives the masked table and adds \<open>mD\<close> times it to \<open>mB\<close>, chunk by chunk.\<close>
fun recv_masked ::
  "crypto \<Rightarrow> block \<Rightarrow> nat \<Rightarrow> block list \<Rightarrow> block list list \<Rightarrow> block list result" where
  "recv_masked cr D K remB [] =
     (if remB = [] then Inr [] else Inl (Runtime_error ''nothing to receive''))"
| "recv_masked cr D K remB (msg # msgs) =
     (if remB = [] then Inr []
      else
        let n = min (length remB) K
        in if length msg \<noteq> n then Inl (Runtime_error ''receive size'')
           else rbind (recv_masked cr D K (drop n remB) msgs) (\<lambda>rest.
             Inr (map2 (\<lambda>b p. b XOR gfMul cr D p) (take n remB) msg @ rest)))"

text \<open>\<open>RsOprfSender::send\<close>: \<open>b\<close> and \<open>D\<close> are its shares, \<open>msgs\<close> what the receiver sends.\<close>
definition oprf_send ::
  "crypto \<Rightarrow> (nat \<Rightarrow> block \<Rightarrow> baxos) \<Rightarrow> nat \<Rightarrow> bool \<Rightarrow> nat \<Rightarrow> block \<Rightarrow> block \<Rightarrow> block \<Rightarrow> block list \<Rightarrow> block \<Rightarrow>
   block list list \<Rightarrow> oprf_sender result" where
  "oprf_send cr init K malicious n seed ws wr b D msgs =
     rbind (recv_masked cr D K b msgs) (\<lambda>b'.
     Inr \<lparr>mB = b', mD = D, mPaxos = init n seed, mMalicious = malicious,
          mW = (if malicious then wr XOR ws else 0)\<rparr>)"

text \<open>\<open>RsOprfSender::eval\<close>.\<close>
definition oprf_eval ::
  "crypto \<Rightarrow> oprf_sender \<Rightarrow> nat \<Rightarrow> block list \<Rightarrow> block list \<Rightarrow> block list result" where
  "oprf_eval cr s numThreads val output =
     rbind (baxos_decode cr (mPaxos s) False numThreads val output (mB s)) (\<lambda>decoded.
     Inr (map2 (\<lambda>v u.
       let u = u XOR gfMul cr (mD s) (hash_fixed cr v)
       in if mMalicious s then hash_keyed cr (u XOR mW s) v else hash_fixed cr u) val decoded))"

section \<open>The two parties together\<close>

text \<open>
  The sender draws \<open>ws\<close> and \<open>D\<close> and sends \<open>H(ws)\<close>; the receiver draws the seed and
  \<open>wr\<close>, sends them with the masked table, and checks \<open>ws\<close> when the sender opens it.
\<close>
definition oprf_run ::
  "crypto \<Rightarrow> (nat \<Rightarrow> block \<Rightarrow> baxos) \<Rightarrow> (baxos \<Rightarrow> block list \<Rightarrow> block list \<Rightarrow> block list result) \<Rightarrow> nat \<Rightarrow> bool \<Rightarrow>
   nat \<Rightarrow> block \<Rightarrow> block \<Rightarrow> block \<Rightarrow> block \<Rightarrow> block list \<Rightarrow> block list \<Rightarrow> block list \<Rightarrow> block list \<Rightarrow> block list \<Rightarrow> nat \<Rightarrow>
   (oprf_sender \<times> block list) result" where
  "oprf_run cr init solve K malicious n seed ws wr D a b c values outputs numThreads =
     rbind (oprf_receive cr init solve K malicious seed (random_oracle cr ws) ws wr a c values outputs numThreads)
       (\<lambda>(msgs, outs).
     rbind (oprf_send cr init K malicious n seed ws wr b D msgs) (\<lambda>s. Inr (s, outs)))"

section \<open>Sending and receiving the masked table\<close>

lemma send_masked_Nil [simp]: "send_masked K p [] = Some []"
  by (subst send_masked.simps) simp

lemma send_masked_last:
  assumes "length p = length c" "c \<noteq> []" "length p \<le> K"
  shows "send_masked K p c = Some [map2 (XOR) p c]"
  using assms by (subst send_masked.simps) (simp add: Let_def min_def)

lemma send_masked_step:
  assumes "length p = length c" "K < length p"
    and "masked = map2 (XOR) (take (K div 8 * 8 + (length p - K - K div 8 * 8)) p) c @
      drop (K div 8 * 8 + (length p - K - K div 8 * 8)) p"
    and "send_masked K (drop K masked) (drop K c) = Some msgs"
  shows "send_masked K p c = Some ((if length p = 2 * K then drop K masked else take K masked) # msgs)"
proof -
  have "c \<noteq> []" "min (length p) K = K" "length p \<noteq> K" "length p - K = K \<longleftrightarrow> length p = 2 * K"
    using assms(1,2) by auto
  then show ?thesis
    using assms(4) unfolding assms(3)
    by (subst send_masked.simps, cases "length p = 2 * K")
       (simp_all only: Let_def if_True if_False simp_thms Option.bind.simps)
qed

lemma send_masked_two:
  assumes "length p = length c" "K < length p" "length p < 2 * K" "8 dvd K"
  shows "send_masked K p c = Some [map2 (XOR) (take K p) (take K c), map2 (XOR) (drop K p) (drop K c)]"
proof -
  have K: "K div 8 * 8 = K" using assms(4) by simp
  define masked where "masked = map2 (XOR) (take K p) c @ drop K p"
  have parts: "take K masked = map2 (XOR) (take K p) (take K c)" "drop K masked = drop K p"
    using assms by (simp_all add: masked_def list_eq_iff_nth_eq nth_append min_def)
  have "send_masked K (drop K masked) (drop K c) = Some [map2 (XOR) (drop K masked) (drop K c)]"
    using assms K by (intro send_masked_last) (simp_all add: masked_def)
  from send_masked_step [OF assms(1,2) _ this]
  have "send_masked K p c = Some (take K masked # [map2 (XOR) (drop K masked) (drop K c)])"
    using assms K by (simp add: masked_def)
  then show ?thesis by (simp add: parts)
qed

lemma recv_send_masked:
  assumes "length p = length c" "length b = length p" "length p < 2 * K" "8 dvd K" "0 < K"
  shows "\<exists>msgs. send_masked K p c = Some msgs \<and>
    recv_masked cr D K b msgs = Inr (map2 (\<lambda>b p. b XOR gfMul cr D p) b (map2 (XOR) p c))"
proof -
  let ?f = "\<lambda>b p. b XOR gfMul cr D p"
  consider "c = []" | "c \<noteq> []" "length p \<le> K" | "K < length p" by linarith
  then show ?thesis
  proof cases
    case 2
    then show ?thesis using assms by (simp add: send_masked_last)
  next
    case 3
    have ne: "b \<noteq> []" "drop K b \<noteq> []" using 3 assms by auto
    have "map2 ?f (take K b) (map2 (XOR) (take K p) (take K c)) @
        map2 ?f (drop K b) (map2 (XOR) (drop K p) (drop K c)) = map2 ?f b (map2 (XOR) p c)"
      by (simp flip: take_map drop_map take_zip drop_zip)
    then show ?thesis
      using 3 assms ne by (simp add: send_masked_two Let_def min_def)
  qed (use assms in simp)
qed


lemma send_masked_returns:
  assumes "0 < K" "length p = length c"
  shows "\<exists>msgs. send_masked K p c = Some msgs"
  using assms(2)
proof (induction "length c" arbitrary: p c rule: less_induct)
  case less
  show ?case
  proof (cases "length c \<le> K")
    case True
    then show ?thesis using less.prems by (cases "c = []") (simp_all add: send_masked_last)
  next
    case False
    define masked where "masked = map2 (XOR) (take (K div 8 * 8 + (length p - K - K div 8 * 8)) p) c @
      drop (K div 8 * 8 + (length p - K - K div 8 * 8)) p"
    have len: "length masked = length c" using less.prems by (simp add: masked_def)
    have "length (drop K c) < length c" using False assms(1) by simp
    then obtain msgs where "send_masked K (drop K masked) (drop K c) = Some msgs"
      using less.hyps [of "drop K c" "drop K masked"] len by auto
    then show ?thesis
      using False less.prems send_masked_step [OF _ _ masked_def] by auto
  qed
qed

text \<open>
  A round with more than one chunk left masks the chunk, or all of the rest of the table but
  the last \<open>K\<close> blocks when that is more.
\<close>
lemma send_masked_round:
  assumes K: "8 dvd K" "0 < K" and len: "length p = length c" "K < length p"
    and y: "y = map2 (XOR) (take (max K (length p - K)) p) c @ drop (max K (length p - K)) p"
  shows "\<exists>msgs. send_masked K p c = Some ((if length p = 2 * K then drop K y else take K y) # msgs) \<and>
    send_masked K (drop K y) (drop K c) = Some msgs \<and> length y = length p"
proof -
  have K: "K div 8 * 8 = K" using K(1) by simp
  have count: "K + (length p - K - K) = max K (length p - K)" by (simp add: max_def)
  have ly: "length y = length p" using len by (simp add: y)
  then obtain msgs where m: "send_masked K (drop K y) (drop K c) = Some msgs"
    using send_masked_returns [OF assms(2), of "drop K y" "drop K c"] len by auto
  have "send_masked K p c = Some ((if length p = 2 * K then drop K y else take K y) # msgs)"
    by (rule send_masked_step [OF len _ m]) (simp only: K count y)
  then show ?thesis using m ly by blast
qed

lemma masked_nth:
  assumes "length p = length c" "i < length p"
  shows "(map2 (XOR) (take j p) c @ drop j p) ! i = (if i < j then p ! i XOR c ! i else p ! i)"
  using assms by (simp add: nth_append)

text \<open>The first block of the second message, when there is a third one to come.\<close>
lemma send_masked_twice:
  assumes K: "8 dvd K" "0 < K" and len: "length p = length c" "2 * K < length p"
  shows "\<exists>m0 m1 msgs. send_masked K p c = Some (m0 # m1 # msgs) \<and> m1 \<noteq> [] \<and>
    hd m1 = (if length p = 3 * K then p ! (2 * K) else p ! K)"
proof -
  have long: "K < length p" "max K (length p - K) = length p - K" "length p \<noteq> 2 * K" using len(2) by auto
  define x where "x = map2 (XOR) (take (length p - K) p) c @ drop (length p - K) p"
  obtain msgs where m: "send_masked K p c = Some (take K x # msgs)"
    "send_masked K (drop K x) (drop K c) = Some msgs" "length x = length p"
    using send_masked_round [OF K len(1) long(1) refl] long by (auto simp: x_def)
  define p' c' where p'c': "p' = drop K x" "c' = drop K c"
  define y where "y = map2 (XOR) (take (max K (length p' - K)) p') c' @ drop (max K (length p' - K)) p'"
  have len': "length p' = length c'" "K < length p'" "length p' = length p - K"
    using len m(3) by (auto simp: p'c')
  from send_masked_round [OF K len'(1,2) y_def] obtain ms
    where msgs: "msgs = (if length p' = 2 * K then drop K y else take K y) # ms" "length y = length p'"
    using m(2) by (auto simp flip: p'c')
  have c3: "length p' = 2 * K \<longleftrightarrow> length p = 3 * K" using len(2) len'(3) by auto
  have y0: "y ! 0 = p ! K"
  proof -
    have "y ! 0 = p' ! 0 XOR c' ! 0" unfolding y_def using len' K(2) by (subst masked_nth) auto
    moreover have "p' ! 0 = x ! K" "c' ! 0 = c ! K" using len m(3) by (simp_all add: p'c')
    moreover have "x ! K = p ! K XOR c ! K"
      unfolding x_def using len(2) K(2) by (subst masked_nth [OF len(1)]) auto
    ultimately show ?thesis by simp
  qed
  have yK: "y ! K = p ! (2 * K)" if "length p = 3 * K"
  proof -
    have "y ! K = p' ! K" unfolding y_def using len' K(2) that by (subst masked_nth) auto
    moreover have "p' ! K = x ! (2 * K)" using len m(3) by (simp add: p'c' mult_2)
    moreover have "x ! (2 * K) = p ! (2 * K)"
      unfolding x_def using len(2) K(2) that by (subst masked_nth [OF len(1)]) auto
    ultimately show ?thesis by simp
  qed
  have ne: "drop K y \<noteq> []" "take K y \<noteq> []" "hd (drop K y) = y ! K" "hd (take K y) = y ! 0"
    using msgs(2) len' K(2) by (auto simp: hd_drop_conv_nth intro!: hd_conv_nth)
  show ?thesis using m(1) msgs(1) ne y0 yK c3 by auto
qed

text \<open>Two whole chunks: the first message is the second chunk.\<close>
lemma send_masked_two_whole:
  assumes K: "8 dvd K" "0 < K" and len: "length p = length c" "length p = 2 * K"
  shows "\<exists>msgs. send_masked K p c = Some (drop K p # msgs)"
proof -
  have "K < length p" "max K (length p - K) = K" using len(2) K(2) by auto
  moreover have "drop K (map2 (XOR) (take K p) c @ drop K p) = drop K p" using len by simp
  ultimately show ?thesis using send_masked_round [OF K len(1) _ refl] len(2) by auto
qed

section \<open>Correctness\<close>

text \<open>The shares of the correlation: \<open>a + b = c D\<close> at every position.\<close>
definition vole_shares :: "crypto \<Rightarrow> block \<Rightarrow> nat \<Rightarrow> block list \<Rightarrow> block list \<Rightarrow> block list \<Rightarrow> bool" where
  "vole_shares cr D n a b c \<longleftrightarrow> length a = n \<and> length b = n \<and> length c = n \<and>
     (\<forall>i < n. a ! i XOR b ! i = gfMul cr (c ! i) D)"

text \<open>The parameters are usable, and the decoder can take them.\<close>
definition baxos_ok :: "crypto \<Rightarrow> baxos \<Rightarrow> bool" where
  "baxos_ok cr bx \<longleftrightarrow> gf_laws (gfMul cr) \<and> param_ok (bx_param bx) \<and> 0 < bx_bins bx \<and>
     decode_fits (idx_width cr (bx_param bx)) (bx_param bx) (bx_bins bx)"

text \<open>What one key decodes to.\<close>
definition key_decode :: "crypto \<Rightarrow> baxos \<Rightarrow> block list \<Rightarrow> block \<Rightarrow> block" where
  "key_decode cr bx p x = baxos_hash (gfMul cr) (bx_param bx) (bx_bins bx) p (hash_keyed cr (bx_seed bx) x)"

text \<open>The table is right: every key decodes to its value.\<close>
definition solves :: "crypto \<Rightarrow> baxos \<Rightarrow> block list \<Rightarrow> block list \<Rightarrow> block list \<Rightarrow> bool" where
  "solves cr bx keys vals p \<longleftrightarrow> length p = baxos_size bx \<and> map (key_decode cr bx p) keys = vals"

lemma baxos_decode_eq:
  assumes "baxos_ok cr bx" "length p = baxos_size bx" "length outs = length inputs"
  shows "baxos_decode cr bx add T inputs outs p =
    Inr (map2 (\<lambda>x v. put_value add v (key_decode cr bx p x)) inputs outs)"
  using assms
  by (simp add: baxos_decode_def baxos_ok_def baxos_size_def implParDecode_eq key_decode_def)

lemma baxos_decode_assign:
  assumes "baxos_ok cr bx" "length p = baxos_size bx" "length outs = length inputs"
  shows "baxos_decode cr bx False T inputs outs p = Inr (map (key_decode cr bx p) inputs)"
  using assms by (simp add: baxos_decode_eq put_value_def list_eq_iff_nth_eq)

lemma key_decode_correlation:
  assumes ok: "baxos_ok cr bx" and vole: "vole_shares cr D (baxos_size bx) a b c"
    and p: "length p = baxos_size bx"
  shows "key_decode cr bx (map2 (\<lambda>b p. b XOR gfMul cr D p) b (map2 (XOR) p c)) x XOR
    gfMul cr D (key_decode cr bx p x) = key_decode cr bx a x"
proof -
  have comm: "gfMul cr u v = gfMul cr v u" for u v
    using ok by (simp add: baxos_ok_def gf_laws_def)
  show ?thesis
    using baxos.dec_correlation [of "(gfMul cr, bx_param bx, bx_bins bx)" a b p c D] ok vole p comm
    by (simp add: ctx_ok_def ctx_size_def ctx_decode_def key_decode_def baxos_ok_def baxos_size_def vole_shares_def)
qed

text \<open>The function that both parties compute.\<close>
definition oprf_function :: "crypto \<Rightarrow> baxos \<Rightarrow> bool \<Rightarrow> block \<Rightarrow> block list \<Rightarrow> block \<Rightarrow> block" where
  "oprf_function cr bx malicious w a x =
     (if malicious then hash_keyed cr (key_decode cr bx a x XOR w) x else hash_fixed cr (key_decode cr bx a x))"

lemma map2_map_self: "map2 f xs (map g xs) = map (\<lambda>x. f x (g x)) xs"
  by (simp add: zip_map2 zip_same_conv_map)

lemma oprf_output_eq:
  "oprf_output cr malicious (random_oracle cr ws) ws wr values (map (key_decode cr bx a) values) =
    Inr (map (oprf_function cr bx malicious (ws XOR wr) a) values)"
  by (simp add: oprf_output_def oprf_function_def Let_def map2_map_self)

lemma oprf_receive_eq:
  assumes bx: "bx = init (length values) seed" and ok: "baxos_ok cr bx"
    and vole: "vole_shares cr D (baxos_size bx) a b c"
    and solve: "solve bx values (map (hash_fixed cr) values) = Inr p" "length p = baxos_size bx"
    and msgs: "send_masked K p c = Some msgs"
    and outputs: "length outputs = length values"
  shows "oprf_receive cr init solve K malicious seed (random_oracle cr ws) ws wr a c values outputs T =
    Inr (msgs, map (oprf_function cr bx malicious (ws XOR wr) a) values)"
proof -
  have "baxos_decode cr bx False T values outputs a = Inr (map (key_decode cr bx a) values)"
    using ok vole outputs by (intro baxos_decode_assign) (simp_all add: vole_shares_def)
  then show ?thesis
    using assms(3-) by (simp add: oprf_receive_def oprf_output_eq Let_def flip: bx)
qed

lemma oprf_eval_eq:
  assumes ok: "baxos_ok cr bx" and vole: "vole_shares cr D (baxos_size bx) a b c"
    and p: "length p = baxos_size bx" and os: "length os = length xs"
    and s: "s = \<lparr>mB = map2 (\<lambda>b p. b XOR gfMul cr D p) b (map2 (XOR) p c), mD = D, mPaxos = bx,
      mMalicious = malicious, mW = (if malicious then w else 0)\<rparr>"
  shows "oprf_eval cr s T xs os = Inr (map (\<lambda>x.
    let u = key_decode cr bx a x XOR gfMul cr D (key_decode cr bx p x XOR hash_fixed cr x)
    in if malicious then hash_keyed cr (u XOR w) x else hash_fixed cr u) xs)"
proof -
  let ?b = "map2 (\<lambda>b p. b XOR gfMul cr D p) b (map2 (XOR) p c)"
  have "length ?b = baxos_size bx" using vole p by (simp add: vole_shares_def)
  note dec = baxos_decode_assign [OF ok this os]
  have "key_decode cr bx ?b x XOR gfMul cr D (hash_fixed cr x) =
      key_decode cr bx a x XOR gfMul cr D (key_decode cr bx p x XOR hash_fixed cr x)" for x
    using ok by (simp add: baxos_ok_def gf_laws_def xor_ac flip: key_decode_correlation [OF ok vole p])
  then show ?thesis
    by (simp add: oprf_eval_def dec s Let_def map2_map_self)
qed


text \<open>The sender's value of a key: it is the receiver's one where the table decodes to the hash.\<close>
definition oprf_value :: "crypto \<Rightarrow> baxos \<Rightarrow> bool \<Rightarrow> block \<Rightarrow> block \<Rightarrow> block list \<Rightarrow> block list \<Rightarrow> block \<Rightarrow> block" where
  "oprf_value cr bx malicious D w a p x =
     (let u = key_decode cr bx a x XOR gfMul cr D (key_decode cr bx p x XOR hash_fixed cr x)
      in if malicious then hash_keyed cr (u XOR w) x else hash_fixed cr u)"

lemma gfMul_0:
  assumes "baxos_ok cr bx"
  shows "gfMul cr x 0 = 0" "gfMul cr 0 x = 0"
proof -
  have "gfMul cr x 0 XOR gfMul cr x 0 = gfMul cr x 0"
    using assms by (metis baxos_ok_def gf_laws_def xor_self_eq)
  then show "gfMul cr x 0 = 0" by simp
  then show "gfMul cr 0 x = 0" using assms by (metis baxos_ok_def gf_laws_def)
qed

lemma oprf_run_value:
  assumes bx: "bx = init (length qs) seed" "baxos_ok cr bx"
    and vole: "vole_shares cr D (baxos_size bx) a b c"
    and solve: "solve bx qs (map (hash_fixed cr) qs) = Inr p"
      "solves cr bx qs (map (hash_fixed cr) qs) p"
    and K: "8 dvd K" "0 < K" "baxos_size bx < 2 * K"
    and outputs: "length outputs = length qs"
  shows "\<exists>s. oprf_run cr init solve K malicious (length qs) seed ws wr D a b c qs outputs T =
      Inr (s, map (oprf_value cr bx malicious D (wr XOR ws) a p) qs) \<and>
    (\<forall>T xs os. length os = length xs \<longrightarrow>
       oprf_eval cr s T xs os = Inr (map (oprf_value cr bx malicious D (wr XOR ws) a p) xs))"
proof -
  have len: "length p = baxos_size bx" "length c = baxos_size bx" "length b = baxos_size bx"
    using vole solve(2) by (simp_all add: vole_shares_def solves_def)
  then obtain msgs where msgs: "send_masked K p c = Some msgs"
    "recv_masked cr D K b msgs = Inr (map2 (\<lambda>b p. b XOR gfMul cr D p) b (map2 (XOR) p c))"
    using recv_send_masked [of p c b K cr D] K by auto
  define s where "s = \<lparr>mB = map2 (\<lambda>b p. b XOR gfMul cr D p) b (map2 (XOR) p c), mD = D, mPaxos = bx,
      mMalicious = malicious, mW = (if malicious then wr XOR ws else 0)\<rparr>"
  let ?F = "oprf_value cr bx malicious D (wr XOR ws) a p"
  have "?F x = oprf_function cr bx malicious (ws XOR wr) a x" if "x \<in> set qs" for x
    using solve(2) that gfMul_0 [OF bx(2)] by (simp add: oprf_value_def oprf_function_def solves_def Let_def xor_ac)
  then have "oprf_run cr init solve K malicious (length qs) seed ws wr D a b c qs outputs T =
      Inr (s, map ?F qs)"
    using oprf_receive_eq [where init = init and solve = solve and K = K and c = c,
        OF bx(1,2) vole solve(1) len(1) msgs(1) outputs, of malicious ws wr T] bx(1) msgs(2)
    by (simp add: oprf_run_def oprf_send_def s_def)
  moreover have "oprf_eval cr s T xs os = Inr (map ?F xs)" if "length os = length xs" for T xs os
    using oprf_eval_eq [OF bx(2) vole len(1) that s_def, of T] by (simp add: oprf_value_def [abs_def])
  ultimately show ?thesis by blast
qed

section \<open>Properties\<close>

text \<open>C19. In both security modes, given shares of the correlation and a solved
  table of less than two whole chunks, the protocol succeeds and the two parties compute
  one function: the receiver has its values at its inputs, and the sender's \<open>eval\<close>
  gives it at any list of inputs, for any number of threads.
\<close>
theorem oprf_correct:
  assumes "bx = init (length values) seed" "baxos_ok cr bx"
    and "vole_shares cr D (baxos_size bx) a b c"
    and "solve bx values (map (hash_fixed cr) values) = Inr p"
    and "solves cr bx values (map (hash_fixed cr) values) p"
    and "8 dvd K" "0 < K" "baxos_size bx < 2 * K"
    and "length outputs = length values"
  shows "\<exists>s F. oprf_run cr init solve K malicious (length values) seed ws wr D a b c values outputs T =
      Inr (s, map F values) \<and>
    (\<forall>T xs os. length os = length xs \<longrightarrow> oprf_eval cr s T xs os = Inr (map F xs))"
  using oprf_run_value [where init = init and solve = solve and malicious = malicious and ws = ws and wr = wr and T = T] assms
  by meson

text \<open>A concrete run: one key, one bin, a table of two blocks, one chunk.\<close>
definition demo_crypto :: crypto where
  "demo_crypto = \<lparr>gfMul = (AND), hash_fixed = id, hash_keyed = (\<lambda>k. id), random_oracle = (\<lambda>x. [ucast x]),
     oc_log2ceil = (\<lambda>n. if n \<le> 256 then 8 else 64), oc_roundUpTo = (\<lambda>a b. (a + b - 1) div b * b)\<rparr>"

definition demo_init :: "nat \<Rightarrow> block \<Rightarrow> baxos" where
  "demo_init n seed = \<lparr>bx_param = \<lparr>sparse_size = 1, dense_size = 1, weight = 1, dense_ty = Binary\<rparr>,
     bx_bins = 1, bx_seed = seed\<rparr>"

lemma demo_decode: "key_decode demo_crypto (demo_init n seed) [u, v] x = u XOR (if bit x 0 then v else 0)"
  by (simp add: key_decode_def demo_crypto_def demo_init_def baxos_hash_def decode_hash_def decode1_def
      decode_dense1_def build_row_def modNumBins_def bin_table_def paxos_size_def)

lemma demo_ok: "baxos_ok demo_crypto (demo_init n seed)"
  by (simp add: baxos_ok_def demo_crypto_def demo_init_def param_ok_def gf_laws_AND idx_width_def decode_fits_def)

lemma demo_size: "baxos_size (demo_init n seed) = 2"
  by (simp add: baxos_size_def demo_init_def paxos_size_def)

lemma demo_vole: "vole_shares demo_crypto 6 2 [9, 1] [11, 7] [3, 7]"
  by (simp add: vole_shares_def demo_crypto_def less_2_cases_iff All_less_Suc2 numeral_2_eq_2)

lemma oprf_correct_witness:
  "\<exists>s F. oprf_run demo_crypto demo_init (\<lambda>_ _ _. Inr [1, 4]) 8 True 1 3 10 20 6 [9, 1] [11, 7] [3, 7] [5] [0] 1 =
      Inr (s, [F 5]) \<and>
    (\<forall>T xs os. length os = length xs \<longrightarrow> oprf_eval demo_crypto s T xs os = Inr (map F xs))"
proof -
  have "solves demo_crypto (demo_init 1 3) [5] (map (hash_fixed demo_crypto) [5]) [1, 4]"
    by (simp add: solves_def demo_size demo_decode) (simp add: demo_crypto_def)
  then show ?thesis
    using oprf_correct [of "demo_init 1 3" demo_init "[5]" 3 demo_crypto 6 "[9, 1]" "[11, 7]" "[3, 7]"
        "\<lambda>_ _ _. Inr [1, 4]" "[1, 4]" 8 "[0]" True 10 20 1] demo_ok demo_vole
    by (simp add: demo_size)
qed

text \<open>C20. A table of two whole chunks or of more than two is not masked properly.  Of two whole
  chunks the second one is sent first, as it is in the table.  Of more than two, the second
  message starts with a block of the table as it is: the first block of the second chunk, which
  the inner loop of the first round has already masked once because its bound is the size of the
  rest, or, of three whole chunks, the first block of the third chunk, which is sent instead.
\<close>
theorem send_masked_unmasked_block:
  assumes "8 dvd K" "0 < K" "length p = length c"
  shows "(length p = 2 * K \<longrightarrow> (\<exists>msgs. send_masked K p c = Some (drop K p # msgs))) \<and>
    (2 * K < length p \<longrightarrow> (\<exists>m0 m1 msgs. send_masked K p c = Some (m0 # m1 # msgs) \<and> m1 \<noteq> [] \<and>
      hd m1 = (if length p = 3 * K then p ! (2 * K) else p ! K)))"
  using send_masked_two_whole [OF assms] send_masked_twice [OF assms] by blast

lemma send_masked_unmasked_block_witness:
  "(\<exists>msgs. send_masked 8 (replicate 16 5) (replicate 16 3) = Some (replicate 8 5 # msgs)) \<and>
   (\<exists>m0 m1 msgs. send_masked 8 (replicate 17 5) (replicate 17 3) = Some (m0 # m1 # msgs) \<and>
     m1 \<noteq> [] \<and> hd m1 = 5)"
  using send_masked_unmasked_block [of 8 "replicate 16 5" "replicate 16 3"]
    send_masked_unmasked_block [of 8 "replicate 17 5" "replicate 17 3"] by simp

end
