(* ===== verification/Opprf.thy ===== *)
theory Opprf
  imports Oprf
begin

text \<open>
  fpsi/opprf/Opprf.cpp: the programmable function.  The sender programs key-value
  pairs by encoding the values masked with the OPRF in a second table; at a
  programmed key both parties get the programmed value.  A value is a row of \<open>m\<close>
  bytes; the rows the protocols use have 4, 8, 12 or 16 bytes, so a row is a
  block whose bytes from \<open>m\<close> on are zero, and the definitions of this theory are the
  code's for \<open>m \<le> 16\<close>.  Wider rows, which the code masks with AES in counter mode
  (the second branch of \<open>oprfEval\<close> and of \<open>receive\<close>), are not modelled: a session
  that is set up (\<open>opprf_session_ok\<close>) has \<open>m \<le> 16\<close>.
\<close>

section \<open>Sessions\<close>

text \<open>
  What one execution takes from outside: the crypto library, \<open>Baxos::init\<close> and
  \<open>Baxos::solve\<close> (with and without the generator that fills the free positions),
  the randomness of both parties and their shares of the vector OLE.
\<close>
record opprf_session =
  os_crypto :: crypto
  os_init :: "nat \<Rightarrow> dense_type \<Rightarrow> block \<Rightarrow> baxos"
  os_solve :: "baxos \<Rightarrow> block list \<Rightarrow> block list \<Rightarrow> block list result"
  os_solve_rand :: "baxos \<Rightarrow> block list \<Rightarrow> block list \<Rightarrow> block list result"
  os_chunk :: nat
  os_malicious :: bool
  os_threads :: nat
  os_oprf_seed :: block
  os_seed :: block
  os_ws :: block
  os_wr :: block
  os_D :: block
  os_a :: "block list"
  os_b :: "block list"
  os_c :: "block list"

record opprf_sender =
  mOprfSender :: oprf_sender
  mP :: "block list"
  mPaxosByteWidth :: nat
  mPaxos2 :: baxos

section \<open>Sender\<close>

text \<open>The first \<open>m\<close> bytes of a block, and the rows of \<open>m\<close> bytes.\<close>
definition low_bytes :: "nat \<Rightarrow> block \<Rightarrow> block" where
  "low_bytes m v = take_bit (8 * m) v"

definition is_row :: "nat \<Rightarrow> block \<Rightarrow> bool" where
  "is_row m v \<longleftrightarrow> low_bytes m v = v"

text \<open>\<open>type = m % sizeof(block) ? Binary : GF128\<close>.\<close>
definition row_type :: "nat \<Rightarrow> dense_type" where
  "row_type m = (if m mod 16 \<noteq> 0 then Binary else GF128)"

text \<open>
  \<open>oprfEval\<close>: the first \<open>m\<close> bytes of the OPRF of the keys added to the rows of
  \<open>add\<close>, the branch for \<open>m \<le> 16\<close>; \<open>out\<close> must have room for all of it.
\<close>
definition oprfEval ::
  "crypto \<Rightarrow> oprf_sender \<Rightarrow> nat \<Rightarrow> nat \<Rightarrow> block list \<Rightarrow> block list \<Rightarrow> block list \<Rightarrow> block list result" where
  "oprfEval cr s m numThreads X out add =
     (if length out < length X then Inl (Runtime_error ''RTE_LOC'')
      else rbind (oprf_eval cr s numThreads X (replicate (length X) 0)) (\<lambda>oprfOutput.
        Inr (map2 (\<lambda>a o'. a XOR low_bytes m o') add oprfOutput)))"

text \<open>\<open>RsOpprfSender::send\<close> once its OPRF with the receiver is done; the result carries the message \<open>mP\<close>.\<close>
definition opprf_send ::
  "opprf_session \<Rightarrow> nat \<Rightarrow> oprf_sender \<Rightarrow> block list \<Rightarrow> block list \<Rightarrow> opprf_sender result" where
  "opprf_send ss m oprf X val =
     (if length val \<noteq> length X then Inl (Runtime_error ''RTE_LOC'')
      else if X = [] \<or> m = 0 then Inl (Runtime_error ''RTE_LOC'')
      else
        let paxos = os_init ss (length X) (row_type m) (os_seed ss)
        in rbind (oprfEval (os_crypto ss) oprf m (os_threads ss) X (replicate (length X) 0) val) (\<lambda>diff.
           rbind (os_solve_rand ss paxos X diff) (\<lambda>P.
           Inr \<lparr>mOprfSender = oprf, mP = P, mPaxosByteWidth = m, mPaxos2 = paxos\<rparr>)))"

text \<open>\<open>RsOpprfSender::eval\<close>; \<open>m\<close> is the width of the output rows.\<close>
definition opprf_eval ::
  "crypto \<Rightarrow> opprf_sender \<Rightarrow> nat \<Rightarrow> nat \<Rightarrow> block list \<Rightarrow> block list \<Rightarrow> block list result" where
  "opprf_eval cr s m numThreads val output =
     (if mPaxosByteWidth s \<noteq> m then Inl (Runtime_error ''RTE_LOC'')
      else rbind (baxos_decode cr (mPaxos2 s) False 1 val output (mP s)) (\<lambda>out.
           oprfEval cr (mOprfSender s) m numThreads val out out))"

section \<open>Receiver\<close>

text \<open>\<open>RsOpprfReceiver::receive\<close> once it has its OPRF outputs and the message \<open>p\<close>: decode onto them.\<close>
definition opprf_receive ::
  "opprf_session \<Rightarrow> nat \<Rightarrow> nat \<Rightarrow> block list \<Rightarrow> block list \<Rightarrow> block list \<Rightarrow> block list result" where
  "opprf_receive ss m senderSize values oprfOutput p =
     (let paxos = os_init ss senderSize (row_type m) (os_seed ss)
      in if length p \<noteq> baxos_size paxos then Inl (Runtime_error ''receive size'')
         else baxos_decode (os_crypto ss) paxos True (os_threads ss) values (map (low_bytes m) oprfOutput) p)"

section \<open>The two parties together\<close>

text \<open>
  \<open>recverSize\<close> is what the sender is told of the receiver's input, \<open>senderSize\<close>
  what the receiver is told of the sender's; \<open>outputs\<close> is the receiver's buffer.
\<close>
definition opprf_protocol ::
  "opprf_session \<Rightarrow> nat \<Rightarrow> nat \<Rightarrow> nat \<Rightarrow> block list \<Rightarrow> block list \<Rightarrow> block list \<Rightarrow> block list \<Rightarrow>
   (opprf_sender \<times> block list) result" where
  "opprf_protocol ss m recverSize senderSize X val values outputs =
     (if length values \<noteq> length outputs then Inl (Runtime_error ''RTE_LOC'')
      else
        rbind (oprf_run (os_crypto ss) (\<lambda>n. os_init ss n GF128) (os_solve ss) (os_chunk ss) (os_malicious ss) recverSize
          (os_oprf_seed ss) (os_ws ss) (os_wr ss) (os_D ss) (os_a ss) (os_b ss) (os_c ss)
          values outputs (os_threads ss)) (\<lambda>(oprf, oprfOutput).
        rbind (opprf_send ss m oprf X val) (\<lambda>s.
        rbind (opprf_receive ss m senderSize values oprfOutput (mP s)) (\<lambda>outs. Inr (s, outs)))))"

text \<open>What the receiver gets when both were told the true sizes.\<close>
definition opprf_run :: "opprf_session \<Rightarrow> nat \<Rightarrow> block list \<Rightarrow> block list \<Rightarrow> block list \<Rightarrow> block list result" where
  "opprf_run ss m X val values =
     rmap snd (opprf_protocol ss m (length values) (length X) X val values (replicate (length values) 0))"

section \<open>Correctness\<close>

text \<open>
  A session that is set up: the two solver calls succeed with right tables, the
  shares satisfy the correlation, the OPRF table has less than two chunks, and the rows of
  the second table have at most 16 bytes.
\<close>
definition oprf_session_ok :: "opprf_session \<Rightarrow> block list \<Rightarrow> bool" where
  "oprf_session_ok ss values \<longleftrightarrow>
     (let cr = os_crypto ss; bx = os_init ss (length values) GF128 (os_oprf_seed ss) in
      baxos_ok cr bx \<and> vole_shares cr (os_D ss) (baxos_size bx) (os_a ss) (os_b ss) (os_c ss) \<and>
      (\<exists>p. os_solve ss bx values (map (hash_fixed cr) values) = Inr p \<and>
           solves cr bx values (map (hash_fixed cr) values) p) \<and>
      8 dvd os_chunk ss \<and> 0 < os_chunk ss \<and> baxos_size bx < 2 * os_chunk ss)"

definition opprf_session_ok :: "opprf_session \<Rightarrow> nat \<Rightarrow> block list \<Rightarrow> block list \<Rightarrow> bool" where
  "opprf_session_ok ss m X values \<longleftrightarrow>
     X \<noteq> [] \<and> 0 < m \<and> m \<le> 16 \<and> oprf_session_ok ss values \<and>
     (let cr = os_crypto ss; bx = os_init ss (length X) (row_type m) (os_seed ss) in
      baxos_ok cr bx \<and>
      (\<forall>diff. length diff = length X \<and> (\<forall>d \<in> set diff. is_row m d) \<longrightarrow>
         (\<exists>P. os_solve_rand ss bx X diff = Inr P \<and> solves cr bx X diff P)))"

lemma oprf_session_run:
  assumes "oprf_session_ok ss values" "length outputs = length values"
  shows "\<exists>s F. oprf_run (os_crypto ss) (\<lambda>n. os_init ss n GF128) (os_solve ss) (os_chunk ss) (os_malicious ss) (length values)
        (os_oprf_seed ss) (os_ws ss) (os_wr ss) (os_D ss) (os_a ss) (os_b ss) (os_c ss) values outputs T =
      Inr (s, map F values) \<and>
    (\<forall>T xs os. length os = length xs \<longrightarrow> oprf_eval (os_crypto ss) s T xs os = Inr (map F xs))"
proof -
  let ?init = "\<lambda>n. os_init ss n GF128" and ?cr = "os_crypto ss"
  let ?bx = "?init (length values) (os_oprf_seed ss)"
  note ok = assms(1) [unfolded oprf_session_ok_def Let_def]
  obtain p where p: "os_solve ss ?bx values (map (hash_fixed ?cr) values) = Inr p"
    "solves ?cr ?bx values (map (hash_fixed ?cr) values) p" using ok by blast
  have "baxos_ok ?cr ?bx" "vole_shares ?cr (os_D ss) (baxos_size ?bx) (os_a ss) (os_b ss) (os_c ss)"
    "8 dvd os_chunk ss" "0 < os_chunk ss" "baxos_size ?bx < 2 * os_chunk ss"
    using ok by blast+
  note prem = this
  show ?thesis
    using oprf_run_value [where init = ?init and solve = "os_solve ss",
        OF refl prem(1,2) p prem(3-5) assms(2), of "os_malicious ss" "os_ws ss" "os_wr ss" T]
    by blast
qed

lemma low_bytes_xor: "low_bytes m (a XOR b) = low_bytes m a XOR low_bytes m b"
  by (simp add: low_bytes_def)

lemma is_row_low_bytes [simp]: "is_row m (low_bytes m v)"
  by (simp add: is_row_def low_bytes_def)

lemma is_row_xor: "is_row m a \<Longrightarrow> is_row m b \<Longrightarrow> is_row m (a XOR b)"
  by (simp add: is_row_def low_bytes_xor)

lemma is_row_16 [simp]: "is_row 16 v"
  by (simp add: is_row_def low_bytes_def take_bit_word_eq_self)

lemma oprfEval_eq:
  assumes "\<And>T xs os. length os = length xs \<Longrightarrow> oprf_eval cr s T xs os = Inr (map F xs)"
    and "length out = length xs"
  shows "oprfEval cr s m T xs out add = Inr (map2 (XOR) add (map (\<lambda>x. low_bytes m (F x)) xs))"
  using assms by (simp add: oprfEval_def zip_map2 case_prod_unfold)

lemma map2_xor_map: "map2 (XOR) (map f xs) (map g xs) = map (\<lambda>x. f x XOR g x :: block) xs"
  by (simp add: zip_map1 map2_map_self)

lemma map2_map_right: "map2 f xs (map g ys) = map2 (\<lambda>x y. f x (g y)) xs ys"
  by (simp add: zip_map2 case_prod_unfold)

lemma map2_xor_self: "map2 (XOR) (map2 (XOR) xs zs) zs = (xs :: block list)" if "length xs = length zs"
  using that by (auto simp: list_eq_iff_nth_eq)

lemma opprf_protocol_value:
  fixes ss m X val qs outputs
  defines "cr \<equiv> os_crypto ss" and "bx \<equiv> os_init ss (length X) (row_type m) (os_seed ss)"
  assumes run: "oprf_run cr (\<lambda>n. os_init ss n GF128) (os_solve ss) (os_chunk ss) (os_malicious ss)
      (length qs) (os_oprf_seed ss) (os_ws ss) (os_wr ss) (os_D ss) (os_a ss) (os_b ss) (os_c ss)
      qs outputs (os_threads ss) = Inr (s, map G qs)"
    and G: "\<And>T xs os. length os = length xs \<Longrightarrow> oprf_eval cr s T xs os = Inr (map G xs)"
    and X: "X \<noteq> []" "0 < m" and bx: "baxos_ok cr bx" and len: "length val = length X" "length outputs = length qs"
    and P: "os_solve_rand ss bx X (map2 (XOR) val (map (\<lambda>x. low_bytes m (G x)) X)) = Inr P"
      "solves cr bx X (map2 (XOR) val (map (\<lambda>x. low_bytes m (G x)) X)) P"
    and F: "F = (\<lambda>k. key_decode cr bx P k XOR low_bytes m (G k))"
  shows "\<exists>s. opprf_protocol ss m (length qs) (length X) X val qs outputs = Inr (s, map F qs) \<and>
    map F X = val \<and>
    (\<forall>T xs os. length os = length xs \<longrightarrow> opprf_eval cr s m T xs os = Inr (map F xs))"
proof -
  note eval = oprfEval_eq [where cr = cr and s = s and F = G and m = m, OF G]
  have lP: "length P = baxos_size bx" using P(2) by (simp add: solves_def)
  define st where "st = \<lparr>mOprfSender = s, mP = P, mPaxosByteWidth = m, mPaxos2 = bx\<rparr>"
  have "opprf_send ss m s X val = Inr st"
    using X len(1) P(1) eval
    by (simp add: opprf_send_def Let_def st_def flip: cr_def bx_def)
  moreover have "opprf_receive ss m (length X) qs (map G qs) P = Inr (map F qs)"
    using lP bx
    by (simp add: opprf_receive_def Let_def baxos_decode_eq put_value_def F map2_map_self xor.commute o_def
        flip: cr_def bx_def)
  ultimately have "opprf_protocol ss m (length qs) (length X) X val qs outputs = Inr (st, map F qs)"
    using run len(2) by (simp add: opprf_protocol_def st_def cr_def)
  moreover have "map F X = val"
  proof -
    let ?g = "map (\<lambda>x. low_bytes m (G x)) X"
    have "map (key_decode cr bx P) X = map2 (XOR) val ?g" using P(2) by (simp add: solves_def)
    moreover have "map F X = map2 (XOR) (map (key_decode cr bx P) X) ?g"
      unfolding F by (simp only: map2_xor_map)
    ultimately have "map F X = map2 (XOR) (map2 (XOR) val ?g) ?g" by simp
    then show ?thesis using map2_xor_self [of val ?g] len(1) by simp
  qed
  moreover have "opprf_eval cr st m T xs os = Inr (map F xs)" if "length os = length xs" for T xs os
    using that bx lP eval
    by (simp add: opprf_eval_def st_def baxos_decode_assign map2_xor_map F)
  ultimately show ?thesis by blast
qed

lemma opprf_protocol_eq:
  assumes ok: "opprf_session_ok ss m X values" and rows: "\<forall>v \<in> set val. is_row m v"
    and len: "length val = length X" "length outputs = length values"
  shows "\<exists>s F. opprf_protocol ss m (length values) (length X) X val values outputs = Inr (s, map F values) \<and>
    map F X = val \<and>
    (\<forall>T xs os. length os = length xs \<longrightarrow> opprf_eval (os_crypto ss) s m T xs os = Inr (map F xs))"
proof -
  let ?cr = "os_crypto ss" and ?bx = "os_init ss (length X) (row_type m) (os_seed ss)"
  have X: "X \<noteq> []" "0 < m" and oprf: "oprf_session_ok ss values" and bx_ok: "baxos_ok ?cr ?bx"
    and solve: "\<And>diff. length diff = length X \<and> (\<forall>d \<in> set diff. is_row m d) \<Longrightarrow>
      \<exists>P. os_solve_rand ss ?bx X diff = Inr P \<and> solves ?cr ?bx X diff P"
    using ok by (simp_all add: opprf_session_ok_def Let_def)
  obtain s G where run: "oprf_run ?cr (\<lambda>n. os_init ss n GF128) (os_solve ss) (os_chunk ss) (os_malicious ss)
      (length values) (os_oprf_seed ss) (os_ws ss) (os_wr ss) (os_D ss) (os_a ss) (os_b ss) (os_c ss)
      values outputs (os_threads ss) = Inr (s, map G values)"
    and G: "\<And>T xs os. length os = length xs \<Longrightarrow> oprf_eval ?cr s T xs os = Inr (map G xs)"
    using oprf_session_run [OF oprf len(2), of "os_threads ss"] by blast
  let ?diff = "map2 (XOR) val (map (\<lambda>x. low_bytes m (G x)) X)"
  have "is_row m (val ! i)" if "i < length X" for i using rows len(1) that by (metis nth_mem)
  then have "\<forall>d \<in> set ?diff. is_row m d"
    using len(1) by (auto simp: in_set_conv_nth intro!: is_row_xor)
  then obtain P where P: "os_solve_rand ss ?bx X ?diff = Inr P" "solves ?cr ?bx X ?diff P"
    using solve [of ?diff] len(1) by auto
  show ?thesis
    using opprf_protocol_value [OF run G X bx_ok len P refl] by blast
qed

text \<open>When the sender's solver throws, the run does.\<close>
lemma opprf_run_unsolved:
  assumes oprf: "oprf_session_ok ss qs" and X: "X \<noteq> []" "0 < m" "length val = length X"
    and solve: "\<And>diff. length diff = length X \<Longrightarrow>
      \<exists>e. os_solve_rand ss (os_init ss (length X) (row_type m) (os_seed ss)) X diff = Inl (Runtime_error e)"
  shows "\<exists>e. opprf_run ss m X val qs = Inl (Runtime_error e)"
proof -
  obtain s G where run: "oprf_run (os_crypto ss) (\<lambda>n. os_init ss n GF128) (os_solve ss) (os_chunk ss) (os_malicious ss)
      (length qs) (os_oprf_seed ss) (os_ws ss) (os_wr ss) (os_D ss) (os_a ss) (os_b ss) (os_c ss)
      qs (replicate (length qs) 0) (os_threads ss) = Inr (s, map G qs)"
    and G: "\<And>T xs os. length os = length xs \<Longrightarrow> oprf_eval (os_crypto ss) s T xs os = Inr (map G xs)"
    using oprf_session_run [OF oprf, of "replicate (length qs) 0" "os_threads ss"] by auto
  let ?diff = "map2 (XOR) val (map (\<lambda>x. low_bytes m (G x)) X)"
  obtain e where "os_solve_rand ss (os_init ss (length X) (row_type m) (os_seed ss)) X ?diff = Inl (Runtime_error e)"
    using solve [of ?diff] X(3) by auto
  then have "opprf_send ss m s X val = Inl (Runtime_error e)"
    using X oprfEval_eq [where cr = "os_crypto ss" and s = s and F = G and m = m, OF G] by (simp add: opprf_send_def Let_def)
  then show ?thesis using run by (simp add: opprf_run_def opprf_protocol_def)
qed

text \<open>
  The contract the protocols use: the receiver gets the values of one function
  that takes the programmed values at the programmed keys.
\<close>
locale programmable =
  fixes ok :: "'s \<Rightarrow> nat \<Rightarrow> block list \<Rightarrow> block list \<Rightarrow> bool"
    and run :: "'s \<Rightarrow> nat \<Rightarrow> block list \<Rightarrow> block list \<Rightarrow> block list \<Rightarrow> block list result"
    and fits :: "nat \<Rightarrow> block \<Rightarrow> bool"
  assumes run_function: "ok s m X qs \<Longrightarrow> length val = length X \<Longrightarrow> \<forall>v \<in> set val. fits m v \<Longrightarrow>
      \<exists>F. run s m X val qs = Inr (map F qs) \<and> map F X = val"
begin

lemma run_length:
  assumes "ok s m X qs" "length val = length X" "\<forall>v \<in> set val. fits m v"
  shows "\<exists>outs. run s m X val qs = Inr outs \<and> length outs = length qs"
  using run_function [OF assms] by fastforce

lemma run_programmed:
  assumes "ok s m X qs" "length val = length X" "\<forall>v \<in> set val. fits m v"
    and "run s m X val qs = Inr outs" "i < length qs" "j < length X" "qs ! i = X ! j"
  shows "outs ! i = val ! j"
proof -
  obtain F where "outs = map F qs" "map F X = val"
    using run_function [OF assms(1-3)] assms(4) by auto
  then show ?thesis using assms(5-7) by auto
qed

text \<open>A key that is programmed twice has one value.\<close>
lemma run_consistent:
  fixes val :: "block list"
  assumes "ok s m X qs" "length val = length X" "\<forall>v \<in> set val. fits m v"
    and "i < length X" "j < length X" "X ! i = X ! j"
  shows "val ! i = val ! j"
proof -
  obtain F where "map F X = val" using run_function [OF assms(1-3)] by blast
  then show ?thesis using assms(4-6) by auto
qed

end

lemma opprf_run_function:
  assumes "opprf_session_ok ss m X qs" "length val = length X" "\<forall>v \<in> set val. is_row m v"
  shows "\<exists>F. opprf_run ss m X val qs = Inr (map F qs) \<and> map F X = val"
  using opprf_protocol_eq [OF assms(1,3,2), of "replicate (length qs) 0"]
  by (auto simp: opprf_run_def)

interpretation opprf: programmable opprf_session_ok opprf_run is_row
  by unfold_locales (rule opprf_run_function)

section \<open>Properties\<close>

text \<open>C21. In a session that is set up, with rows of 1 to 16 bytes, the receiver gets the programmed value at
  every programmed key it asks for, the sender's \<open>eval\<close> agrees with the receiver
  at every key, and the value of a key does not depend on the other queries or on
  the number of threads.
\<close>
theorem opprf_correct:
  assumes "opprf_session_ok ss m X values" "\<forall>v \<in> set val. is_row m v"
    and "length val = length X" "length outputs = length values"
  shows "\<exists>s F. opprf_protocol ss m (length values) (length X) X val values outputs = Inr (s, map F values) \<and>
    map F X = val \<and>
    (\<forall>T xs os. length os = length xs \<longrightarrow> opprf_eval (os_crypto ss) s m T xs os = Inr (map F xs))"
  by (rule opprf_protocol_eq [OF assms])

text \<open>A concrete session: one key, tables of two blocks.\<close>
definition demo_session :: opprf_session where
  "demo_session = \<lparr>os_crypto = demo_crypto, os_init = (\<lambda>n _. demo_init n), os_solve = (\<lambda>_ _ _. Inr [1, 4]),
     os_solve_rand = (\<lambda>_ _ diff. Inr [diff ! 0, 0]), os_chunk = 8, os_malicious = False, os_threads = 1,
     os_oprf_seed = 3, os_seed = 4, os_ws = 10, os_wr = 20, os_D = 6, os_a = [9, 1], os_b = [11, 7], os_c = [3, 7]\<rparr>"

lemma demo_session_ok: "0 < m \<Longrightarrow> m \<le> 16 \<Longrightarrow> opprf_session_ok demo_session m [5] [5]"
proof -
  have "solves demo_crypto (demo_init 1 3) [5] [hash_fixed demo_crypto 5] [1, 4]"
    by (simp add: solves_def demo_size demo_decode) (simp add: demo_crypto_def)
  moreover have "solves demo_crypto (demo_init 1 4) [5] diff [diff ! 0, 0]" if "length diff = 1" for diff
    using that by (cases diff) (simp_all add: solves_def demo_size demo_decode)
  moreover assume "0 < m" "m \<le> 16"
  ultimately show ?thesis
    by (simp add: opprf_session_ok_def oprf_session_ok_def demo_session_def demo_ok demo_size demo_vole)
qed

lemma opprf_correct_witness:
  "\<exists>s F. opprf_protocol demo_session 4 1 1 [5] [77] [5] [0] = Inr (s, map F [5]) \<and> map F [5] = [77] \<and>
    (\<forall>T xs os. length os = length xs \<longrightarrow> opprf_eval (os_crypto demo_session) s 4 T xs os = Inr (map F xs))"
  using opprf_correct [OF demo_session_ok, of 4 "[77]" "[0]"] by (simp add: is_row_def low_bytes_def)

end
