(* ===== verification/Simple_Index.thy ===== *)
theory Simple_Index
  imports Prelude
begin

text \<open>
  fpsi/opprf/SimpleIndex.h and SimpleIndex.cpp: the receiver's hash table, where
  every item sits in the bin of each of its hash functions.  An item is packed
  in 64 bits.  The locations come from the cuckoo index of the crypto library,
  \<open>computeLocations\<close>; the size of a bin, which the code takes from a table of
  floating-point numbers, is an argument of \<open>simple_init\<close>.
\<close>

section \<open>Items\<close>

text \<open>\<open>mVal(-1)\<close>.\<close>
definition item_empty :: u64 where
  "item_empty = - 1"

definition item_isEmpty :: "u64 \<Rightarrow> bool" where
  "item_isEmpty mVal \<longleftrightarrow> mVal = - 1"

definition item_idx :: "u64 \<Rightarrow> u64" where
  "item_idx mVal = mVal AND drop_bit 8 (- 1)"

definition item_hashIdx :: "u64 \<Rightarrow> u64" where
  "item_hashIdx mVal = drop_bit 56 mVal"

text \<open>\<open>set\<close>: the value is the index with its eighth byte replaced.\<close>
definition item_set :: "u64 \<Rightarrow> u8 \<Rightarrow> u64" where
  "item_set idx hashIdx = take_bit 56 idx OR push_bit 56 (ucast hashIdx)"

section \<open>The table\<close>

record simple_index =
  mMaxBinSize :: nat
  mNumHashFunctions :: nat
  mNumBins :: nat
  mBins :: "u64 list list"
  mBinSizes :: "nat list"
  mLocations :: "nat list list"

definition simple_init :: "nat \<Rightarrow> nat \<Rightarrow> nat \<Rightarrow> nat \<Rightarrow> simple_index" where
  "simple_init get_bin_size numBins numBalls numHashFunction =
     \<lparr>mMaxBinSize = get_bin_size, mNumHashFunctions = numHashFunction, mNumBins = numBins,
      mBins = replicate numBins (replicate get_bin_size item_empty),
      mBinSizes = replicate numBins 0,
      mLocations = replicate numBalls (replicate numHashFunction 0)\<rparr>"

text \<open>\<open>mBins(loc, mBinSizes[loc]++).set(i, j)\<close>; outside the matrix the access is undefined.\<close>
definition put_item :: "nat \<Rightarrow> nat \<Rightarrow> nat \<Rightarrow> simple_index \<Rightarrow> simple_index result" where
  "put_item loc i j st =
     (if loc < mNumBins st \<and> mBinSizes st ! loc < mMaxBinSize st
      then let size = mBinSizes st ! loc in
        Inr (st\<lparr>mBins := (mBins st)[loc := (mBins st ! loc)[size := item_set (of_nat i) (of_nat j)]],
                mBinSizes := (mBinSizes st)[loc := size + 1]\<rparr>)
      else Inl (Undefined_behaviour ''mBins(loc, mBinSizes[loc])''))"

text \<open>The two loops over the hash functions and over the items of a chunk.\<close>
definition put_chunk :: "nat \<Rightarrow> nat list list \<Rightarrow> simple_index \<Rightarrow> simple_index result" where
  "put_chunk i locations st =
     foldR (\<lambda>j. foldR (\<lambda>k. put_item (locations ! k ! j) (i + k) j) [0..<length locations])
       [0..<mNumHashFunctions st] st"

text \<open>\<open>cuckoo.mMods[i] = oc::Mod(binCount - i)\<close>.\<close>
definition hash_mods :: "simple_index \<Rightarrow> nat list" where
  "hash_mods st = map (\<lambda>i. mNumBins st - i) [0..<mNumHashFunctions st]"

text \<open>\<open>insert(items)\<close>: chunks of 32 hashed items; the rows of locations are kept in \<open>mLocations\<close>.\<close>
definition insert_step ::
  "(nat list \<Rightarrow> block list \<Rightarrow> nat list list) \<Rightarrow> block list \<Rightarrow> nat \<Rightarrow> simple_index \<Rightarrow> simple_index result" where
  "insert_step computeLocations items c st =
     (let i = 32 * c;
          chunk = take 32 (drop i items);
          rows = computeLocations (hash_mods st) chunk;
          st = st\<lparr>mLocations := take i (mLocations st) @ rows @ drop (i + length rows) (mLocations st)\<rparr>
      in put_chunk i rows st)"

definition insert_items ::
  "(nat list \<Rightarrow> block list \<Rightarrow> nat list list) \<Rightarrow> block list \<Rightarrow> simple_index \<Rightarrow> simple_index result" where
  "insert_items computeLocations items st =
     foldR (insert_step computeLocations items) [0..<(length items + 31) div 32] st"

text \<open>
  \<open>insert(items, hashingSeed)\<close>: the chunk is hashed first, into a buffer of 32
  that keeps its old content past a short chunk; \<open>mLocations\<close> is not touched.
\<close>
definition insert_hashed ::
  "(nat list \<Rightarrow> block list \<Rightarrow> nat list list) \<Rightarrow> (block \<Rightarrow> block) \<Rightarrow> block list \<Rightarrow> simple_index \<Rightarrow>
   simple_index result" where
  "insert_hashed computeLocations hash items st =
     rmap snd (foldR (\<lambda>c (hashs, st).
       let i = 32 * c;
           chunk = take 32 (drop i items);
           hashs = map hash chunk @ drop (length chunk) hashs;
           rows = computeLocations (hash_mods st) hashs
       in rmap (\<lambda>st. (hashs, st)) (put_chunk i (take (length chunk) rows) st))
       [0..<(length items + 31) div 32] (replicate 32 0, st))"

section \<open>Items round trip\<close>

lemma idx_mask: "drop_bit 8 (- 1) = (mask 56 :: u64)"
  by (rule bit_word_eqI) (auto simp: bit_simps)

lemma item_idx_set: "unat idx < 2 ^ 56 \<Longrightarrow> item_idx (item_set idx h) = idx"
proof -
  assume "unat idx < 2 ^ 56"
  then have "unat (take_bit 56 idx) = unat idx"
    by (simp only: unsigned_take_bit_eq take_bit_nat_eq_self)
  then have "take_bit 56 idx = idx" by (simp only: unsigned_word_eqI)
  moreover have "item_idx (item_set idx h) = take_bit 56 idx"
    by (rule bit_word_eqI) (auto simp: item_idx_def item_set_def idx_mask bit_simps)
  ultimately show ?thesis by simp
qed

lemma item_hashIdx_set: "item_hashIdx (item_set idx h) = ucast h"
  by (rule bit_word_eqI) (auto simp: item_hashIdx_def item_set_def bit_simps dest: bit_imp_le_length)

lemma item_set_not_empty: "h \<noteq> 255 \<Longrightarrow> \<not> item_isEmpty (item_set idx h)"
proof
  assume h: "h \<noteq> 255" and "item_isEmpty (item_set idx h)"
  then have "(ucast h :: u64) = drop_bit 56 (- 1)"
    using item_hashIdx_set [of idx h] by (simp add: item_isEmpty_def item_hashIdx_def)
  also have "\<dots> = 255" by (simp add: drop_bit_minus_one mask_eq_exp_minus_1)
  finally have "(ucast (ucast h :: u64) :: u8) = 255" by simp
  moreover have "ucast (ucast h :: u64) = h" by (rule bit_word_eqI) (auto simp: bit_simps)
  ultimately show False using h by simp
qed

section \<open>Insertion\<close>

text \<open>The table after a list of puts, each a location, an index and a hash function.\<close>
definition bin_items :: "(nat \<times> nat \<times> nat) list \<Rightarrow> nat \<Rightarrow> u64 list" where
  "bin_items puts b = map (\<lambda>(_, i, j). item_set (of_nat i) (of_nat j)) (filter (\<lambda>(l, _). l = b) puts)"

definition table_holds :: "simple_index \<Rightarrow> (nat \<times> nat \<times> nat) list \<Rightarrow> bool" where
  "table_holds st puts \<longleftrightarrow> length (mBins st) = mNumBins st \<and> length (mBinSizes st) = mNumBins st \<and>
     (\<forall>b < mNumBins st. length (mBins st ! b) = mMaxBinSize st \<and>
        mBinSizes st ! b = length (bin_items puts b) \<and> length (bin_items puts b) \<le> mMaxBinSize st \<and>
        take (mBinSizes st ! b) (mBins st ! b) = bin_items puts b \<and>
        (\<forall>x \<in> set (drop (mBinSizes st ! b) (mBins st ! b)). item_isEmpty x))"

lemma table_holds_init: "table_holds (simple_init m n balls nh) []"
  by (auto simp: table_holds_def simple_init_def bin_items_def item_isEmpty_def item_empty_def)

lemma table_holds_locations: "table_holds (st\<lparr>mLocations := x\<rparr>) p = table_holds st p"
  by (simp add: table_holds_def)

lemma bin_items_snoc:
  "bin_items (puts @ [(l, i, j)]) b = bin_items puts b @ (if l = b then [item_set (of_nat i) (of_nat j)] else [])"
  by (simp add: bin_items_def)

lemma put_item_ok:
  assumes "table_holds st puts" "loc < mNumBins st" "length (bin_items puts loc) < mMaxBinSize st"
  shows "\<exists>st'. put_item loc i j st = Inr st' \<and> table_holds st' (puts @ [(loc, i, j)]) \<and>
    mNumBins st' = mNumBins st \<and> mMaxBinSize st' = mMaxBinSize st \<and> mLocations st' = mLocations st \<and>
    mNumHashFunctions st' = mNumHashFunctions st"
proof -
  let ?s = "mBinSizes st ! loc" and ?x = "item_set (of_nat i) (of_nat j)"
  have s: "?s = length (bin_items puts loc)" "?s < mMaxBinSize st" "length (mBins st ! loc) = mMaxBinSize st"
    using assms by (auto simp: table_holds_def)
  have "take (Suc ?s) ((mBins st ! loc)[?s := ?x]) = take ?s (mBins st ! loc) @ [?x]"
    using s by (simp add: take_Suc_conv_app_nth)
  moreover have "drop (Suc ?s) ((mBins st ! loc)[?s := ?x]) = drop (Suc ?s) (mBins st ! loc)" by simp
  moreover have "set (drop (Suc ?s) (mBins st ! loc)) \<subseteq> set (drop ?s (mBins st ! loc))"
    by (simp add: set_drop_subset_set_drop)
  ultimately show ?thesis
    using assms s unfolding put_item_def Let_def table_holds_def
    by (auto simp: nth_list_update bin_items_snoc)
qed


definition same_shape :: "simple_index \<Rightarrow> simple_index \<Rightarrow> bool" where
  "same_shape st st' \<longleftrightarrow> mNumBins st' = mNumBins st \<and> mMaxBinSize st' = mMaxBinSize st \<and>
     mNumHashFunctions st' = mNumHashFunctions st"

lemma bin_items_append: "bin_items (xs @ ys) b = bin_items xs b @ bin_items ys b"
  by (simp add: bin_items_def)

text \<open>A list of puts that fits: no location outside the table and no bin too full.\<close>
definition puts_fit :: "simple_index \<Rightarrow> (nat \<times> nat \<times> nat) list \<Rightarrow> bool" where
  "puts_fit st puts \<longleftrightarrow> (\<forall>(l, _) \<in> set puts. l < mNumBins st) \<and>
     (\<forall>b < mNumBins st. length (bin_items puts b) \<le> mMaxBinSize st)"

lemma put_items_ok:
  assumes "table_holds st puts" "puts_fit st (puts @ new)"
  shows "\<exists>st'. foldR (\<lambda>(l, i, j). put_item l i j) new st = Inr st' \<and> table_holds st' (puts @ new) \<and>
    same_shape st st' \<and> mLocations st' = mLocations st"
  using assms
proof (induction new arbitrary: st puts)
  case (Cons x new)
  obtain l i j where x: "x = (l, i, j)" by (cases x)
  have l: "l < mNumBins st" using Cons.prems(2) by (auto simp: puts_fit_def x)
  have "length (bin_items (puts @ x # new) l) \<le> mMaxBinSize st"
    using Cons.prems(2) l by (auto simp: puts_fit_def)
  then have "length (bin_items puts l) < mMaxBinSize st"
    by (simp add: bin_items_def x)
  from put_item_ok [OF Cons.prems(1) l this, of i j] obtain st1
    where st1: "put_item l i j st = Inr st1" "table_holds st1 (puts @ [x])" "same_shape st st1"
      "mLocations st1 = mLocations st"
    by (auto simp: same_shape_def x)
  have "puts_fit st1 ((puts @ [x]) @ new)"
    using Cons.prems(2) st1(3) by (simp add: puts_fit_def same_shape_def)
  from Cons.IH [OF st1(2) this] show ?case using st1 by (auto simp: x same_shape_def)
qed (auto simp: same_shape_def)

text \<open>The puts of a chunk, in the order of the loops.\<close>
definition chunk_puts :: "nat \<Rightarrow> nat \<Rightarrow> nat list list \<Rightarrow> (nat \<times> nat \<times> nat) list" where
  "chunk_puts nh i rows = concat (map (\<lambda>j. map (\<lambda>k. (rows ! k ! j, i + k, j)) [0..<length rows]) [0..<nh])"

lemma foldR_concat_map: "foldR f (concat (map g xs)) s = foldR (\<lambda>x. foldR f (g x)) xs s"
proof (induction xs arbitrary: s)
  case (Cons x xs)
  then show ?case by (simp add: foldR_append) (metis)
qed simp

lemma foldR_map: "foldR f (map g xs) = foldR (\<lambda>x. f (g x)) xs"
proof (rule ext)
  show "foldR f (map g xs) s = foldR (\<lambda>x. f (g x)) xs s" for s
  proof (induction xs arbitrary: s)
    case (Cons x xs)
    then show ?case by (cases "f (g x) s") auto
  qed simp
qed

lemma put_chunk_eq:
  "put_chunk i rows st = foldR (\<lambda>(l, i, j). put_item l i j) (chunk_puts (mNumHashFunctions st) i rows) st"
  by (simp add: put_chunk_def chunk_puts_def foldR_concat_map foldR_map)

text \<open>All the puts of an insertion.\<close>
definition all_puts :: "nat \<Rightarrow> (block \<Rightarrow> nat list) \<Rightarrow> block list \<Rightarrow> nat \<Rightarrow> (nat \<times> nat \<times> nat) list" where
  "all_puts nh loc items m = concat (map (\<lambda>c. chunk_puts nh (32 * c) (map loc (take 32 (drop (32 * c) items)))) [0..<m])"

lemma all_puts_Suc:
  "all_puts nh loc items (Suc m) =
   all_puts nh loc items m @ chunk_puts nh (32 * m) (map loc (take 32 (drop (32 * m) items)))"
  by (simp add: all_puts_def)

lemma puts_fit_append: "puts_fit st (xs @ ys) \<Longrightarrow> puts_fit st xs"
  by (auto simp: puts_fit_def bin_items_append)

lemma insert_items_steps:
  assumes rows: "\<And>xs. computeLocations (hash_mods st) xs = map loc xs"
    and init: "table_holds st []" "length (mLocations st) = length items"
    and fit: "puts_fit st (all_puts (mNumHashFunctions st) loc items m)"
    and m: "32 * m \<le> length items + 31"
  shows "\<exists>st'. foldR (insert_step computeLocations items) [0..<m] st = Inr st' \<and>
    table_holds st' (all_puts (mNumHashFunctions st) loc items m) \<and> same_shape st st' \<and>
    length (mLocations st') = length items \<and> take (32 * m) (mLocations st') = map loc (take (32 * m) items)"
  using fit m
proof (induction m)
  case 0
  then show ?case using init by (simp add: all_puts_def same_shape_def)
next
  case (Suc m)
  let ?nh = "mNumHashFunctions st" and ?i = "32 * m"
  let ?rows = "map loc (take 32 (drop ?i items))"
  have fit: "puts_fit st (all_puts ?nh loc items m @ chunk_puts ?nh ?i ?rows)"
    using Suc.prems(1) by (simp add: all_puts_Suc)
  from Suc.IH [OF puts_fit_append [OF fit]] Suc.prems(2) obtain st1 where
    st1: "table_holds st1 (all_puts ?nh loc items m)" "same_shape st st1"
      "length (mLocations st1) = length items" "take ?i (mLocations st1) = map loc (take ?i items)"
    and run: "foldR (insert_step computeLocations items) [0..<m] st = Inr st1" by auto
  have mods: "hash_mods st1 = hash_mods st" using st1(2) by (simp add: hash_mods_def same_shape_def)
  define st2 where "st2 = st1\<lparr>mLocations := take ?i (mLocations st1) @ ?rows @ drop (?i + length ?rows) (mLocations st1)\<rparr>"
  have "insert_step computeLocations items m st1 = put_chunk ?i ?rows st2"
    unfolding insert_step_def Let_def mods rows st2_def by (rule refl)
  then have step: "foldR (insert_step computeLocations items) [0..<Suc m] st = put_chunk ?i ?rows st2"
    using run by (simp add: foldR_append) (cases "put_chunk ?i ?rows st2"; simp)
  have h2: "table_holds st2 (all_puts ?nh loc items m)" using st1(1) by (simp add: st2_def table_holds_locations)
  have "puts_fit st2 (all_puts ?nh loc items m @ chunk_puts ?nh ?i ?rows)"
    using fit st1(2) by (simp add: st2_def puts_fit_def same_shape_def)
  from put_items_ok [OF h2 this] obtain st3 where st3:
    "put_chunk ?i ?rows st2 = Inr st3" "table_holds st3 (all_puts ?nh loc items (Suc m))" "same_shape st2 st3"
    "mLocations st3 = mLocations st2"
    using st1(2) by (auto simp: put_chunk_eq all_puts_Suc st2_def same_shape_def)
  have "mLocations st2 = map loc (take ?i items) @ ?rows @ drop (?i + length ?rows) (mLocations st1)"
    by (simp add: st2_def st1(4))
  moreover have "map loc (take ?i items) @ ?rows = map loc (take (32 * Suc m) items)"
    by (simp add: take_add add.commute [of 32] flip: map_append)
  moreover have "length (map loc (take (32 * Suc m) items)) = ?i + length ?rows"
    using Suc.prems(2) by (auto simp: min_def)
  ultimately have loc2: "mLocations st2 = map loc (take (32 * Suc m) items) @ drop (?i + length ?rows) (mLocations st1)"
    "length (mLocations st2) = length items"
    using st1(3) Suc.prems(2) by (auto simp: min_def)
  have "take (32 * Suc m) (mLocations st2) = map loc (take (32 * Suc m) items)"
    using st1(3) Suc.prems(2) by (subst loc2(1)) (auto simp: min_def)
  moreover have "same_shape st st3" using st1(2) st3(3) by (simp add: same_shape_def st2_def)
  ultimately show ?case
    using st3 loc2(2) step by auto
qed

lemma mem_chunk_puts:
  "(l, i, j) \<in> set (chunk_puts nh s rows) \<longleftrightarrow> j < nh \<and> s \<le> i \<and> i - s < length rows \<and> l = rows ! (i - s) ! j"
proof
  assume "j < nh \<and> s \<le> i \<and> i - s < length rows \<and> l = rows ! (i - s) ! j"
  then show "(l, i, j) \<in> set (chunk_puts nh s rows)"
    by (auto simp: chunk_puts_def intro!: bexI [of _ j] rev_image_eqI [of "i - s"])
qed (auto simp: chunk_puts_def)

lemma mem_all_puts:
  assumes "length items \<le> 32 * m"
  shows "(l, i, j) \<in> set (all_puts nh loc items m) \<longleftrightarrow> i < length items \<and> j < nh \<and> l = loc (items ! i) ! j"
proof
  assume r: "i < length items \<and> j < nh \<and> l = loc (items ! i) ! j"
  define s where "s = 32 * (i div 32)"
  obtain k where k: "i = s + k" "k < 32"
    using that [of "i mod 32"] by (simp add: s_def)
  have "(l, i, j) \<in> set (chunk_puts nh s (map loc (take 32 (drop s items))))"
  proof -
    have "k < length items - s" "j < nh" "l = loc (items ! (s + k)) ! j" using r k by auto
    then show ?thesis using k by (simp add: mem_chunk_puts)
  qed
  moreover have "i div 32 < m" using r assms by (simp add: less_mult_imp_div_less mult.commute)
  ultimately show "(l, i, j) \<in> set (all_puts nh loc items m)"
    by (auto simp: all_puts_def s_def)
qed (auto simp: all_puts_def mem_chunk_puts)

lemma insert_items_eq:
  assumes "\<And>xs. computeLocations (hash_mods st) xs = map loc xs"
    and "table_holds st []" "length (mLocations st) = length items"
    and "puts_fit st (all_puts (mNumHashFunctions st) loc items ((length items + 31) div 32))"
  shows "\<exists>st'. insert_items computeLocations items st = Inr st' \<and>
    table_holds st' (all_puts (mNumHashFunctions st) loc items ((length items + 31) div 32)) \<and>
    same_shape st st' \<and> mLocations st' = map loc items"
proof -
  have "length items \<le> 32 * ((length items + 31) div 32)" "32 * ((length items + 31) div 32) \<le> length items + 31"
    by presburger+
  then show ?thesis
    using insert_items_steps [where computeLocations = computeLocations and st = st and loc = loc
        and items = items and m = "(length items + 31) div 32"] assms
    by (fastforce simp: insert_items_def)
qed

section \<open>Properties\<close>

text \<open>C22. An item gives back the index and the hash function it was set to, and is
  never empty, for indices of at most seven bytes; the empty item is empty.
\<close>
theorem item_roundtrip:
  assumes "unat idx < 2 ^ 56" "h \<noteq> 255"
  shows "item_idx (item_set idx h) = idx \<and> item_hashIdx (item_set idx h) = ucast h \<and>
    \<not> item_isEmpty (item_set idx h) \<and> item_isEmpty item_empty"
  using assms by (simp add: item_idx_set item_hashIdx_set item_set_not_empty) (simp add: item_isEmpty_def item_empty_def)

lemma item_roundtrip_witness: "item_idx (item_set 77 2) = 77 \<and> item_hashIdx (item_set 77 2) = 2"
  using item_roundtrip [of 77 2] by simp

text \<open>The number of pairs of an item and a hash function that meet in a bin.\<close>
definition bin_load :: "(block \<Rightarrow> nat list) \<Rightarrow> block list \<Rightarrow> nat \<Rightarrow> nat \<Rightarrow> nat" where
  "bin_load loc items nh b = card {(i, j). i < length items \<and> j < nh \<and> loc (items ! i) ! j = b}"

lemma distinct_chunk_puts: "distinct (chunk_puts nh s rows)"
proof (induction nh)
  case (Suc nh)
  have "chunk_puts (Suc nh) s rows = chunk_puts nh s rows @ map (\<lambda>k. (rows ! k ! nh, s + k, nh)) [0..<length rows]"
    by (simp add: chunk_puts_def)
  moreover have "(l, i, nh) \<notin> set (chunk_puts nh s rows)" for l i by (simp add: mem_chunk_puts)
  ultimately show ?case using Suc by (auto simp: distinct_map inj_on_def)
qed (simp add: chunk_puts_def)

lemma distinct_all_puts: "distinct (all_puts nh loc items m)"
proof (induction m)
  case (Suc m)
  have "32 * c + 32 \<le> 32 * m" if "c < m" for c using that by simp
  then have "set (all_puts nh loc items m) \<inter> set (chunk_puts nh (32 * m) rows) = {}" for rows
    by (fastforce simp: all_puts_def mem_chunk_puts)
  then show ?case using Suc by (simp add: all_puts_Suc distinct_chunk_puts)
qed (simp add: all_puts_def)

lemma bin_items_load:
  assumes "length items \<le> 32 * m"
  shows "length (bin_items (all_puts nh loc items m) b) = bin_load loc items nh b"
proof -
  let ?f = "filter (\<lambda>(l, _). l = b) (all_puts nh loc items m)"
  have "length (bin_items (all_puts nh loc items m) b) = card (set ?f)"
    unfolding bin_items_def length_map by (rule distinct_card [symmetric]) (simp add: distinct_all_puts)
  also have "set ?f = (\<lambda>(i, j). (b, i, j)) ` {(i, j). i < length items \<and> j < nh \<and> loc (items ! i) ! j = b}"
    using mem_all_puts [OF assms] by (auto simp: image_iff)
  also have "card \<dots> = bin_load loc items nh b"
    unfolding bin_load_def by (rule card_image) (auto simp: inj_on_def)
  finally show ?thesis .
qed

lemma insert_items_ok:
  assumes "\<And>xs. computeLocations (map (\<lambda>i. n - i) [0..<nh]) xs = map loc xs"
    and "\<forall>x \<in> set items. \<forall>j < nh. loc x ! j < n"
    and "\<forall>b < n. bin_load loc items nh b \<le> m"
  shows "\<exists>st. insert_items computeLocations items (simple_init m n (length items) nh) = Inr st \<and>
    table_holds st (all_puts nh loc items ((length items + 31) div 32)) \<and>
    mLocations st = map loc items \<and> mNumBins st = n \<and> mMaxBinSize st = m"
proof -
  let ?st = "simple_init m n (length items) nh" and ?c = "(length items + 31) div 32"
  have c: "length items \<le> 32 * ?c" by presburger
  have fields: "hash_mods ?st = map (\<lambda>i. n - i) [0..<nh]" "mNumHashFunctions ?st = nh" "mNumBins ?st = n"
    "mMaxBinSize ?st = m" "length (mLocations ?st) = length items"
    by (simp_all add: simple_init_def hash_mods_def)
  have "puts_fit ?st (all_puts nh loc items ?c)"
    using assms(2,3) bin_items_load [OF c] fields by (auto simp: puts_fit_def mem_all_puts [OF c])
  then show ?thesis
    using insert_items_eq [of computeLocations ?st loc items] assms(1) fields table_holds_init
    by (auto simp: same_shape_def)
qed

text \<open>C23. If the computed locations are inside the table and no bin gets more items
  than it has room for, insertion succeeds, records the locations of every item,
  and puts in each bin exactly the pairs of an item and a hash function that are
  mapped to it, the rest of the bin staying empty.
\<close>
theorem insert_items_correct:
  assumes "\<And>xs. computeLocations (map (\<lambda>i. n - i) [0..<nh]) xs = map loc xs"
    and "\<forall>x \<in> set items. \<forall>j < nh. loc x ! j < n"
    and "\<forall>b < n. bin_load loc items nh b \<le> m"
  shows "\<exists>st puts. insert_items computeLocations items (simple_init m n (length items) nh) = Inr st \<and>
    mLocations st = map loc items \<and> mNumBins st = n \<and>
    (\<forall>b < n. mBins st ! b = bin_items puts b @ replicate (m - bin_load loc items nh b) item_empty) \<and>
    distinct puts \<and> set puts = {(l, i, j). i < length items \<and> j < nh \<and> l = loc (items ! i) ! j}"
proof -
  let ?c = "(length items + 31) div 32"
  let ?puts = "all_puts nh loc items ?c"
  have c: "length items \<le> 32 * ?c" by presburger
  obtain st where st: "insert_items computeLocations items (simple_init m n (length items) nh) = Inr st"
    "table_holds st ?puts" "mLocations st = map loc items" and shape: "mNumBins st = n" "mMaxBinSize st = m"
    using insert_items_ok [where computeLocations = computeLocations and loc = loc, OF assms] by blast
  have "mBins st ! b = bin_items ?puts b @ replicate (m - bin_load loc items nh b) item_empty" if "b < n" for b
  proof -
    let ?s = "mBinSizes st ! b"
    have h: "length (mBins st ! b) = m" "?s = bin_load loc items nh b" "take ?s (mBins st ! b) = bin_items ?puts b"
      "\<forall>x \<in> set (drop ?s (mBins st ! b)). item_isEmpty x"
      using st(2) that shape bin_items_load [OF c, of nh loc b] by (auto simp: table_holds_def)
    have "drop ?s (mBins st ! b) = replicate (m - ?s) item_empty"
      using h(1,4) by (intro replicate_eqI) (auto simp: item_isEmpty_def item_empty_def)
    then show ?thesis using h by (metis append_take_drop_id)
  qed
  moreover have "set ?puts = {(l, i, j). i < length items \<and> j < nh \<and> l = loc (items ! i) ! j}"
    using mem_all_puts [OF c] by auto
  ultimately show ?thesis using st(1,3) shape(1) distinct_all_puts by blast
qed

lemma insert_items_correct_witness:
  "\<exists>st. insert_items (\<lambda>_. map (\<lambda>x. [unat x mod 5, (unat x + 1) mod 5])) [7, 8]
      (simple_init 4 5 (length [7, 8 :: block]) 2) = Inr st \<and>
    mLocations st = [[2, 3], [3, 4]]"
proof -
  have "bin_load (\<lambda>x. [unat x mod 5, (unat x + 1) mod 5]) [7, 8] 2 b \<le> 4" for b
  proof -
    have "{(i, j). i < length [7, 8 :: block] \<and> j < (2 :: nat) \<and> [unat ([7, 8 :: block] ! i) mod 5, (unat ([7, 8 :: block] ! i) + 1) mod 5] ! j = b}
        \<subseteq> {..<2} \<times> {..<2}" by auto
    then have "bin_load (\<lambda>x. [unat x mod 5, (unat x + 1) mod 5]) [7, 8] 2 b \<le> card ({..<2 :: nat} \<times> {..<2 :: nat})"
      unfolding bin_load_def by (intro card_mono) simp_all
    then show ?thesis by simp
  qed
  then show ?thesis
    using insert_items_correct [of "\<lambda>_. map (\<lambda>x. [unat x mod 5, (unat x + 1) mod 5])" 5 2
        "\<lambda>x. [unat x mod 5, (unat x + 1) mod 5]" "[7, 8]" 4]
    by (auto simp: less_2_cases_iff)
qed

end
