(* ===== verification/Fmat.thy ===== *)
theory Fmat
  imports Params Dist_Util Equality Simple_Index Opprf
begin

text \<open>
  What the matching protocols of fpsi_recv.cpp and fpsi_sender.cpp share: the hash
  keys of the prefixes, the padding, the two programmable-function calls of a
  dimension and the sums over the dimensions.  The hash function \<open>blake3\<close> of the
  library maps a byte string to 16 bytes; random draws are arguments.
\<close>

section \<open>Bytes and keys\<close>

definition word_bytes :: "nat \<Rightarrow> 'a::len word \<Rightarrow> u8 list" where
  "word_bytes n v = map (\<lambda>i. ucast (drop_bit (8 * i) v)) [0..<n]"

definition string_bytes :: "string \<Rightarrow> u8 list" where
  "string_bytes s = map (\<lambda>c. of_nat (of_char c)) s"

text \<open>The key of a prefix: the prefix, the identifier, the hash function and the bin.\<close>
definition prefix_key_bytes :: "string \<Rightarrow> block \<Rightarrow> nat \<Rightarrow> nat \<Rightarrow> u8 list" where
  "prefix_key_bytes prefix ident k bin_idx =
     string_bytes prefix @ word_bytes 16 ident @ word_bytes 8 (of_nat k :: u64) @ word_bytes 8 (of_nat bin_idx :: u64)"

definition prefix_key :: "(u8 list \<Rightarrow> block) \<Rightarrow> string \<Rightarrow> block \<Rightarrow> nat \<Rightarrow> nat \<Rightarrow> block" where
  "prefix_key blake3 prefix ident k bin_idx = blake3 (prefix_key_bytes prefix ident k bin_idx)"

text \<open>The same with the side of the interval, \<open>sigma\<close>, at the end.\<close>
definition sigma_key :: "(u8 list \<Rightarrow> block) \<Rightarrow> nat \<Rightarrow> string \<Rightarrow> block \<Rightarrow> nat \<Rightarrow> nat \<Rightarrow> block" where
  "sigma_key blake3 sigma prefix ident k bin_idx =
     blake3 (prefix_key_bytes prefix ident k bin_idx @ word_bytes 8 (of_nat sigma :: u64))"

text \<open>\<open>padding_blocks\<close>: random blocks up to the count, which never shortens.\<close>
definition padding_blocks :: "(nat \<Rightarrow> block) \<Rightarrow> block list \<Rightarrow> nat \<Rightarrow> block list" where
  "padding_blocks prng vals count =
     (if length vals \<ge> count then vals else vals @ map prng [0..<count - length vals])"

section \<open>Tables of the two parties\<close>

text \<open>The bins of the cuckoo index: the item and the hash function that put it there.\<close>
type_synonym cuckoo = "(nat \<times> nat) option list"

text \<open>What a thread or a run takes from outside: sessions, random draws and triples.\<close>
record fmat_env =
  fe_blake3 :: "u8 list \<Rightarrow> block"
  fe_step3 :: "nat \<Rightarrow> opprf_session"
  fe_step4 :: "nat \<Rightarrow> opprf_session"
  fe_pad_keys :: "nat \<Rightarrow> nat \<Rightarrow> block"
  fe_pad_vals :: "nat \<Rightarrow> nat \<Rightarrow> block"
  fe_empty :: "nat \<Rightarrow> nat \<Rightarrow> block"
  fe_log2ceil :: "nat \<Rightarrow> nat"
  fe_t0 :: triples
  fe_t1 :: triples

section \<open>Calls of the programmable function\<close>

text \<open>
  One execution of \<open>opprf_sender.send(recverSize, keys, vals)\<close> with
  \<open>opprf_recv.receive(senderSize, queries, out)\<close>, where \<open>out\<close> has \<open>outSize\<close> rows.
\<close>
definition opprf_call ::
  "opprf_session \<Rightarrow> nat \<Rightarrow> nat \<Rightarrow> nat \<Rightarrow> block list \<Rightarrow> block list \<Rightarrow> block list \<Rightarrow> nat \<Rightarrow> block list result" where
  "opprf_call ss m recverSize senderSize keys vals queries outSize =
     rmap snd (opprf_protocol ss m recverSize senderSize keys vals queries (replicate outSize 0))"

text \<open>\<open>r_vals_[i * prefix_size + j] = r_vals[dim_index * bins_num + i]\<close>.\<close>
definition repeat_values :: "nat \<Rightarrow> 'a list \<Rightarrow> 'a list" where
  "repeat_values prefix_size vals = concat (map (replicate prefix_size) vals)"

text \<open>The values of one dimension: \<open>a_random.data() + bins_num * dim_index\<close>.\<close>
definition dim_slice :: "nat \<Rightarrow> 'a list \<Rightarrow> nat \<Rightarrow> 'a list" where
  "dim_slice bins_num vals dim_index = take bins_num (drop (bins_num * dim_index) vals)"

text \<open>
  Both parties of the two calls that follow each other: the receiver of the items
  programs its entries, padded to \<open>size\<close>, and the sender asks for the \<open>w\<close> queries of
  every bin; then the sender programs the value \<open>r!i\<close> at what it got for bin \<open>i\<close> and
  the receiver asks for its \<open>a!i\<close>.  The second call has rows of \<open>m\<close> bytes.
\<close>
definition two_hop ::
  "opprf_session \<Rightarrow> opprf_session \<Rightarrow> nat \<Rightarrow> nat \<Rightarrow> nat \<Rightarrow> nat \<Rightarrow> (block \<times> block) list \<Rightarrow> (nat \<Rightarrow> block) \<Rightarrow> (nat \<Rightarrow> block) \<Rightarrow>
   block list \<Rightarrow> block list \<Rightarrow> block list \<Rightarrow> block list result" where
  "two_hop s1 s2 m w opprf_size bins_num entries pad_keys pad_vals queries a r =
     (let keys_size = w * bins_num;
          prefix_keys = padding_blocks pad_keys (map fst entries) opprf_size;
          prefix_vals = padding_blocks pad_vals (map snd entries) opprf_size
      in rbind (opprf_call s1 16 keys_size opprf_size prefix_keys prefix_vals queries keys_size)
        (\<lambda>u. opprf_call s2 m bins_num keys_size u (repeat_values w r) a bins_num))"

text \<open>\<open>sums[i] ^= vals(j, i)\<close> over the dimensions.\<close>
definition xor_columns :: "nat \<Rightarrow> nat \<Rightarrow> block list list \<Rightarrow> block list" where
  "xor_columns DIM bins_num vals =
     map (\<lambda>i. fold (\<lambda>j s. s XOR vals ! j ! i) [0..<DIM] 0) [0..<bins_num]"

section \<open>Keys\<close>

lemma length_word_bytes [simp]: "length (word_bytes n v) = n"
  by (simp add: word_bytes_def)

lemma word_bytes_inject:
  fixes v w :: "'a::len word"
  assumes "word_bytes n v = word_bytes n w" "LENGTH('a) \<le> 8 * n"
  shows "v = w"
proof (rule bit_word_eqI)
  fix k assume k: "k < LENGTH('a)"
  have b: "(ucast (drop_bit (8 * (k div 8)) x) :: u8) = word_bytes n x ! (k div 8)" for x :: "'a word"
  proof -
    have "k div 8 < n" using k assms(2) by (simp add: less_mult_imp_div_less mult.commute)
    then show ?thesis by (simp add: word_bytes_def)
  qed
  have "bit x k = bit (ucast (drop_bit (8 * (k div 8)) x) :: u8) (k mod 8)" for x :: "'a word"
    using k by (simp add: bit_simps)
  then show "bit v k = bit w k" by (simp only: b assms(1))
qed

lemma string_bytes_inject: "string_bytes s = string_bytes t \<longleftrightarrow> s = t"
proof -
  have "inj (\<lambda>c. of_nat (of_char c) :: u8)"
  proof (rule injI)
    fix c d :: char assume eq: "(of_nat (of_char c) :: u8) = of_nat (of_char d)"
    have "(of_char e :: nat) mod 256 = of_char e" for e by (rule of_char_mod_256)
    then have "unat (of_nat (of_char e) :: u8) = of_char e" for e by (simp add: unat_of_nat)
    then have "(of_char c :: nat) = of_char d" using eq by metis
    then show "c = d" by (simp add: inj_of_char [THEN inj_eq])
  qed
  then show ?thesis by (simp add: string_bytes_def inj_map_eq_map)
qed

text \<open>Different prefixes, identifiers, hash functions or bins are hashed as different strings.\<close>
lemma prefix_key_bytes_inject:
  assumes "prefix_key_bytes s x k i = prefix_key_bytes t y l j" "k < 2 ^ 64" "l < 2 ^ 64" "i < 2 ^ 64" "j < 2 ^ 64"
  shows "s = t \<and> x = y \<and> k = l \<and> i = j"
proof -
  have eq: "string_bytes s = string_bytes t" "word_bytes 16 x = word_bytes 16 y"
    "word_bytes 8 (of_nat k :: u64) = word_bytes 8 (of_nat l :: u64)"
    "word_bytes 8 (of_nat i :: u64) = word_bytes 8 (of_nat j :: u64)"
    using assms(1) unfolding prefix_key_bytes_def append_assoc [symmetric]
    by (auto simp: append_eq_append_conv)
  have "(of_nat k :: u64) = of_nat l" "(of_nat i :: u64) = of_nat j" "x = y"
    using eq by (auto intro: word_bytes_inject)
  moreover have "unat (of_nat n :: u64) = n" if "n < 2 ^ 64" for n using that by (simp add: unat_of_nat)
  ultimately have "k = l" "i = j" "x = y" using assms(2-5) by metis+
  then show ?thesis using eq(1) by (simp add: string_bytes_inject)
qed

lemma length_padding_blocks: "length (padding_blocks prng vals count) = max count (length vals)"
  by (simp add: padding_blocks_def)

lemma nth_padding_blocks: "j < length vals \<Longrightarrow> padding_blocks prng vals count ! j = vals ! j"
  by (simp add: padding_blocks_def nth_append)

lemma padding_entry:
  assumes "(k, v) \<in> set entries" "length entries \<le> count"
  shows "\<exists>j < count. padding_blocks f (map fst entries) count ! j = k \<and> padding_blocks g (map snd entries) count ! j = v"
proof -
  obtain j where j: "j < length entries" "entries ! j = (k, v)" using assms(1) by (auto simp: in_set_conv_nth)
  have "padding_blocks f (map fst entries) count ! j = map fst entries ! j"
    "padding_blocks g (map snd entries) count ! j = map snd entries ! j"
    using j(1) by (simp_all only: nth_padding_blocks length_map)
  moreover have "map fst entries ! j = k" "map snd entries ! j = v" using j by simp_all
  moreover have "j < count" using j(1) assms(2) by (rule less_le_trans)
  ultimately show ?thesis by metis
qed

lemma opprf_call_eq: "opprf_call ss m (length qs) (length keys) keys vals qs (length qs) = opprf_run ss m keys vals qs"
  by (simp add: opprf_call_def opprf_run_def)

lemma length_repeat_values: "length (repeat_values w vals) = w * length vals"
  by (induction vals) (simp_all add: repeat_values_def)

lemma nth_repeat_values:
  assumes "i < length vals" "j < w"
  shows "repeat_values w vals ! (w * i + j) = vals ! i"
proof -
  have "map (replicate w) vals = map (\<lambda>i. replicate w (vals ! i)) [0..<length vals]"
    by (rule nth_equalityI) simp_all
  then have "repeat_values w vals = concat (map (\<lambda>i. replicate w (vals ! i)) [0..<length vals])"
    by (simp only: repeat_values_def)
  then show ?thesis using assms nth_concat_map [of "length vals" "\<lambda>i. replicate w (vals ! i)" w i j] by simp
qed

lemma nth_dim_slice: "B * d + i < length vals \<Longrightarrow> i < B \<Longrightarrow> dim_slice B vals d ! i = vals ! (B * d + i)"
  by (simp add: dim_slice_def)

lemma length_dim_slice: "length vals = B * D \<Longrightarrow> d < D \<Longrightarrow> length (dim_slice B vals d) = B"
proof -
  assume "length vals = B * D" "d < D"
  moreover have "B * Suc d \<le> B * D" using \<open>d < D\<close> by (intro mult_le_mono2) simp
  ultimately show ?thesis by (simp add: dim_slice_def)
qed

lemma xor_columns_cong:
  assumes "\<And>j. j < D \<Longrightarrow> xs ! j ! i = ys ! j ! i" "i < B"
  shows "xor_columns D B xs ! i = xor_columns D B ys ! i"
  using assms by (auto simp: xor_columns_def intro!: fold_cong)

lemma two_hop_ok:
  fixes entries pk pv size qs s1
  defines "keys \<equiv> padding_blocks pk (map fst entries) size"
    and "vals \<equiv> padding_blocks pv (map snd entries) size"
  assumes len: "length entries \<le> size" "length qs = w * B" "length a = B" "length r = B"
    and rows: "\<forall>v \<in> set r. is_row m v"
    and ok1: "opprf_session_ok s1 16 keys qs"
    and ok2: "\<And>us. opprf_run s1 16 keys vals qs = Inr us \<Longrightarrow> opprf_session_ok s2 m us a"
  shows "\<exists>rr. two_hop s1 s2 m w size B entries pk pv qs a r = Inr rr \<and> length rr = B \<and>
    (\<forall>i < B. \<forall>j < w. (qs ! (w * i + j), a ! i) \<in> set entries \<longrightarrow> rr ! i = r ! i)"
proof -
  have l: "length keys = size" "length vals = length keys" using len(1) by (simp_all add: keys_def vals_def length_padding_blocks)
  have rows16: "\<forall>v \<in> set x. is_row 16 v" for x by simp
  obtain us where us: "opprf_run s1 16 keys vals qs = Inr us" "length us = length qs"
    using opprf.run_length [OF ok1 l(2) rows16] by blast
  let ?r = "repeat_values w r"
  have lr: "length ?r = length us" using us(2) len(2,4) by (simp add: length_repeat_values)
  have rows2: "\<forall>v \<in> set ?r. is_row m v" using rows by (auto simp: repeat_values_def)
  obtain rr where rr: "opprf_run s2 m us ?r a = Inr rr" "length rr = length a"
    using opprf.run_length [OF ok2 [OF us(1)] lr rows2] by blast
  have "two_hop s1 s2 m w size B entries pk pv qs a r = Inr rr"
    using us rr len(2,3) l opprf_call_eq [of s1 16 qs keys vals] opprf_call_eq [of s2 m a us ?r]
    by (simp add: two_hop_def Let_def flip: keys_def vals_def)
  moreover have "rr ! i = r ! i" if i: "i < B" "j < w" and e: "(qs ! (w * i + j), a ! i) \<in> set entries" for i j
  proof -
    have "w * i + j < w * Suc i" using i(2) by simp
    also have "\<dots> \<le> w * B" using i(1) by (intro mult_le_mono2) simp
    finally have q: "w * i + j < length qs" using len(2) by simp
    obtain x where x: "x < size" "keys ! x = qs ! (w * i + j)" "vals ! x = a ! i"
      using padding_entry [OF e len(1)] by (auto simp: keys_def vals_def)
    have "us ! (w * i + j) = a ! i"
      using opprf.run_programmed [OF ok1 l(2) rows16 us(1) q, of x] x l by simp
    then have "rr ! i = ?r ! (w * i + j)"
      using opprf.run_programmed [OF ok2 [OF us(1)] lr rows2 rr(1), of i "w * i + j"] i(1) len(3) q us(2) by simp
    also have "\<dots> = r ! i" using nth_repeat_values [of i r j w] i len(4) by simp
    finally show ?thesis .
  qed
  ultimately show ?thesis using rr(2) len(3) by auto
qed

section \<open>Lists of lists\<close>

lemma rmap_concat_mapR:
  "(\<And>x. x \<in> set xs \<Longrightarrow> f x = Inr (g x)) \<Longrightarrow> rmap concat (mapR f xs) = Inr (concat (map g xs))"
  by (simp add: mapR_Inr)

lemma length_xor_columns [simp]: "length (xor_columns D B xs) = B"
  by (simp add: xor_columns_def)

section \<open>Tables and decompositions\<close>

text \<open>A right cuckoo table: every item is in the bin of one of its hash functions.\<close>
definition cuckoo_ok :: "(block \<Rightarrow> nat list) \<Rightarrow> block list \<Rightarrow> cuckoo \<Rightarrow> bool" where
  "cuckoo_ok loc ids bins \<longleftrightarrow>
     (\<forall>i < length bins. case bins ! i of None \<Rightarrow> True | Some (idx, k) \<Rightarrow>
        idx < length ids \<and> k < 3 \<and> loc (ids ! idx) ! k = i) \<and>
     (\<forall>idx < length ids. \<exists>i < length bins. \<exists>k. bins ! i = Some (idx, k))"

lemma cuckoo_okD:
  "cuckoo_ok loc ids bins \<Longrightarrow> i < length bins \<Longrightarrow> bins ! i = Some (idx, k) \<Longrightarrow>
   idx < length ids \<and> k < 3 \<and> loc (ids ! idx) ! k = i"
  by (auto simp: cuckoo_ok_def)

lemma row_interval:
  assumes "row_ok t (u, b)" "unat y = unat x + (t - 1)"
  obtains D p where "set_dec x y u = Inr D" "length D \<le> b" "set_prefix v u = Inr p" "length p = card u"
    "x \<le> v \<Longrightarrow> v \<le> y \<Longrightarrow> \<exists>s. s \<in> set p \<and> s \<in> set D"
proof -
  have t: "1 < t" "t < 2 ^ 31" "finite u" "0 \<in> u" "u \<subseteq> {..64}" using assms(1) by (auto simp: row_ok_def)
  have le: "x \<le> y" "x < y" "unat y - unat x + 1 = t" using assms(2) t by (simp_all add: word_le_nat_alt word_less_nat_alt)
  obtain D p where D: "set_dec x y u = Inr D" "set_prefix v u = Inr p"
    "length (filter (\<lambda>t. t \<in> set p) D) = (if x \<le> v \<and> v \<le> y then 1 else 0)"
    using prefix_hits [OF t(3,4,5) le(1), of v] le(3) t(2) by auto
  have "length D \<le> b"
    using set_dec_length_bounded [of t "(u, b)" x y D] assms(1) t le D(1) by (simp add: row_ok_def)
  moreover have "length p = card u" using D(2) set_prefix_ok [OF t(3,5), of v] by auto
  moreover have "\<exists>s. s \<in> set p \<and> s \<in> set D" if "x \<le> v" "v \<le> y"
  proof -
    have "filter (\<lambda>t. t \<in> set p) D \<noteq> []" using D(3) that by auto
    then show ?thesis by (auto simp: filter_empty_conv)
  qed
  ultimately show ?thesis using D that by blast
qed

end
