(* ===== verification/Fpsi_Linf.thy ===== *)
theory Fpsi_Linf
  imports Fmat
begin

text \<open>
  The matching of points for the maximum norm, \<open>mp_ssFMat_linf_sh\<close> and
  \<open>mp_ssFMat_linf\<close> of fpsi_recv.cpp and fpsi_sender.cpp: in every dimension the
  receiver programs the prefixes of its intervals, the sender looks up the
  prefixes of its values, and a second programmed function turns a hit into equal
  elements; the sums over the dimensions go to the equality test.
\<close>

section \<open>Parameters and data of the parties\<close>

record fpsi_params =
  DIM :: nat
  DELTA :: u64
  METRIC :: nat
  SIDE_LEN :: u64
  BLK_CELLS :: nat
  DELTA_L2 :: u64

record recv_data =
  rd_pts :: "pt list"
  rd_ids :: "block list"
  rd_locations :: "nat list list"
  rd_bins_num :: nat

record send_data =
  sd_pts :: "pt list"
  sd_ids :: "block list"
  sd_bins :: cuckoo

section \<open>The receiver's lists\<close>

text \<open>
  Step 1 of \<open>mp_ssFMat_linf_sh\<close>: every point, cell, hash function and prefix, in
  this order; the identifiers of the cells of point \<open>i\<close> start at \<open>i * BLK_CELLS\<close>.
\<close>
definition linf_list_sh ::
  "(u8 list \<Rightarrow> block) \<Rightarrow> fpsi_params \<Rightarrow> nat set \<Rightarrow> recv_data \<Rightarrow> block list \<Rightarrow> nat \<Rightarrow> (block \<times> block) list result" where
  "linf_list_sh blake3 prm u rd a_random dim_index =
     rmap concat (mapR (\<lambda>i.
       let x = rd_pts rd ! i ! dim_index in
       rmap (\<lambda>prefixs. concat (map (\<lambda>idx.
         let id_idx = i * BLK_CELLS prm + idx in
         concat (map (\<lambda>k.
           let bin_idx = rd_locations rd ! id_idx ! k in
           map (\<lambda>prefix. (prefix_key blake3 prefix (rd_ids rd ! id_idx) k bin_idx,
                          a_random ! (dim_index * rd_bins_num rd + bin_idx))) prefixs)
         [0..<3])) [0..<BLK_CELLS prm]))
       (set_dec (x - DELTA prm) (x + DELTA prm) u)) [0..<length (rd_pts rd)])"

text \<open>Step 1 of \<open>mp_ssFMat_linf\<close>: one identifier per point, the prefixes outside the hash functions.\<close>
definition linf_list ::
  "(u8 list \<Rightarrow> block) \<Rightarrow> fpsi_params \<Rightarrow> nat set \<Rightarrow> recv_data \<Rightarrow> block list \<Rightarrow> nat \<Rightarrow> (block \<times> block) list result" where
  "linf_list blake3 prm u rd a_random dim_index =
     rmap concat (mapR (\<lambda>i.
       let x = rd_pts rd ! i ! dim_index in
       rmap (\<lambda>prefixs. concat (map (\<lambda>prefix. map (\<lambda>k.
         let bin_idx = rd_locations rd ! i ! k in
         (prefix_key blake3 prefix (rd_ids rd ! i) k bin_idx, a_random ! (dim_index * rd_bins_num rd + bin_idx)))
         [0..<3]) prefixs))
       (set_dec (x - DELTA prm) (x + DELTA prm) u)) [0..<length (rd_pts rd)])"

section \<open>The sender's queries\<close>

text \<open>Step 2: random keys for an empty bin, the keys of the prefixes of the point otherwise.\<close>
definition linf_queries ::
  "(u8 list \<Rightarrow> block) \<Rightarrow> (nat \<Rightarrow> block) \<Rightarrow> nat set \<Rightarrow> send_data \<Rightarrow> nat \<Rightarrow> block list result" where
  "linf_queries blake3 prng u sd dim_index =
     rmap concat (mapR (\<lambda>i. case sd_bins sd ! i of
         None \<Rightarrow> Inr (map (\<lambda>j. prng (i * card u + j)) [0..<card u])
       | Some (idx, hash_idx) \<Rightarrow>
           rmap (map (\<lambda>prefix. prefix_key blake3 prefix (sd_ids sd ! idx) hash_idx i))
             (set_prefix (sd_pts sd ! idx ! dim_index) u))
       [0..<length (sd_bins sd)])"

section \<open>The threads and the equality test\<close>

text \<open>Steps 3 and 4 of a thread: the two programmable functions; the result is \<open>rr_vals[dim_index]\<close>.\<close>
definition linf_thread ::
  "fmat_env \<Rightarrow> nat \<Rightarrow> nat \<Rightarrow> nat \<Rightarrow> (block \<times> block) list \<Rightarrow> block list \<Rightarrow> block list \<Rightarrow> block list \<Rightarrow> nat \<Rightarrow>
   block list result" where
  "linf_thread env prefix_size opprf_size bins_num entries queries a_random r_vals dim_index =
     two_hop (fe_step3 env dim_index) (fe_step4 env dim_index) 16 prefix_size opprf_size bins_num
       entries (fe_pad_keys env dim_index) (fe_pad_vals env dim_index) queries
       (dim_slice bins_num a_random dim_index) (dim_slice bins_num r_vals dim_index)"

text \<open>
  Both parties for one way \<open>lst\<close> of making the receiver's lists, with \<open>cells\<close>
  identifiers per point: the shares of the equality test.
\<close>
definition linf_fmat ::
  "(nat set \<Rightarrow> recv_data \<Rightarrow> block list \<Rightarrow> nat \<Rightarrow> (block \<times> block) list result) \<Rightarrow> nat \<Rightarrow> fmat_env \<Rightarrow> fpsi_params \<Rightarrow>
   recv_data \<Rightarrow> send_data \<Rightarrow> block list \<Rightarrow> block list \<Rightarrow> (bool list \<times> bool list) result" where
  "linf_fmat lst cells env prm rd sd a_random r_vals =
     rbind (getSelectedParam linf_table (2 * DELTA prm + 1)) (\<lambda>(u, bound).
     let bins_num = rd_bins_num rd;
         opprf_size = bound * (length (rd_pts rd) * cells) * 3
     in rbind (mapR (\<lambda>d.
            rbind (lst u rd a_random d) (\<lambda>entries.
            rbind (linf_queries (fe_blake3 env) (fe_empty env d) u sd d) (\<lambda>queries.
            linf_thread env (card u) opprf_size bins_num entries queries a_random r_vals d)))
          [0..<DIM prm]) (\<lambda>rr_vals.
        Inr (batch_peqt (fe_log2ceil env) (fe_t0 env) (fe_t1 env)
          (xor_columns (DIM prm) bins_num rr_vals)
          (xor_columns (DIM prm) bins_num (map (dim_slice bins_num r_vals) [0..<DIM prm])))))"

definition mp_ssFMat_linf_sh ::
  "fmat_env \<Rightarrow> fpsi_params \<Rightarrow> recv_data \<Rightarrow> send_data \<Rightarrow> block list \<Rightarrow> block list \<Rightarrow> (bool list \<times> bool list) result" where
  "mp_ssFMat_linf_sh env prm = linf_fmat (linf_list_sh (fe_blake3 env) prm) (BLK_CELLS prm) env prm"

definition mp_ssFMat_linf ::
  "fmat_env \<Rightarrow> fpsi_params \<Rightarrow> recv_data \<Rightarrow> send_data \<Rightarrow> block list \<Rightarrow> block list \<Rightarrow> (bool list \<times> bool list) result" where
  "mp_ssFMat_linf env prm = linf_fmat (linf_list (fe_blake3 env) prm) 1 env prm"

section \<open>What the lists contain\<close>

text \<open>The interval of the coordinate does not wrap around.\<close>
definition margin_ok :: "u64 \<Rightarrow> u64 \<Rightarrow> bool" where
  "margin_ok delta x \<longleftrightarrow> unat delta \<le> unat x \<and> unat x + unat delta < 2 ^ 64"

definition near :: "u64 \<Rightarrow> u64 \<Rightarrow> u64 \<Rightarrow> bool" where
  "near delta x y \<longleftrightarrow> \<bar>int (unat x) - int (unat y)\<bar> \<le> int (unat delta)"

text \<open>The receiver's side is well formed, with \<open>cells\<close> identifiers per point.\<close>
definition recv_ok :: "(block \<Rightarrow> nat list) \<Rightarrow> nat \<Rightarrow> fpsi_params \<Rightarrow> recv_data \<Rightarrow> bool" where
  "recv_ok loc cells prm rd \<longleftrightarrow>
     length (rd_ids rd) = length (rd_pts rd) * cells \<and>
     rd_locations rd = map loc (rd_ids rd) \<and>
     (\<forall>x \<in> set (rd_pts rd). length x = DIM prm \<and> (\<forall>v \<in> set x. margin_ok (DELTA prm) v))"

lemma near_interval:
  assumes "margin_ok delta x"
  shows "unat (x + delta) = unat (x - delta) + (2 * unat delta + 1 - 1)"
    and "near delta x y \<longleftrightarrow> x - delta \<le> y \<and> y \<le> x + delta"
proof -
  have "unat (x - delta) = unat x - unat delta" "unat (x + delta) = unat x + unat delta"
    using assms by (auto simp: margin_ok_def unat_sub_le word_le_nat_alt unat_add_le intro: unat_plus_simple [THEN iffD1])
  moreover have "unat delta \<le> unat x" using assms by (simp add: margin_ok_def)
  ultimately show "unat (x + delta) = unat (x - delta) + (2 * unat delta + 1 - 1)"
    "near delta x y \<longleftrightarrow> x - delta \<le> y \<and> y \<le> x + delta"
    unfolding near_def word_le_nat_alt by linarith+
qed

text \<open>The decomposition of the interval of a coordinate.\<close>
definition interval_dec :: "u64 \<Rightarrow> nat set \<Rightarrow> u64 \<Rightarrow> string list" where
  "interval_dec delta u x = projr (set_dec (x - delta) (x + delta) u)"

lemma interval_dec:
  assumes "row_ok (2 * unat delta + 1) (u, b)" "margin_ok delta x"
  shows "set_dec (x - delta) (x + delta) u = Inr (interval_dec delta u x)"
    and "length (interval_dec delta u x) \<le> b"
    and "near delta x v \<Longrightarrow> set_prefix v u = Inr p \<Longrightarrow> \<exists>s \<in> set p. s \<in> set (interval_dec delta u x)"
proof -
  obtain D q where D: "set_dec (x - delta) (x + delta) u = Inr D" "length D \<le> b" "set_prefix v u = Inr q"
    "x - delta \<le> v \<Longrightarrow> v \<le> x + delta \<Longrightarrow> \<exists>s. s \<in> set q \<and> s \<in> set D"
    using row_interval [OF assms(1) near_interval(1) [OF assms(2)], of v] by metis
  show "set_dec (x - delta) (x + delta) u = Inr (interval_dec delta u x)"
    "length (interval_dec delta u x) \<le> b" using D(1,2) by (simp_all add: interval_dec_def)
  show "\<exists>s \<in> set p. s \<in> set (interval_dec delta u x)" if "near delta x v" "set_prefix v u = Inr p"
    using D that near_interval(2) [OF assms(2), of v] by (auto simp: interval_dec_def)
qed

section \<open>The interface of the receiver's lists\<close>

text \<open>
  A way of making the lists is right if it never fails, fits in the reserved
  size, and has, for every point, identifier and hash function, an entry under
  one of the prefixes of every value near the coordinate.
\<close>
locale linf_lists =
  fixes lst :: "(u8 list \<Rightarrow> block) \<Rightarrow> fpsi_params \<Rightarrow> nat set \<Rightarrow> recv_data \<Rightarrow> block list \<Rightarrow> nat \<Rightarrow> (block \<times> block) list result"
    and cells :: "fpsi_params \<Rightarrow> nat"
  assumes lst_ok: "row_ok (2 * unat (DELTA prm) + 1) (u, b) \<Longrightarrow> recv_ok loc (cells prm) prm rd \<Longrightarrow> d < DIM prm \<Longrightarrow>
    \<exists>entries. lst blake3 prm u rd a d = Inr entries \<and>
      length entries \<le> b * (length (rd_pts rd) * cells prm) * 3 \<and>
      (\<forall>i < length (rd_pts rd). \<forall>c < cells prm. \<forall>k < 3. \<forall>v p.
         near (DELTA prm) (rd_pts rd ! i ! d) v \<and> set_prefix v u = Inr p \<longrightarrow>
         (\<exists>s \<in> set p. let e = i * cells prm + c; bin = rd_locations rd ! e ! k in
            (prefix_key blake3 s (rd_ids rd ! e) k bin, a ! (d * rd_bins_num rd + bin)) \<in> set entries))"

lemma recv_ok_margin:
  "recv_ok loc cells prm rd \<Longrightarrow> i < length (rd_pts rd) \<Longrightarrow> d < DIM prm \<Longrightarrow> margin_ok (DELTA prm) (rd_pts rd ! i ! d)"
  unfolding recv_ok_def by (metis nth_mem)

interpretation linf_sh: linf_lists linf_list_sh BLK_CELLS
proof
  fix prm :: fpsi_params and u b loc rd d blake3 and a :: "block list"
  assume row: "row_ok (2 * unat (DELTA prm) + 1) (u, b)" and ok: "recv_ok loc (BLK_CELLS prm) prm rd" and d: "d < DIM prm"
  define D where "D i = interval_dec (DELTA prm) u (rd_pts rd ! i ! d)" for i
  define f where "f i idx k = map (\<lambda>prefix. (prefix_key blake3 prefix (rd_ids rd ! (i * BLK_CELLS prm + idx)) k
      (rd_locations rd ! (i * BLK_CELLS prm + idx) ! k),
    a ! (d * rd_bins_num rd + rd_locations rd ! (i * BLK_CELLS prm + idx) ! k))) (D i)" for i idx k
  define es where "es = concat (map (\<lambda>i. concat (map (\<lambda>idx. concat (map (f i idx) [0..<3])) [0..<BLK_CELLS prm])) [0..<length (rd_pts rd)])"
  note dec = interval_dec [OF row recv_ok_margin [OF ok _ d], folded D_def]
  have "linf_list_sh blake3 prm u rd a d = Inr es"
    unfolding linf_list_sh_def es_def
    by (rule rmap_concat_mapR) (simp add: Let_def dec(1) f_def [abs_def])
  moreover have len: "length es \<le> length (rd_pts rd) * (BLK_CELLS prm * (3 * b))"
  proof -
    have "length (concat (map (f i idx) [0..<3])) \<le> 3 * b" if "i < length (rd_pts rd)" for i idx
      using length_concat_le [of "[0..<3]" "f i idx" b] dec(2) [OF that] by (simp add: f_def)
    then have "length (concat (map (\<lambda>idx. concat (map (f i idx) [0..<3])) [0..<BLK_CELLS prm])) \<le> BLK_CELLS prm * (3 * b)"
      if "i < length (rd_pts rd)" for i
      using length_concat_le [of "[0..<BLK_CELLS prm]" "\<lambda>idx. concat (map (f i idx) [0..<3])" "3 * b"] that by simp
    then show ?thesis
      unfolding es_def by (rule length_concat_upt)
  qed
  moreover have entry: "\<exists>s \<in> set p. (let e = i * BLK_CELLS prm + c; bin = rd_locations rd ! e ! k in
      (prefix_key blake3 s (rd_ids rd ! e) k bin, a ! (d * rd_bins_num rd + bin)) \<in> set es)"
    if prem: "i < length (rd_pts rd)" "c < BLK_CELLS prm" "k < 3" "near (DELTA prm) (rd_pts rd ! i ! d) v"
      "set_prefix v u = Inr p" for i c k v p
  proof -
    obtain s where "s \<in> set p" "s \<in> set (D i)" using dec(3) [OF prem(1,4,5)] by blast
    moreover from this have "(prefix_key blake3 s (rd_ids rd ! (i * BLK_CELLS prm + c)) k
        (rd_locations rd ! (i * BLK_CELLS prm + c) ! k),
      a ! (d * rd_bins_num rd + rd_locations rd ! (i * BLK_CELLS prm + c) ! k)) \<in> set (f i c k)"
      by (simp add: f_def)
    moreover have "set (f i c k) \<subseteq> set es"
      unfolding es_def set_concat set_map using prem(1-3) by fastforce
    ultimately show ?thesis unfolding Let_def by blast
  qed
  moreover have "length es \<le> b * (length (rd_pts rd) * BLK_CELLS prm) * 3" using len by (simp add: ac_simps)
  ultimately show "\<exists>entries. linf_list_sh blake3 prm u rd a d = Inr entries \<and>
      length entries \<le> b * (length (rd_pts rd) * BLK_CELLS prm) * 3 \<and>
      (\<forall>i < length (rd_pts rd). \<forall>c < BLK_CELLS prm. \<forall>k < 3. \<forall>v p.
         near (DELTA prm) (rd_pts rd ! i ! d) v \<and> set_prefix v u = Inr p \<longrightarrow>
         (\<exists>s \<in> set p. let e = i * BLK_CELLS prm + c; bin = rd_locations rd ! e ! k in
            (prefix_key blake3 s (rd_ids rd ! e) k bin, a ! (d * rd_bins_num rd + bin)) \<in> set entries))"
    by blast
qed


interpretation linf_cmp: linf_lists linf_list "\<lambda>_. 1"
proof
  fix prm :: fpsi_params and u b loc rd d blake3 and a :: "block list"
  assume row: "row_ok (2 * unat (DELTA prm) + 1) (u, b)" and ok: "recv_ok loc 1 prm rd" and d: "d < DIM prm"
  define D where "D i = interval_dec (DELTA prm) u (rd_pts rd ! i ! d)" for i
  define f where "f i prefix = map (\<lambda>k. (prefix_key blake3 prefix (rd_ids rd ! i) k (rd_locations rd ! i ! k),
    a ! (d * rd_bins_num rd + rd_locations rd ! i ! k))) [0..<3]" for i prefix
  define es where "es = concat (map (\<lambda>i. concat (map (f i) (D i))) [0..<length (rd_pts rd)])"
  note dec = interval_dec [OF row recv_ok_margin [OF ok _ d], folded D_def]
  have "linf_list blake3 prm u rd a d = Inr es"
    unfolding linf_list_def es_def
    by (rule rmap_concat_mapR) (simp add: Let_def dec(1) f_def [abs_def])
  moreover have len: "length es \<le> length (rd_pts rd) * (b * 3)"
  proof -
    have "length (concat (map (f i) (D i))) \<le> b * 3" if "i < length (rd_pts rd)" for i
      using length_concat_le [of "D i" "f i" 3] dec(2) [OF that] by (simp add: f_def)
    then show ?thesis
      unfolding es_def by (rule length_concat_upt)
  qed
  moreover have "\<exists>s \<in> set p. (let e = i * 1 + c; bin = rd_locations rd ! e ! k in
      (prefix_key blake3 s (rd_ids rd ! e) k bin, a ! (d * rd_bins_num rd + bin)) \<in> set es)"
    if prem: "i < length (rd_pts rd)" "c < 1" "k < 3" "near (DELTA prm) (rd_pts rd ! i ! d) v"
      "set_prefix v u = Inr p" for i c k v p
  proof -
    obtain s where "s \<in> set p" "s \<in> set (D i)" using dec(3) [OF prem(1,4,5)] by blast
    moreover have "(prefix_key blake3 s (rd_ids rd ! i) k (rd_locations rd ! i ! k),
      a ! (d * rd_bins_num rd + rd_locations rd ! i ! k)) \<in> set (f i s)"
      using prem(3) by (auto simp: f_def)
    moreover from this have "set (f i s) \<subseteq> set es"
      unfolding es_def set_concat set_map using prem(1) \<open>s \<in> set (D i)\<close> by fastforce
    moreover have "i * 1 + c = i" using prem(2) by simp
    ultimately have "(prefix_key blake3 s (rd_ids rd ! (i * 1 + c)) k (rd_locations rd ! (i * 1 + c) ! k),
      a ! (d * rd_bins_num rd + rd_locations rd ! (i * 1 + c) ! k)) \<in> set es" by auto
    then show ?thesis unfolding Let_def using \<open>s \<in> set p\<close> by blast
  qed
  moreover have "length es \<le> b * (length (rd_pts rd) * 1) * 3" using len by (simp add: ac_simps)
  ultimately show "\<exists>entries. linf_list blake3 prm u rd a d = Inr entries \<and>
      length entries \<le> b * (length (rd_pts rd) * 1) * 3 \<and>
      (\<forall>i < length (rd_pts rd). \<forall>c < 1. \<forall>k < 3. \<forall>v p.
         near (DELTA prm) (rd_pts rd ! i ! d) v \<and> set_prefix v u = Inr p \<longrightarrow>
         (\<exists>s \<in> set p. let e = i * 1 + c; bin = rd_locations rd ! e ! k in
            (prefix_key blake3 s (rd_ids rd ! e) k bin, a ! (d * rd_bins_num rd + bin)) \<in> set entries))"
    by blast
qed

section \<open>Hits become equal elements\<close>

lemma linf_queries_ok:
  assumes "row_ok t (u, b)"
  shows "\<exists>qs. linf_queries blake3 prng u sd d = Inr qs \<and> length qs = card u * length (sd_bins sd) \<and>
    (\<forall>i < length (sd_bins sd). \<forall>idx k p s. sd_bins sd ! i = Some (idx, k) \<and>
       set_prefix (sd_pts sd ! idx ! d) u = Inr p \<and> s \<in> set p \<longrightarrow>
       (\<exists>j < card u. qs ! (card u * i + j) = prefix_key blake3 s (sd_ids sd ! idx) k i))"
proof -
  have u: "finite u" "u \<subseteq> {..64}" using assms by (auto simp: row_ok_def)
  define P where "P v = map (\<lambda>i. to_binary_string v (64 - i)) (sorted_list_of_set u)" for v
  have P: "set_prefix v u = Inr (P v)" "length (P v) = card u" for v
    using set_prefix_ok [OF u, of v] by (simp_all add: P_def)
  define g where "g i = (case sd_bins sd ! i of
         None \<Rightarrow> map (\<lambda>j. prng (i * card u + j)) [0..<card u]
       | Some (idx, hash_idx) \<Rightarrow>
           map (\<lambda>prefix. prefix_key blake3 prefix (sd_ids sd ! idx) hash_idx i) (P (sd_pts sd ! idx ! d)))" for i
  have g: "length (g i) = card u" for i by (simp add: g_def P split: option.split prod.split)
  have "linf_queries blake3 prng u sd d = Inr (concat (map g [0..<length (sd_bins sd)]))"
    unfolding linf_queries_def
    by (rule rmap_concat_mapR) (simp add: g_def P split: option.split prod.split)
  moreover have "length (concat (map g [0..<length (sd_bins sd)])) = card u * length (sd_bins sd)"
    by (simp add: length_concat o_def g sum_list_triv)
  moreover have "\<exists>j < card u. concat (map g [0..<length (sd_bins sd)]) ! (card u * i + j) =
      prefix_key blake3 s (sd_ids sd ! idx) k i"
    if "i < length (sd_bins sd)" "sd_bins sd ! i = Some (idx, k)" "set_prefix (sd_pts sd ! idx ! d) u = Inr p"
      "s \<in> set p" for i idx k p s
  proof -
    have "s \<in> set (P (sd_pts sd ! idx ! d))" using that(3,4) P(1) by simp
    then obtain j where j: "j < card u" "P (sd_pts sd ! idx ! d) ! j = s"
      by (metis P(2) in_set_conv_nth)
    then have "g i ! j = prefix_key blake3 s (sd_ids sd ! idx) k i" using that(2) P(2) by (simp add: g_def)
    moreover have "concat (map g [0..<length (sd_bins sd)]) ! (card u * i + j) = g i ! j"
      using g that(1) j(1) by (intro nth_concat_map)
    ultimately show ?thesis using j(1) by auto
  qed
  ultimately show ?thesis by blast
qed

text \<open>
  A thread: if the query of position \<open>card u * i + j\<close> is programmed to the random
  value of its bin, the receiver's element of that bin is the sender's.
\<close>
lemma linf_thread_ok:
  fixes env d w size B entries qs a r
  defines "keys \<equiv> padding_blocks (fe_pad_keys env d) (map fst entries) size"
    and "vals \<equiv> padding_blocks (fe_pad_vals env d) (map snd entries) size"
  assumes len: "length entries \<le> size" "length qs = w * B" "length a = B * D" "length r = B * D" "d < D"
    and ok3: "opprf_session_ok (fe_step3 env d) 16 keys qs"
    and ok4: "\<And>us. opprf_run (fe_step3 env d) 16 keys vals qs = Inr us \<Longrightarrow>
      opprf_session_ok (fe_step4 env d) 16 us (dim_slice B a d)"
  shows "\<exists>rr. linf_thread env w size B entries qs a r d = Inr rr \<and> length rr = B \<and>
    (\<forall>i < B. \<forall>j < w. (qs ! (w * i + j), a ! (B * d + i)) \<in> set entries \<longrightarrow> rr ! i = r ! (B * d + i))"
proof -
  have sl: "length (dim_slice B a d) = B" "length (dim_slice B r d) = B" using length_dim_slice len(3-5) by blast+
  have nth: "dim_slice B a d ! i = a ! (B * d + i)" "dim_slice B r d ! i = r ! (B * d + i)" if "i < B" for i
  proof -
    have "B * d + i < B * D" using that len(5)
      by (metis add_less_cancel_left less_le_trans mult_Suc_right mult_le_mono2 Suc_leI add.commute)
    then show "dim_slice B a d ! i = a ! (B * d + i)" "dim_slice B r d ! i = r ! (B * d + i)"
      using nth_dim_slice [of B d i a] nth_dim_slice [of B d i r] that len(3,4) by simp_all
  qed
  show ?thesis
    using two_hop_ok [OF len(1,2) sl _ ok3 [unfolded keys_def] ok4 [unfolded keys_def vals_def]] nth
    by (auto simp: linf_thread_def)
qed


section \<open>The shares of the equality test\<close>

text \<open>
  The sessions of a run are set up: for the keys, queries and values that the
  run itself produces.
\<close>
definition linf_sessions_ok ::
  "(nat set \<Rightarrow> recv_data \<Rightarrow> block list \<Rightarrow> nat \<Rightarrow> (block \<times> block) list result) \<Rightarrow> nat \<Rightarrow> fmat_env \<Rightarrow> fpsi_params \<Rightarrow>
   prefix_param \<Rightarrow> recv_data \<Rightarrow> send_data \<Rightarrow> block list \<Rightarrow> bool" where
  "linf_sessions_ok lst cells env prm param rd sd a \<longleftrightarrow>
     (\<forall>d < DIM prm. \<forall>entries qs.
        lst (fst param) rd a d = Inr entries \<and>
        linf_queries (fe_blake3 env) (fe_empty env d) (fst param) sd d = Inr qs \<longrightarrow>
        (let size = snd param * (length (rd_pts rd) * cells) * 3;
             keys = padding_blocks (fe_pad_keys env d) (map fst entries) size;
             vals = padding_blocks (fe_pad_vals env d) (map snd entries) size
         in opprf_session_ok (fe_step3 env d) 16 keys qs \<and>
            (\<forall>us. opprf_run (fe_step3 env d) 16 keys vals qs = Inr us \<longrightarrow>
               opprf_session_ok (fe_step4 env d) 16 us (dim_slice (rd_bins_num rd) a d))))"

text \<open>The sender's side fits the receiver's, and the test has enough triples.\<close>
definition send_ok :: "(block \<Rightarrow> nat list) \<Rightarrow> fpsi_params \<Rightarrow> recv_data \<Rightarrow> send_data \<Rightarrow> bool" where
  "send_ok loc prm rd sd \<longleftrightarrow>
     cuckoo_ok loc (sd_ids sd) (sd_bins sd) \<and> length (sd_bins sd) = rd_bins_num rd \<and>
     length (sd_pts sd) = length (sd_ids sd)"

definition peqt_ok :: "fmat_env \<Rightarrow> nat \<Rightarrow> nat \<Rightarrow> bool" where
  "peqt_ok env bits n \<longleftrightarrow> bits \<le> 2 ^ fe_log2ceil env bits \<and>
     curTriple (fe_t0 env) = 0 \<and> curTriple (fe_t1 env) = 0 \<and> good_triples (fe_t0 env) (fe_t1 env) (n * bits)"

text \<open>A point of the sender has the identifier of a point of the receiver that is near in every dimension.\<close>
definition linf_match :: "nat \<Rightarrow> fpsi_params \<Rightarrow> recv_data \<Rightarrow> send_data \<Rightarrow> nat \<Rightarrow> bool" where
  "linf_match cells prm rd sd idx \<longleftrightarrow>
     (\<exists>i < length (rd_pts rd). \<exists>c < cells. rd_ids rd ! (i * cells + c) = sd_ids sd ! idx \<and>
        (\<forall>d < DIM prm. near (DELTA prm) (rd_pts rd ! i ! d) (sd_pts sd ! idx ! d)))"

context linf_lists
begin

lemma entry_of_match:
  assumes "row_ok (2 * unat (DELTA prm) + 1) (u, b)" "recv_ok loc (cells prm) prm rd" "d < DIM prm"
    and "lst blake3 prm u rd a d = Inr entries"
    and "cuckoo_ok loc (sd_ids sd) (sd_bins sd)" "j < length (sd_bins sd)" "sd_bins sd ! j = Some (idx, k)"
    and "linf_match (cells prm) prm rd sd idx" "set_prefix (sd_pts sd ! idx ! d) u = Inr p"
  shows "\<exists>s \<in> set p. (prefix_key blake3 s (sd_ids sd ! idx) k j, a ! (d * rd_bins_num rd + j)) \<in> set entries"
proof -
  have ck: "k < 3" "loc (sd_ids sd ! idx) ! k = j" using cuckoo_okD [OF assms(5-7)] by auto
  obtain i c where m: "i < length (rd_pts rd)" "c < cells prm" "rd_ids rd ! (i * cells prm + c) = sd_ids sd ! idx"
    "near (DELTA prm) (rd_pts rd ! i ! d) (sd_pts sd ! idx ! d)"
    using assms(3,8) by (auto simp: linf_match_def)
  have "i * cells prm + c < Suc i * cells prm" using m(2) by simp
  also have "\<dots> \<le> length (rd_pts rd) * cells prm" using m(1) by (intro mult_le_mono1) simp
  finally have "i * cells prm + c < length (rd_ids rd)" "rd_locations rd = map loc (rd_ids rd)"
    using assms(2) by (simp_all add: recv_ok_def)
  then have l: "rd_locations rd ! (i * cells prm + c) ! k = j" using m(3) ck(2) by simp
  obtain es where es: "lst blake3 prm u rd a d = Inr es"
    "\<exists>s \<in> set p. let e = i * cells prm + c; bin = rd_locations rd ! e ! k in
       (prefix_key blake3 s (rd_ids rd ! e) k bin, a ! (d * rd_bins_num rd + bin)) \<in> set es"
    using lst_ok [OF assms(1-3), of blake3 a] m(1,2,4) ck(1) assms(9) by blast
  then show ?thesis using assms(4) l m(3) by (simp add: Let_def)
qed

lemma fmat_ok:
  assumes param: "getSelectedParam linf_table (2 * DELTA prm + 1) = Inr (u, b)" "unat (DELTA prm) < 2 ^ 63"
    and recv: "recv_ok loc (cells prm) prm rd" and send: "send_ok loc prm rd sd"
    and rnd: "length a = rd_bins_num rd * DIM prm" "length r = rd_bins_num rd * DIM prm"
    and ses: "linf_sessions_ok (lst (fe_blake3 env) prm) (cells prm) env prm (u, b) rd sd a"
    and peqt: "peqt_ok env 128 (rd_bins_num rd)"
  shows "\<exists>eR eS. linf_fmat (lst (fe_blake3 env) prm) (cells prm) env prm rd sd a r = Inr (eR, eS) \<and>
    length eR = rd_bins_num rd \<and> length eS = rd_bins_num rd \<and>
    (\<forall>j < rd_bins_num rd. \<forall>idx k. sd_bins sd ! j = Some (idx, k) \<and> linf_match (cells prm) prm rd sd idx \<longrightarrow>
       eR ! j \<noteq> eS ! j)"
proof -
  let ?B = "rd_bins_num rd" and ?size = "b * (length (rd_pts rd) * cells prm) * 3"
  have "unat (2 * DELTA prm + 1) = 2 * unat (DELTA prm) + 1"
    using param(2) by (simp add: unat_word_ariths)
  then have row: "row_ok (2 * unat (DELTA prm) + 1) (u, b)"
    using selected_row_ok [OF _ linf_rows_ok, of linf_table] param(1) by (metis linf_table_def)
  have bins: "length (sd_bins sd) = ?B" "cuckoo_ok loc (sd_ids sd) (sd_bins sd)" using send by (simp_all add: send_ok_def)
  define good where "good d rr \<longleftrightarrow> length rr = ?B \<and>
    (\<forall>j < ?B. \<forall>idx k. sd_bins sd ! j = Some (idx, k) \<and> linf_match (cells prm) prm rd sd idx \<longrightarrow> rr ! j = r ! (?B * d + j))"
    for d rr
  let ?thread = "\<lambda>d. rbind (lst (fe_blake3 env) prm u rd a d) (\<lambda>entries.
            rbind (linf_queries (fe_blake3 env) (fe_empty env d) u sd d) (\<lambda>queries.
            linf_thread env (card u) ?size ?B entries queries a r d))"
  have "\<exists>rr. ?thread d = Inr rr \<and> good d rr" if d: "d < DIM prm" for d
  proof -
    obtain entries where es: "lst (fe_blake3 env) prm u rd a d = Inr entries" "length entries \<le> ?size"
      using lst_ok [OF row recv d] by blast
    obtain qs where qs: "linf_queries (fe_blake3 env) (fe_empty env d) u sd d = Inr qs" "length qs = card u * ?B"
      "\<And>i idx k p s. i < ?B \<Longrightarrow> sd_bins sd ! i = Some (idx, k) \<Longrightarrow> set_prefix (sd_pts sd ! idx ! d) u = Inr p \<Longrightarrow>
         s \<in> set p \<Longrightarrow> \<exists>j < card u. qs ! (card u * i + j) = prefix_key (fe_blake3 env) s (sd_ids sd ! idx) k i"
      using linf_queries_ok [OF row, of "fe_blake3 env" "fe_empty env d" sd d] bins(1) by metis
    obtain rr where rr: "linf_thread env (card u) ?size ?B entries qs a r d = Inr rr" "length rr = ?B"
      "\<And>i j. i < ?B \<Longrightarrow> j < card u \<Longrightarrow> (qs ! (card u * i + j), a ! (?B * d + i)) \<in> set entries \<Longrightarrow> rr ! i = r ! (?B * d + i)"
      using linf_thread_ok [where env = env and d = d and w = "card u" and size = ?size and B = ?B and entries = entries
          and qs = qs and a = a and r = r and D = "DIM prm"] es qs(1,2) rnd d ses
      unfolding linf_sessions_ok_def Let_def by (fastforce simp: mult.commute)
    have "rr ! j = r ! (?B * d + j)"
      if j: "j < ?B" "sd_bins sd ! j = Some (idx, k)" "linf_match (cells prm) prm rd sd idx" for j idx k
    proof -
      obtain p where p: "set_prefix (sd_pts sd ! idx ! d) u = Inr p"
        using row set_prefix_ok [of u] by (auto simp: row_ok_def)
      obtain s where s: "s \<in> set p" "(prefix_key (fe_blake3 env) s (sd_ids sd ! idx) k j, a ! (?B * d + j)) \<in> set entries"
        using entry_of_match [OF row recv d es(1) bins(2) _ j(2,3) p] j(1) bins(1) by (auto simp: mult.commute)
      obtain q where "q < card u" "qs ! (card u * j + q) = prefix_key (fe_blake3 env) s (sd_ids sd ! idx) k j"
        using qs(3) [OF j(1,2) p s(1)] by blast
      then show ?thesis using rr(3) [OF j(1)] s(2) by simp
    qed
    then show ?thesis using es qs rr by (auto simp: good_def)
  qed
  then obtain rrs where rrs: "mapR ?thread [0..<DIM prm] = Inr rrs" "length rrs = DIM prm"
    "\<And>d. d < DIM prm \<Longrightarrow> good d (rrs ! d)"
    using mapR_upt [of "DIM prm" ?thread good] by blast
  let ?x = "xor_columns (DIM prm) ?B rrs" and ?y = "xor_columns (DIM prm) ?B (map (dim_slice ?B r) [0..<DIM prm])"
  obtain eR eS where e: "batch_peqt (fe_log2ceil env) (fe_t0 env) (fe_t1 env) ?x ?y = (eR, eS)"
    "length eR = ?B" "length eS = ?B" "\<And>j. j < ?B \<Longrightarrow> (eR ! j \<noteq> eS ! j) = (?x ! j = ?y ! j)"
    using batch_peqt_bits [of ?y ?x "fe_log2ceil env" "fe_t0 env" "fe_t1 env"] peqt by (fastforce simp: peqt_ok_def)
  have hits: "eR ! j \<noteq> eS ! j"
    if j: "j < ?B" "sd_bins sd ! j = Some (idx, k)" "linf_match (cells prm) prm rd sd idx" for j idx k
  proof -
    have "rrs ! d ! j = map (dim_slice ?B r) [0..<DIM prm] ! d ! j" if d: "d < DIM prm" for d
    proof -
      have "?B * d + j < ?B * Suc d" using j(1) by simp
      also have "\<dots> \<le> ?B * DIM prm" using d by (intro mult_le_mono2) simp
      finally show ?thesis
        using rrs(3) [OF d] j d nth_dim_slice [of ?B d j r] rnd(2) by (auto simp: good_def)
    qed
    then have "?x ! j = ?y ! j" using j(1) by (intro xor_columns_cong) auto
    then show ?thesis using e(4) j(1) by simp
  qed
  have "linf_fmat (lst (fe_blake3 env) prm) (cells prm) env prm rd sd a r = Inr (eR, eS)"
    using e(1) rrs(1) param(1) unfolding linf_fmat_def Let_def by simp
  then show ?thesis using e(2,3) hits by blast
qed

end

section \<open>Properties\<close>

text \<open>C24. Matching for the maximum norm over spatially mapped points: with a table entry for the
  radius, coordinates away from the ends of the range and sessions that are set up, the run
  succeeds, both parties get one share per bin, and the two shares of a bin differ whenever its
  item has the identifier of a cell of a receiver's point that is within the radius in every
  dimension.\<close>
theorem mp_ssFMat_linf_sh_complete:
  assumes "getSelectedParam linf_table (2 * DELTA prm + 1) = Inr (u, b)" "unat (DELTA prm) < 2 ^ 63"
    and "recv_ok loc (BLK_CELLS prm) prm rd" "send_ok loc prm rd sd"
    and "length a = rd_bins_num rd * DIM prm" "length r = rd_bins_num rd * DIM prm"
    and "linf_sessions_ok (linf_list_sh (fe_blake3 env) prm) (BLK_CELLS prm) env prm (u, b) rd sd a"
    and "peqt_ok env 128 (rd_bins_num rd)"
  shows "\<exists>eR eS. mp_ssFMat_linf_sh env prm rd sd a r = Inr (eR, eS) \<and>
    length eR = rd_bins_num rd \<and> length eS = rd_bins_num rd \<and>
    (\<forall>j < rd_bins_num rd. \<forall>idx k. sd_bins sd ! j = Some (idx, k) \<and> linf_match (BLK_CELLS prm) prm rd sd idx \<longrightarrow>
       eR ! j \<noteq> eS ! j)"
  unfolding mp_ssFMat_linf_sh_def by (rule linf_sh.fmat_ok [OF assms])

text \<open>C25. Matching for the maximum norm over grid mapped points, one identifier per point: the
  shares of a bin differ whenever its item has the identifier of a receiver's point that is within
  the radius in every dimension.\<close>
theorem mp_ssFMat_linf_complete:
  assumes "getSelectedParam linf_table (2 * DELTA prm + 1) = Inr (u, b)" "unat (DELTA prm) < 2 ^ 63"
    and "recv_ok loc 1 prm rd" "send_ok loc prm rd sd"
    and "length a = rd_bins_num rd * DIM prm" "length r = rd_bins_num rd * DIM prm"
    and "linf_sessions_ok (linf_list (fe_blake3 env) prm) 1 env prm (u, b) rd sd a"
    and "peqt_ok env 128 (rd_bins_num rd)"
  shows "\<exists>eR eS. mp_ssFMat_linf env prm rd sd a r = Inr (eR, eS) \<and>
    length eR = rd_bins_num rd \<and> length eS = rd_bins_num rd \<and>
    (\<forall>j < rd_bins_num rd. \<forall>idx k. sd_bins sd ! j = Some (idx, k) \<and> linf_match 1 prm rd sd idx \<longrightarrow>
       eR ! j \<noteq> eS ! j)"
  unfolding mp_ssFMat_linf_def by (rule linf_cmp.fmat_ok [OF assms])

end
