(* ===== verification/Ideal_Session.thy ===== *)
theory Ideal_Session
  imports Opprf
begin

text \<open>
  A concrete session that programs any list of keys whose low bits differ: rows of
  weight one, so that a key has a position of its own in the table.  It shows that
  the hypotheses on sessions can hold for the keys a protocol produces.
\<close>

definition slots :: nat where
  "slots = 2 ^ 32"

definition slot :: "block \<Rightarrow> nat" where
  "slot x = unat (ucast x :: u64) mod slots"

definition slot_table :: "(nat \<Rightarrow> block) \<Rightarrow> block list" where
  "slot_table f = map f [0..<slots] @ [0]"

definition slot_block :: "block \<Rightarrow> block" where
  "slot_block x = of_nat (slot x)"

definition ideal_crypto :: crypto where
  "ideal_crypto = \<lparr>gfMul = (AND), hash_fixed = slot_block, hash_keyed = (\<lambda>k. id), random_oracle = (\<lambda>x. [ucast x]),
     oc_log2ceil = (\<lambda>n. if n \<le> 256 then 8 else 64), oc_roundUpTo = (\<lambda>a b. (a + b - 1) div b * b)\<rparr>"

definition ideal_init :: "nat \<Rightarrow> dense_type \<Rightarrow> block \<Rightarrow> baxos" where
  "ideal_init n ty seed = \<lparr>bx_param = \<lparr>sparse_size = slots, dense_size = 1, weight = 1, dense_ty = Binary\<rparr>,
     bx_bins = 1, bx_seed = seed\<rparr>"

definition slot_lookup :: "block list \<Rightarrow> block list \<Rightarrow> nat \<Rightarrow> block" where
  "slot_lookup X vals i = (case map_of (zip (map slot X) vals) i of Some v \<Rightarrow> v | None \<Rightarrow> 0)"

definition ideal_session :: opprf_session where
  "ideal_session = \<lparr>os_crypto = ideal_crypto, os_init = ideal_init,
     os_solve = (\<lambda>_ _ _. Inr (slot_table of_nat)),
     os_solve_rand = (\<lambda>_ X diff. Inr (slot_table (slot_lookup X diff))),
     os_chunk = slots, os_malicious = False, os_threads = 1,
     os_oprf_seed = 0, os_seed = 0, os_ws = 0, os_wr = 0, os_D = 0,
     os_a = slot_table of_nat, os_b = slot_table of_nat, os_c = slot_table (\<lambda>_. 0)\<rparr>"

lemma length_slot_table [simp]: "length (slot_table f) = slots + 1"
  by (simp add: slot_table_def)

lemma hash_ideal [simp]: "hash_fixed ideal_crypto = slot_block"
  by (simp add: ideal_crypto_def)

lemma slots_pos: "0 < slots" by (simp add: slots_def)

lemma slot_less: "slot x < slots"
  by (simp add: slot_def slots_pos)

lemma slot_slot_block: "slot (slot_block x) = slot x"
proof -
  have s: "slot x < 2 ^ 32" using slot_less by (simp add: slots_def)
  then have "unat (of_nat (slot x) :: block) = slot x" by (simp add: unat_of_nat)
  then have "unat (ucast (slot_block x) :: u64) = slot x" using s
    by (simp add: slot_block_def unsigned_ucast_eq take_bit_nat_eq_self)
  then show ?thesis unfolding slot_def [of "slot_block x"] using slot_less [of x] by simp
qed

lemma slot_block_id: "unat x < 2 ^ 32 \<Longrightarrow> slot_block x = x"
proof -
  assume a: "unat x < 2 ^ 32"
  then have "unat (ucast x :: u64) = unat x" by (simp add: unsigned_ucast_eq take_bit_nat_eq_self)
  then have "slot x = unat x" using a by (simp add: slot_def slots_def)
  then show ?thesis by (simp add: slot_block_def)
qed

lemma ideal_size: "baxos_size (ideal_init n ty seed) = slots + 1"
  by (simp add: baxos_size_def ideal_init_def paxos_size_def)

lemma ideal_decode:
  "key_decode ideal_crypto (ideal_init n ty seed) (slot_table f) x = f (slot x)"
proof -
  have row: "build_row (AND) \<lparr>sparse_size = slots, dense_size = 1, weight = 1, dense_ty = Binary\<rparr> x = [slot x]"
    by (simp add: build_row_def slot_def)
  have nth: "slot_table f ! slot x = f (slot x)" "slot_table f ! slots = 0" "length (slot_table f) = slots + 1"
    using slot_less by (simp_all add: slot_table_def nth_append)
  have "decode_hash (AND) \<lparr>sparse_size = slots, dense_size = 1, weight = 1, dense_ty = Binary\<rparr> (slot_table f) x = f (slot x)"
    unfolding decode_hash_def row by (simp add: decode1_def decode_dense1_def nth)
  then show ?thesis
    by (simp add: key_decode_def ideal_crypto_def ideal_init_def baxos_hash_def modNumBins_def bin_table_def
        paxos_size_def nth(3))
qed

lemma ideal_decode_fun [simp]:
  "key_decode ideal_crypto (ideal_init n ty seed) (slot_table f) = (\<lambda>x. f (slot x))"
  by (rule ext) (rule ideal_decode)

lemma ideal_ok: "baxos_ok ideal_crypto (ideal_init n ty seed)"
  using slots_pos by (simp add: baxos_ok_def ideal_crypto_def ideal_init_def param_ok_def gf_laws_AND slots_def idx_width_def decode_fits_def)

lemma slot_lookup_map:
  assumes "distinct (map slot X)" "length vals = length X"
  shows "map (\<lambda>x. slot_lookup X vals (slot x)) X = vals"
proof (rule nth_equalityI)
  fix i assume "i < length (map (\<lambda>x. slot_lookup X vals (slot x)) X)"
  then have i: "i < length X" by simp
  then have "map_of (zip (map slot X) vals) (map slot X ! i) = Some (vals ! i)"
    using assms by (intro map_of_zip_nth) simp_all
  then show "map (\<lambda>x. slot_lookup X vals (slot x)) X ! i = vals ! i" using i by (simp add: slot_lookup_def)
qed (simp add: assms(2))

lemma ideal_solves:
  assumes "distinct (map slot X)" "length vals = length X"
  shows "solves ideal_crypto (ideal_init n ty seed) X vals (slot_table (slot_lookup X vals))"
  using slot_lookup_map [OF assms]
  by (simp add: solves_def ideal_size)

lemma ideal_fields:
  "os_crypto ideal_session = ideal_crypto" "os_init ideal_session = ideal_init"
  "os_solve ideal_session bx X d = Inr (slot_table of_nat)"
  "os_solve_rand ideal_session bx X d = Inr (slot_table (slot_lookup X d))"
  "os_chunk ideal_session = slots" "os_malicious ideal_session = False"
  by (simp_all add: ideal_session_def)

lemma ideal_oprf_ok: "oprf_session_ok ideal_session qs"
proof -
  have "solves ideal_crypto (ideal_init n GF128 0) qs (map slot_block qs) (slot_table of_nat)" for n
    by (simp add: solves_def ideal_size slot_block_def)
  moreover have "vole_shares ideal_crypto 0 (slots + 1) (slot_table of_nat) (slot_table of_nat) (slot_table (\<lambda>_. 0))"
    by (simp add: vole_shares_def slot_table_def ideal_crypto_def)
  moreover have "8 dvd slots" "slots + 1 < 2 * slots" by (simp_all add: slots_def)
  ultimately show ?thesis
    using slots_pos ideal_ok
    by (simp add: oprf_session_ok_def ideal_session_def ideal_size ideal_crypto_def [THEN arg_cong, of hash_fixed])
qed

lemma ideal_session_ok:
  assumes "X \<noteq> []" "0 < m" "m \<le> 16" "distinct (map slot X)"
  shows "opprf_session_ok ideal_session m X qs"
  using assms ideal_oprf_ok ideal_ok ideal_solves
  by (simp add: opprf_session_ok_def ideal_fields)

text \<open>The receiver's value: the programmed one, or the slot of the key.\<close>
lemma ideal_run:
  assumes "X \<noteq> []" "0 < m" "distinct (map slot X)" "length val = length X"
  shows "opprf_run ideal_session m X val qs = Inr (map (\<lambda>x.
    slot_lookup X (map2 (XOR) val (map (\<lambda>x. low_bytes m (slot_block x)) X)) (slot x) XOR low_bytes m (slot_block x)) qs)"
proof -
  let ?bx = "ideal_init (length qs) GF128 0" and ?P = "\<lambda>d. slot_table (slot_lookup X d)"
  let ?diff = "map2 (XOR) val (map (\<lambda>x. low_bytes m (slot_block x)) X)"
  have bx: "baxos_size ?bx < 2 * slots" "8 dvd slots" by (simp_all add: ideal_size slots_def)
  have "solves ideal_crypto ?bx qs (map (hash_fixed ideal_crypto) qs) (slot_table of_nat)"
    by (simp add: solves_def ideal_size slot_block_def)
  moreover have "vole_shares ideal_crypto 0 (baxos_size ?bx) (slot_table of_nat) (slot_table of_nat) (slot_table (\<lambda>_. 0))"
    by (simp add: vole_shares_def slot_table_def ideal_crypto_def ideal_size)
  moreover have "oprf_value ideal_crypto ?bx False 0 w (slot_table of_nat) (slot_table of_nat) = slot_block" for w
    by (rule ext) (simp add: oprf_value_def ideal_decode gfMul_0 [OF ideal_ok] Let_def,
      simp add: ideal_crypto_def slot_slot_block slot_block_def [symmetric], simp add: slot_block_def slot_slot_block [unfolded slot_block_def])
  ultimately obtain s where s:
    "oprf_run ideal_crypto (\<lambda>n. ideal_init n GF128) (os_solve ideal_session) slots False (length qs) 0 0 0 0
       (slot_table of_nat) (slot_table of_nat) (slot_table (\<lambda>_. 0)) qs (replicate (length qs) 0) 1 = Inr (s, map slot_block qs)"
    "\<And>T xs os. length os = length xs \<Longrightarrow> oprf_eval ideal_crypto s T xs os = Inr (map slot_block xs)"
    using oprf_run_value [where init = "\<lambda>n. ideal_init n GF128" and solve = "os_solve ideal_session" and bx = ?bx
        and cr = ideal_crypto and D = 0 and a = "slot_table of_nat" and b = "slot_table of_nat" and c = "slot_table (\<lambda>_. 0)"
        and K = slots and malicious = False and ws = 0 and wr = 0 and T = 1 and p = "slot_table of_nat"
        and qs = qs and outputs = "replicate (length qs) 0" and seed = 0]
      bx slots_pos ideal_ok by (auto simp: ideal_fields)
  have sol: "solves ideal_crypto (ideal_init (length X) (row_type m) 0) X ?diff (?P ?diff)"
    using ideal_solves assms(3,4) by simp
  show ?thesis
    using opprf_protocol_value [where ss = ideal_session and m = m and X = X and val = val and s = s and G = slot_block
        and outputs = "replicate (length qs) 0" and qs = qs and P = "?P ?diff"] s sol assms ideal_ok
    by (auto simp: opprf_run_def ideal_session_def ideal_decode)
qed

end
