(* ===== verification/List_Hash.thy ===== *)
theory List_Hash
  imports Fmat Ideal_Session
begin

text \<open>
  A hash function without collisions on a given list of byte strings, and the
  sessions of two calls that follow each other on keys hashed with it.
\<close>

section \<open>A hash function without collisions on a list\<close>

fun pos :: "'a list \<Rightarrow> 'a \<Rightarrow> nat" where
  "pos [] y = 0"
| "pos (x # xs) y = (if x = y then 0 else Suc (pos xs y))"

lemma pos_le: "pos xs y \<le> length xs"
  by (induction xs) auto

lemma nth_pos: "x \<in> set xs \<Longrightarrow> xs ! pos xs x = x"
  by (induction xs) auto

lemma pos_less: "x \<in> set xs \<Longrightarrow> pos xs x < length xs"
  by (induction xs) auto

lemma pos_inject: "x \<in> set xs \<Longrightarrow> y \<in> set xs \<Longrightarrow> pos xs x = pos xs y \<longleftrightarrow> x = y"
  by (metis nth_pos)

definition list_hash :: "u8 list list \<Rightarrow> u8 list \<Rightarrow> block" where
  "list_hash L bs = of_nat (pos L bs)"

lemma slot_of_nat: "n < 2 ^ 32 \<Longrightarrow> slot (of_nat n) = n"
proof -
  assume a: "n < 2 ^ 32"
  then have "unat (of_nat n :: block) = n" by (simp add: unat_of_nat)
  then have "unat (ucast (of_nat n :: block) :: u64) = n" using a
    by (simp add: unsigned_ucast_eq take_bit_nat_eq_self)
  then show ?thesis using a by (simp add: slot_def slots_def)
qed

lemma slot_block_of_nat: "n < 2 ^ 32 \<Longrightarrow> slot_block (of_nat n) = of_nat n"
  by (simp add: slot_block_def slot_of_nat)

lemma slot_list_hash: "length L < 2 ^ 32 \<Longrightarrow> slot (list_hash L bs) = pos L bs"
  unfolding list_hash_def using pos_le [of L bs] by (intro slot_of_nat) linarith

lemma distinct_concat_pairs:
  assumes "distinct xs" "distinct ys"
    "\<And>x y x' y'. x \<in> set xs \<Longrightarrow> y \<in> set ys \<Longrightarrow> x' \<in> set xs \<Longrightarrow> y' \<in> set ys \<Longrightarrow> g x y = g x' y' \<Longrightarrow> x = x' \<and> y = y'"
  shows "distinct (concat (map (\<lambda>x. map (g x) ys) xs))"
  using assms
proof (induction xs)
  case (Cons a xs)
  have "distinct (map (g a) ys)" using Cons.prems(2,3) by (auto simp: distinct_map inj_on_def)
  moreover have "distinct (concat (map (\<lambda>x. map (g x) ys) xs))"
    using Cons.prems(1) by (intro Cons.IH Cons.prems(2)) (simp, (meson Cons.prems(3) list.set_intros(2))+)
  moreover have "set (map (g a) ys) \<inter> set (concat (map (\<lambda>x. map (g x) ys) xs)) = {}"
    using Cons.prems(1,3) by fastforce
  ultimately show ?case by simp
qed simp


section \<open>Sessions of runs with hashed keys\<close>

text \<open>
  The keys are hashes of the strings \<open>B\<close> and padding, the queries hashes of the
  strings \<open>Q\<close>: a query gets the value of its key, or its position in the list.
\<close>
lemma hash_run:
  fixes size N :: nat and pv :: "nat \<Rightarrow> block" and vs :: "block list"
  assumes L: "length L < N" "set B \<subseteq> set L" "distinct B"
    and size: "length B \<le> size" "N + size < 2 ^ 16" "B \<noteq> []" "2 \<le> m" "m \<le> 16" and vs: "length vs = length B"
  defines "keys \<equiv> padding_blocks (\<lambda>i. of_nat (N + i)) (map (list_hash L) B) size"
    and "vals \<equiv> padding_blocks pv vs size"
  shows "opprf_session_ok ideal_session m keys xs"
    and "set Q \<subseteq> set L \<Longrightarrow> opprf_run ideal_session m keys vals (map (list_hash L) Q) =
      Inr (map (\<lambda>q. if q \<in> set B then vs ! pos B q else of_nat (pos L q)) Q)"
proof -
  have sl: "slot (list_hash L x) = pos L x" for x using L(1) size(2) by (intro slot_list_hash) simp
  have pl: "pos L x < N" for x using pos_le [of L x] L(1) by simp
  have keys: "map slot keys = map (pos L) B @ map (\<lambda>i. N + i) [0..<size - length B]"
    using size(1,2) by (auto simp: keys_def padding_blocks_def sl slot_of_nat simp del: of_nat_add)
  have "distinct (map (pos L) B)"
    using L(2,3) by (auto simp: distinct_map inj_on_def pos_inject subset_iff)
  then have dk: "distinct (map slot keys)"
    unfolding keys using pl by (auto simp: distinct_map inj_on_def) (metis not_le le_add1)
  have len: "length keys = size" "length vals = size"
    using size(1) vs by (simp_all add: keys_def vals_def length_padding_blocks)
  have ne: "keys \<noteq> []" "0 < m" using len(1) size(1,3,4) by auto
  show "opprf_session_ok ideal_session m keys xs" by (rule ideal_session_ok [OF ne size(5) dk])
  assume Q: "set Q \<subseteq> set L"
  let ?diff = "map2 (XOR) vals (map (\<lambda>x. low_bytes m (slot_block x)) keys)"
  have "slot_lookup keys ?diff (slot (list_hash L q)) XOR low_bytes m (slot_block (list_hash L q)) =
      (if q \<in> set B then vs ! pos B q else of_nat (pos L q))"
    if q: "q \<in> set Q" for q
  proof (cases "q \<in> set B")
    case True
    define j where "j = pos B q"
    have j: "j < length B" "B ! j = q"
      using True nth_pos [OF True] pos_le [of B q] pos_less [OF True] by (simp_all add: j_def)
    then have kj: "keys ! j = list_hash L q" "vals ! j = vs ! j" "j < size"
      using size(1) vs by (simp_all add: keys_def vals_def nth_padding_blocks)
    then have "map_of (zip (map slot keys) ?diff) (map slot keys ! j) = Some (?diff ! j)"
      using dk len by (intro map_of_zip_nth) simp_all
    then show ?thesis using kj len True by (simp add: slot_lookup_def flip: j_def)
  next
    case False
    have "pos L q \<notin> set (map slot keys)"
      using False L(2) Q q pl [of q] by (auto simp: keys pos_inject subset_iff)
    then have n: "map_of (zip (map slot keys) ?diff) (pos L q) = None"
      using len by simp
    have p: "pos L q < 2 ^ 16" using pl [of q] size(2) by simp
    have "(2::nat) ^ 16 \<le> 2 ^ (8 * m)" using size(4) by (intro power_increasing) simp_all
    then have "pos L q < 2 ^ (8 * m)" using p by linarith
    then have "low_bytes m (of_nat (pos L q)) = of_nat (pos L q)"
      unfolding low_bytes_def by (metis of_nat_take_bit take_bit_nat_eq_self)
    then show ?thesis using False p n
      by (simp add: slot_lookup_def sl list_hash_def slot_block_of_nat slot_of_nat)
  qed
  then show "opprf_run ideal_session m keys vals (map (list_hash L) Q) =
      Inr (map (\<lambda>q. if q \<in> set B then vs ! pos B q else of_nat (pos L q)) Q)"
    using ideal_run [OF ne dk, of vals "map (list_hash L) Q"] len by simp
qed

text \<open>
  If every key has one value and one query at most is programmed, the values of
  the queries are keys of a second session.
\<close>
lemma demo_sessions:
  fixes size N :: nat
  defines "A \<equiv> of_nat 1000000 :: block"
  assumes L: "length L < N" "set B \<subseteq> set L" "set Q \<subseteq> set L" "distinct B" "distinct Q"
    and one: "\<And>p q. p \<in> set Q \<Longrightarrow> q \<in> set Q \<Longrightarrow> p \<in> set B \<Longrightarrow> q \<in> set B \<Longrightarrow> p = q"
    and size: "length B \<le> size" "N + size < 2 ^ 16" "B \<noteq> []" "Q \<noteq> []"
  defines "keys \<equiv> padding_blocks (\<lambda>i. of_nat (N + i)) (map (list_hash L) B) size"
    and "vals \<equiv> padding_blocks (\<lambda>_. 0) (replicate (length B) A) size"
    and "qs \<equiv> map (list_hash L) Q"
  shows "opprf_session_ok ideal_session 16 keys xs"
    and "opprf_run ideal_session 16 keys vals qs = Inr us \<Longrightarrow> 0 < m \<Longrightarrow> m \<le> 16 \<Longrightarrow> opprf_session_ok ideal_session m us ys"
proof -
  note run = hash_run [OF L(1,2,4) size(1,2,3), of 16 "replicate (length B) A"]
  show "opprf_session_ok ideal_session 16 keys xs" unfolding keys_def by (rule run(1)) simp_all
  assume us: "opprf_run ideal_session 16 keys vals qs = Inr us" and m: "0 < m" "m \<le> 16"
  have pl: "pos L x < 2 ^ 16" for x using pos_le [of L x] L(1) size(2) by linarith
  define G where "G q = (if q \<in> set B then 1000000 else pos L q)" for q
  have "us = map (\<lambda>q. of_nat (G q)) Q"
    using run(2) [OF _ _ _ L(3)] us unfolding keys_def vals_def qs_def by (auto simp: G_def A_def pos_less)
  moreover have "slot (of_nat (G q)) = G q" for q using pl [of q] by (intro slot_of_nat) (simp add: G_def)
  ultimately have "map slot us = map G Q" by simp
  moreover have "distinct (map G Q)"
  proof -
    have "inj_on G (set Q)"
    proof (rule inj_onI)
      fix p q assume pq: "p \<in> set Q" "q \<in> set Q" "G p = G q"
      have "pos L p \<noteq> 1000000" "pos L q \<noteq> 1000000" using pl [of p] pl [of q] by auto
      then have "(p \<in> set B \<and> q \<in> set B) \<or> pos L p = pos L q" using pq(3) by (auto simp: G_def split: if_splits)
      then show "p = q"
      proof
        assume "p \<in> set B \<and> q \<in> set B"
        then show ?thesis using one pq(1,2) by simp
      next
        assume "pos L p = pos L q"
        then show ?thesis using pos_inject [of p L q] pq(1,2) L(3) by blast
      qed
    qed
    then show ?thesis using L(5) by (simp add: distinct_map)
  qed
  ultimately show "opprf_session_ok ideal_session m us ys"
    using size(4) m by (intro ideal_session_ok) auto
qed

section \<open>The strings of an interval and of a value\<close>

definition dec_of :: "nat set \<Rightarrow> u64 \<Rightarrow> u64 \<Rightarrow> string list" where
  "dec_of u x y = projr (set_dec x y u)"

definition prefixes_of :: "nat set \<Rightarrow> u64 \<Rightarrow> string list" where
  "prefixes_of u v = map (\<lambda>i. to_binary_string v (64 - i)) (sorted_list_of_set u)"

lemma prefixes_of:
  assumes "finite u" "u \<subseteq> {..64}"
  shows "set_prefix v u = Inr (prefixes_of u v)" "length (prefixes_of u v) = card u" "distinct (prefixes_of u v)"
proof -
  show "set_prefix v u = Inr (prefixes_of u v)" "length (prefixes_of u v) = card u"
    using set_prefix_ok [OF assms, of v] by (simp_all add: prefixes_of_def)
  have "length (to_binary_string v (64 - i)) = 64 - i" if "i \<in> u" for i
    using that by (simp add: to_binary_string_def bitset_string_def)
  then have "inj_on (\<lambda>i. to_binary_string v (64 - i)) u"
    using assms(2) by (intro inj_onI) (metis atMost_iff diff_diff_cancel subsetD)
  then show "distinct (prefixes_of u v)" using assms(1) by (simp add: distinct_map prefixes_of_def)
qed

lemma dec_of:
  assumes row: "row_ok t (u, b)" and y: "unat y = unat x + (t - 1)"
  shows "set_dec x y u = Inr (dec_of u x y)" "length (dec_of u x y) \<le> b" "distinct (dec_of u x y)" "dec_of u x y \<noteq> []"
    and "length (filter (\<lambda>s. s \<in> set (prefixes_of u v)) (dec_of u x y)) = (if x \<le> v \<and> v \<le> y then 1 else 0)"
proof -
  have u: "finite u" "0 \<in> u" "u \<subseteq> {..64}" "1 < t" "t < 2 ^ 31" using row by (auto simp: row_ok_def)
  have le: "x \<le> y" "unat y - unat x + 1 < 2 ^ 31" using y u(4,5) by (simp_all add: word_le_nat_alt)
  obtain D where "set_dec x y u = Inr D" "length D \<le> b" by (rule row_interval [OF row y, of 0])
  then show s: "set_dec x y u = Inr (dec_of u x y)" "length (dec_of u x y) \<le> b"
    by (simp_all add: dec_of_def)
  show "distinct (dec_of u x y)" by (rule set_dec_distinct [OF u(1,2) le s(1)])
  show "length (filter (\<lambda>s. s \<in> set (prefixes_of u v)) (dec_of u x y)) = (if x \<le> v \<and> v \<le> y then 1 else 0)" for v
    using prefix_hits [OF u(1-3) le, of v] s(1) prefixes_of(1) [OF u(1,3), of v] by auto
  from this [of x] show "dec_of u x y \<noteq> []" using le(1) by auto
qed

lemma one_hit:
  assumes "length (filter (\<lambda>t. t \<in> set P) D) \<le> 1" "s \<in> set P" "t \<in> set P" "s \<in> set D" "t \<in> set D"
  shows "s = t"
proof -
  have m: "s \<in> set (filter (\<lambda>t. t \<in> set P) D)" "t \<in> set (filter (\<lambda>t. t \<in> set P) D)" using assms by simp_all
  show ?thesis
  proof (cases "filter (\<lambda>t. t \<in> set P) D")
    case (Cons a xs)
    then have "filter (\<lambda>t. t \<in> set P) D = [a]" using assms(1) by simp
    then show ?thesis using m by (simp only: list.set singleton_iff)
  qed (use m in \<open>simp only: list.set empty_iff\<close>)
qed

end
