(* ===== verification/Linf_Demo.thy ===== *)
theory Linf_Demo
  imports Fpsi_Linf List_Hash
begin

text \<open>
  The maximum-norm matching is complete: the shares of a bin differ when its item
  has the identifier of a near point.  A concrete run with one point on each side
  shows that the hypotheses can hold, with every key the run hashes at a slot of
  its own.
\<close>

section \<open>A run with one point on each side\<close>

definition demo_u :: "nat set" where "demo_u = {0, 1, 2, 3}"

definition demo_D :: "string list" where "demo_D = interval_dec 10 demo_u 100"

definition demo_P :: "string list" where
  "demo_P = map (\<lambda>i. to_binary_string 105 (64 - i)) (sorted_list_of_set demo_u)"

definition demo_bytes :: "string \<Rightarrow> nat \<Rightarrow> u8 list" where
  "demo_bytes s k = prefix_key_bytes s 7 k 0"

definition demo_L :: "u8 list list" where
  "demo_L = concat (map (\<lambda>s. map (demo_bytes s) [0..<3]) (demo_D @ demo_P))"

definition demo_env :: fmat_env where
  "demo_env = \<lparr>fe_blake3 = list_hash demo_L, fe_step3 = (\<lambda>_. ideal_session), fe_step4 = (\<lambda>_. ideal_session),
     fe_pad_keys = (\<lambda>_ i. of_nat (1000 + i)), fe_pad_vals = (\<lambda>_ _. 0), fe_empty = (\<lambda>_ _. 0), fe_log2ceil = (\<lambda>_. 7),
     fe_t0 = \<lparr>tri_a = replicate 128 True, tri_b = replicate 128 True, tri_c = replicate 128 True, curTriple = 0\<rparr>,
     fe_t1 = \<lparr>tri_a = replicate 128 False, tri_b = replicate 128 False, tri_c = replicate 128 False, curTriple = 0\<rparr>\<rparr>"

definition demo_prm :: fpsi_params where
  "demo_prm = \<lparr>DIM = 1, DELTA = 10, METRIC = 0, SIDE_LEN = 20, BLK_CELLS = 1, DELTA_L2 = 100\<rparr>"

definition demo_rd :: recv_data where
  "demo_rd = \<lparr>rd_pts = [[100]], rd_ids = [7], rd_locations = [[0, 0, 0]], rd_bins_num = 1\<rparr>"

definition demo_sd :: send_data where
  "demo_sd = \<lparr>sd_pts = [[105]], sd_ids = [7], sd_bins = [Some (0, 0)]\<rparr>"

lemma demo_row: "row_ok 21 (demo_u, 6)"
  using linf_row_21 by (simp add: demo_u_def)

lemma demo_margin: "margin_ok 10 100" "near 10 100 105"
  by (simp_all add: margin_ok_def near_def)

lemma demo_dec: "set_dec 90 110 demo_u = Inr demo_D" "length demo_D \<le> 6" "distinct demo_D"
proof -
  show s: "set_dec 90 110 demo_u = Inr demo_D" "length demo_D \<le> 6"
    using interval_dec(1,2) [of 10 demo_u 6 100] demo_row demo_margin by (simp_all add: demo_D_def)
  show "distinct demo_D" using demo_row by (intro set_dec_distinct [OF _ _ _ _ s(1)]) (simp_all add: row_ok_def)
qed

lemma demo_prefix: "set_prefix 105 demo_u = Inr demo_P" "length demo_P = 4" "distinct demo_P"
proof -
  have u: "finite demo_u" "demo_u \<subseteq> {..64}" "card demo_u = 4" by (simp_all add: demo_u_def)
  show "set_prefix 105 demo_u = Inr demo_P" using set_prefix_ok [OF u(1,2)] by (simp add: demo_P_def)
  show "length demo_P = 4" using u by (simp add: demo_P_def)
  have "length (to_binary_string 105 (64 - i)) = 64 - i" if "i \<in> demo_u" for i
    using that by (simp add: to_binary_string_def bitset_string_def)
  then have "inj_on (\<lambda>i. to_binary_string 105 (64 - i)) demo_u"
    using u(2) by (intro inj_onI) (metis atMost_iff diff_diff_cancel subsetD)
  then show "distinct demo_P" using u(1) by (simp add: demo_P_def distinct_map)
qed

lemma demo_one: "s \<in> set demo_P \<Longrightarrow> t \<in> set demo_P \<Longrightarrow> s \<in> set demo_D \<Longrightarrow> t \<in> set demo_D \<Longrightarrow> s = t"
proof -
  assume s: "s \<in> set demo_P" "t \<in> set demo_P" "s \<in> set demo_D" "t \<in> set demo_D"
  have "length (filter (\<lambda>t. t \<in> set demo_P) demo_D) = 1"
    using prefix_hits [of demo_u 90 110 105] demo_row demo_dec(1) demo_prefix(1) by (auto simp: row_ok_def)
  then obtain x where "filter (\<lambda>t. t \<in> set demo_P) demo_D = [x]" by (auto simp: length_Suc_conv)
  then have "set (filter (\<lambda>t. t \<in> set demo_P) demo_D) = {x}" by simp
  moreover have "s \<in> set (filter (\<lambda>t. t \<in> set demo_P) demo_D)" "t \<in> set (filter (\<lambda>t. t \<in> set demo_P) demo_D)"
    using s by simp_all
  ultimately show "s = t" by (simp only: singleton_iff)
qed

lemma demo_bytes_inject: "demo_bytes s k = demo_bytes t l \<Longrightarrow> k < 3 \<Longrightarrow> l < 3 \<Longrightarrow> s = t \<and> k = l"
  unfolding demo_bytes_def using prefix_key_bytes_inject [of s 7 k 0 t 7 l 0] by simp


lemma demo_run_sessions:
  assumes "distinct B" "set B = (\<lambda>(s, k). demo_bytes s k) ` (set demo_D \<times> {..<3})" "length B \<le> 18"
    "B \<noteq> []"
    and e: "map fst entries = map (list_hash demo_L) B" "map snd entries = replicate (length B) (of_nat 1000000)"
    and q: "qs = map (\<lambda>s. list_hash demo_L (demo_bytes s 0)) demo_P"
  defines "keys \<equiv> padding_blocks (\<lambda>i. of_nat (1000 + i)) (map fst entries) 18"
    and "vals \<equiv> padding_blocks (\<lambda>_. 0) (map snd entries) 18"
  shows "opprf_session_ok ideal_session 16 keys qs"
    and "opprf_run ideal_session 16 keys vals qs = Inr us \<Longrightarrow> opprf_session_ok ideal_session 16 us ys"
proof -
  let ?Q = "map (\<lambda>s. demo_bytes s 0) demo_P"
  have len: "length demo_L < 1000"
  proof -
    have "length demo_L = (length demo_D + length demo_P) * 3"
      by (simp add: demo_L_def length_concat o_def sum_list_triv)
    then show ?thesis using demo_dec(2) demo_prefix(2) by simp
  qed
  have sub: "set B \<subseteq> set demo_L" "set ?Q \<subseteq> set demo_L" using assms(2) by (auto simp: demo_L_def)
  have dQ: "distinct ?Q" using demo_prefix(3) demo_bytes_inject by (fastforce simp: distinct_map inj_on_def)
  have one: "x = y" if "x \<in> set ?Q" "y \<in> set ?Q" "x \<in> set B" "y \<in> set B" for x y
  proof -
    obtain s t where st: "s \<in> set demo_P" "t \<in> set demo_P" "x = demo_bytes s 0" "y = demo_bytes t 0"
      using \<open>x \<in> set ?Q\<close> \<open>y \<in> set ?Q\<close> by auto
    have "s \<in> set demo_D" "t \<in> set demo_D"
      using \<open>x \<in> set B\<close> \<open>y \<in> set B\<close> st(3,4) demo_bytes_inject unfolding assms(2) by fastforce+
    then show ?thesis using demo_one st by blast
  qed
  have Q: "?Q \<noteq> []" "length B \<le> 18" "1000 + 18 < (2 :: nat) ^ 16" using demo_prefix(2) assms(3) by auto
  note s = demo_sessions [OF len sub assms(1) dQ one Q(2,3) assms(4) Q(1)]
  have qs: "qs = map (list_hash demo_L) ?Q" by (simp add: q)
  show "opprf_session_ok ideal_session 16 keys qs" unfolding keys_def e(1) by (rule s(1))
  show "opprf_run ideal_session 16 keys vals qs = Inr us \<Longrightarrow> opprf_session_ok ideal_session 16 us ys"
    unfolding keys_def vals_def qs e by (rule s(2)) simp_all
qed

lemma demo_hits: "demo_D \<noteq> []"
  using prefix_hits [of demo_u 90 110 105] demo_row demo_dec(1) by (auto simp: row_ok_def)

lemma demo_pairs:
  "distinct (concat (map (\<lambda>k. map (\<lambda>s. demo_bytes s k) demo_D) [0..<3]))"
  "distinct (concat (map (\<lambda>s. map (demo_bytes s) [0..<3]) demo_D))"
  using demo_dec(3) demo_bytes_inject
  by (auto intro!: distinct_concat_pairs [where g = "\<lambda>k s. demo_bytes s k"] distinct_concat_pairs [where g = demo_bytes])

lemma demo_sh_list:
  "linf_list_sh (list_hash demo_L) demo_prm demo_u demo_rd [of_nat 1000000] 0 =
   Inr (map (\<lambda>b. (list_hash demo_L b, of_nat 1000000)) (concat (map (\<lambda>k. map (\<lambda>s. demo_bytes s k) demo_D) [0..<3])))"
  by (simp add: linf_list_sh_def demo_prm_def demo_rd_def demo_dec(1) prefix_key_def demo_bytes_def numeral_3_eq_3 o_def)

lemma demo_cmp_list:
  "linf_list (list_hash demo_L) demo_prm demo_u demo_rd [of_nat 1000000] 0 =
   Inr (map (\<lambda>b. (list_hash demo_L b, of_nat 1000000)) (concat (map (\<lambda>s. map (demo_bytes s) [0..<3]) demo_D)))"
  by (simp add: linf_list_def demo_prm_def demo_rd_def demo_dec(1) prefix_key_def demo_bytes_def numeral_3_eq_3 o_def map_concat)

lemma demo_queries:
  "linf_queries (list_hash demo_L) f demo_u demo_sd 0 = Inr (map (\<lambda>s. list_hash demo_L (demo_bytes s 0)) demo_P)"
  by (simp add: linf_queries_def demo_sd_def demo_prefix(1) prefix_key_def demo_bytes_def)

lemma demo_fields:
  "DIM demo_prm = 1" "DELTA demo_prm = 10" "BLK_CELLS demo_prm = 1" "fe_blake3 demo_env = list_hash demo_L"
  "length (rd_pts demo_rd) = 1" "rd_bins_num demo_rd = 1" "fe_step3 demo_env d = ideal_session"
  "fe_step4 demo_env d = ideal_session" "fe_pad_keys demo_env d = (\<lambda>i. of_nat (1000 + i))"
  "fe_pad_vals demo_env d = (\<lambda>_. 0)"
  by (simp_all add: demo_prm_def demo_env_def demo_rd_def)

lemma demo_sessions_ok:
  assumes "lst demo_u demo_rd [of_nat 1000000] 0 = Inr (map (\<lambda>b. (list_hash demo_L b, of_nat 1000000)) B)"
    and "distinct B" "set B = (\<lambda>(s, k). demo_bytes s k) ` (set demo_D \<times> {..<3})" "length B \<le> 18"
  shows "linf_sessions_ok lst 1 demo_env demo_prm (demo_u, 6) demo_rd demo_sd [of_nat 1000000]"
proof -
  have "(hd demo_D, 0) \<in> set demo_D \<times> {..<3 :: nat}" using demo_hits by simp
  then have "set B \<noteq> {}" unfolding assms(3) by blast
  then have "B \<noteq> []" by simp
  note s = demo_run_sessions [OF assms(2-4) this]
  show ?thesis
    unfolding linf_sessions_ok_def Let_def demo_fields
    using s [of "map (\<lambda>b. (list_hash demo_L b, of_nat 1000000)) B"] assms(1)
    by (simp add: demo_queries o_def map_replicate_const dim_slice_def)
qed

lemma linf_demo_ok:
  "getSelectedParam linf_table (2 * DELTA demo_prm + 1) = Inr (demo_u, 6)" "unat (DELTA demo_prm) < 2 ^ 63"
  "recv_ok (\<lambda>_. [0, 0, 0]) (BLK_CELLS demo_prm) demo_prm demo_rd" "recv_ok (\<lambda>_. [0, 0, 0]) 1 demo_prm demo_rd"
  "send_ok (\<lambda>_. [0, 0, 0]) demo_prm demo_rd demo_sd" "peqt_ok demo_env 128 (rd_bins_num demo_rd)"
  "linf_match 1 demo_prm demo_rd demo_sd 0" "length [x] = rd_bins_num demo_rd * DIM demo_prm"
  using demo_margin
  by (simp_all add: demo_fields getSelectedParam_def linf_table_def linf_rows_def demo_u_def recv_ok_def demo_rd_def
      demo_sd_def send_ok_def cuckoo_ok_def peqt_ok_def demo_env_def good_triples_def linf_match_def)


lemma demo_lists_ok:
  "linf_sessions_ok (linf_list_sh (fe_blake3 demo_env) demo_prm) (BLK_CELLS demo_prm) demo_env demo_prm (demo_u, 6)
     demo_rd demo_sd [of_nat 1000000]"
  "linf_sessions_ok (linf_list (fe_blake3 demo_env) demo_prm) 1 demo_env demo_prm (demo_u, 6)
     demo_rd demo_sd [of_nat 1000000]"
proof -
  have len: "length (concat (map (\<lambda>k. map (\<lambda>s. demo_bytes s k) demo_D) [0..<3])) \<le> 18"
    "length (concat (map (\<lambda>s. map (demo_bytes s) [0..<3]) demo_D)) \<le> 18"
    using demo_dec(2) by (simp_all add: length_concat o_def sum_list_triv)
  show "linf_sessions_ok (linf_list_sh (fe_blake3 demo_env) demo_prm) (BLK_CELLS demo_prm) demo_env demo_prm (demo_u, 6)
      demo_rd demo_sd [of_nat 1000000]"
    unfolding demo_fields by (intro demo_sessions_ok [OF _ demo_pairs(1) _ len(1)] demo_sh_list) force
  show "linf_sessions_ok (linf_list (fe_blake3 demo_env) demo_prm) 1 demo_env demo_prm (demo_u, 6)
      demo_rd demo_sd [of_nat 1000000]"
    unfolding demo_fields by (intro demo_sessions_ok [OF _ demo_pairs(2) _ len(2)] demo_cmp_list) force
qed

text \<open>The two points are within the radius, and the shares of the one bin differ.\<close>
theorem mp_ssFMat_linf_sh_complete_witness:
  "\<exists>eR eS. mp_ssFMat_linf_sh demo_env demo_prm demo_rd demo_sd [of_nat 1000000] [5] = Inr (eR, eS) \<and>
    length eR = 1 \<and> length eS = 1 \<and> eR ! 0 \<noteq> eS ! 0"
  using mp_ssFMat_linf_sh_complete [OF linf_demo_ok(1,2,3,5) linf_demo_ok(8) linf_demo_ok(8) demo_lists_ok(1) linf_demo_ok(6), of 5]
    linf_demo_ok(7) by (fastforce simp: demo_fields demo_sd_def)

theorem mp_ssFMat_linf_complete_witness:
  "\<exists>eR eS. mp_ssFMat_linf demo_env demo_prm demo_rd demo_sd [of_nat 1000000] [5] = Inr (eR, eS) \<and>
    length eR = 1 \<and> length eS = 1 \<and> eR ! 0 \<noteq> eS ! 0"
  using mp_ssFMat_linf_complete [OF linf_demo_ok(1,2,4,5) linf_demo_ok(8) linf_demo_ok(8) demo_lists_ok(2) linf_demo_ok(6), of 5]
    linf_demo_ok(7) by (fastforce simp: demo_fields demo_sd_def)

end
