(* ===== verification/If_Match.thy ===== *)
theory If_Match
  imports List_Hash
begin

text \<open>
  \<open>ssIFMat_recv\<close> and \<open>ssIFMat_send\<close> of fpsi_recv.cpp and fpsi_sender.cpp: a match of
  the sum of every bin with the interval that starts at the receiver's sum and is
  as long as the threshold \<open>DELTA ^ METRIC\<close>.
\<close>

section \<open>Both parties\<close>

record if_env =
  if_blake3 :: "u8 list \<Rightarrow> block"
  if_step2 :: opprf_session
  if_step3 :: opprf_session
  if_pad_keys :: "nat \<Rightarrow> block"
  if_pad_vals :: "nat \<Rightarrow> block"
  if_log2ceil :: "nat \<Rightarrow> nat"
  if_t0 :: triples
  if_t1 :: triples

definition if_key_bytes :: "string \<Rightarrow> nat \<Rightarrow> u8 list" where
  "if_key_bytes prefix i = string_bytes prefix @ word_bytes 8 (of_nat i :: u64)"

text \<open>Step 1 of the receiver: the prefixes of the interval of every bin.\<close>
definition if_list ::
  "(u8 list \<Rightarrow> block) \<Rightarrow> nat set \<Rightarrow> u64 \<Rightarrow> u64 list \<Rightarrow> block list \<Rightarrow> (block \<times> block) list result" where
  "if_list blake3 u threshold v_sums a_random =
     rmap concat (mapR (\<lambda>i.
       rmap (map (\<lambda>prefix. (blake3 (if_key_bytes prefix i), a_random ! i)))
         (set_dec (v_sums ! i) (v_sums ! i + threshold) u)) [0..<length v_sums])"

text \<open>Step 1 of the sender: the prefixes of its sum of every bin.\<close>
definition if_queries :: "(u8 list \<Rightarrow> block) \<Rightarrow> nat set \<Rightarrow> u64 list \<Rightarrow> block list result" where
  "if_queries blake3 u u_sums =
     rmap concat (mapR (\<lambda>i.
       rmap (map (\<lambda>prefix. blake3 (if_key_bytes prefix i))) (set_prefix (u_sums ! i) u))
       [0..<length u_sums])"

text \<open>
  The threshold is computed in \<open>u32\<close> by the receiver and in \<open>u64\<close> by the sender.
  A row of the second call is a \<open>u64\<close>.
\<close>
definition ssIFMat ::
  "if_env \<Rightarrow> u64 \<Rightarrow> nat \<Rightarrow> u64 list \<Rightarrow> u64 list \<Rightarrow> block list \<Rightarrow> u64 list \<Rightarrow> (bool list \<times> bool list) result" where
  "ssIFMat env DELTA METRIC v_sums u_sums a_random t =
     (let bins_num = length v_sums;
          threshold_recv = ucast (fast_pow DELTA (of_nat METRIC) :: u32) :: u64;
          threshold_send = fast_pow DELTA (of_nat METRIC) :: u64
      in rbind (getSelectedParam if_match_table (threshold_recv + 1)) (\<lambda>(u_recv, bound).
         rbind (getSelectedParam if_match_table (threshold_send + 1)) (\<lambda>(u_send, _).
         rbind (if_list (if_blake3 env) u_recv threshold_recv v_sums a_random) (\<lambda>entries.
         rbind (if_queries (if_blake3 env) u_send u_sums) (\<lambda>queries.
         rbind (two_hop (if_step2 env) (if_step3 env) 8 (card u_send) (bound * bins_num) bins_num
             entries (if_pad_keys env) (if_pad_vals env) queries a_random (map ucast t)) (\<lambda>t'.
         Inr (batch_peqt (if_log2ceil env) (if_t0 env) (if_t1 env) (map ucast t') t)))))))"

section \<open>Lists and queries\<close>

lemma if_list_ok:
  assumes "row_ok (unat thr + 1) (u, b)" "\<forall>v \<in> set v_sums. unat v + unat thr < 2 ^ 64"
  shows "\<exists>es. if_list blake3 u thr v_sums a = Inr es \<and> length es \<le> b * length v_sums \<and>
    (\<forall>i < length v_sums. \<forall>w p. v_sums ! i \<le> w \<and> w \<le> v_sums ! i + thr \<and> set_prefix w u = Inr p \<longrightarrow>
       (\<exists>s \<in> set p. (blake3 (if_key_bytes s i), a ! i) \<in> set es))"
proof -
  have e: "unat (v_sums ! i + thr) = unat (v_sums ! i) + (unat thr + 1 - 1)" if "i < length v_sums" for i
    using assms(2) that by (simp add: unat_add_le)
  define D where "D i = projr (set_dec (v_sums ! i) (v_sums ! i + thr) u)" for i
  have D: "set_dec (v_sums ! i) (v_sums ! i + thr) u = Inr (D i) \<and> length (D i) \<le> b \<and>
      (v_sums ! i \<le> w \<and> w \<le> v_sums ! i + thr \<and> set_prefix w u = Inr p \<longrightarrow> (\<exists>s \<in> set p. s \<in> set (D i)))"
    if "i < length v_sums" for i w p
    using row_interval [OF assms(1) e [OF that], of w] by (fastforce simp: D_def)
  define f where "f i = map (\<lambda>s. (blake3 (if_key_bytes s i), a ! i)) (D i)" for i
  have "if_list blake3 u thr v_sums a = Inr (concat (map f [0..<length v_sums]))"
    unfolding if_list_def by (rule rmap_concat_mapR) (simp add: D f_def)
  moreover have "length (concat (map f [0..<length v_sums])) \<le> length v_sums * b"
    using D by (intro length_concat_upt) (simp add: f_def)
  moreover have "\<exists>s \<in> set p. (blake3 (if_key_bytes s i), a ! i) \<in> set (concat (map f [0..<length v_sums]))"
    if p: "i < length v_sums" "v_sums ! i \<le> w" "w \<le> v_sums ! i + thr" "set_prefix w u = Inr p" for i w p
  proof -
    obtain s where "s \<in> set p" "s \<in> set (D i)" using D [OF p(1)] p(2-4) by blast
    then show ?thesis using p(1) by (intro bexI [of _ s]) (auto simp: f_def intro!: bexI [of _ i])
  qed
  ultimately show ?thesis by (auto simp: mult.commute)
qed

lemma if_queries_ok:
  assumes "finite u" "u \<subseteq> {..64}"
  shows "\<exists>qs. if_queries blake3 u u_sums = Inr qs \<and> length qs = card u * length u_sums \<and>
    (\<forall>i < length u_sums. \<forall>p. set_prefix (u_sums ! i) u = Inr p \<longrightarrow>
       (\<forall>s \<in> set p. \<exists>j < card u. qs ! (card u * i + j) = blake3 (if_key_bytes s i)))"
proof -
  define P where "P v = map (\<lambda>i. to_binary_string v (64 - i)) (sorted_list_of_set u)" for v
  have P: "set_prefix v u = Inr (P v)" "length (P v) = card u" for v
    using set_prefix_ok [OF assms, of v] by (simp_all add: P_def)
  define g where "g i = map (\<lambda>s. blake3 (if_key_bytes s i)) (P (u_sums ! i))" for i
  have g: "length (g i) = card u" for i by (simp add: g_def P)
  have "if_queries blake3 u u_sums = Inr (concat (map g [0..<length u_sums]))"
    unfolding if_queries_def by (rule rmap_concat_mapR) (simp add: g_def P)
  moreover have "length (concat (map g [0..<length u_sums])) = card u * length u_sums"
    by (simp add: length_concat o_def g sum_list_triv)
  moreover have "\<exists>j < card u. concat (map g [0..<length u_sums]) ! (card u * i + j) = blake3 (if_key_bytes s i)"
    if h: "i < length u_sums" "set_prefix (u_sums ! i) u = Inr p" "s \<in> set p" for i p s
  proof -
    obtain j where j: "j < card u" "P (u_sums ! i) ! j = s"
      using h P by (metis Inr_inject in_set_conv_nth)
    then have "g i ! j = blake3 (if_key_bytes s i)" using P(2) by (simp add: g_def)
    moreover have "concat (map g [0..<length u_sums]) ! (card u * i + j) = g i ! j"
      using g h(1) j(1) by (intro nth_concat_map)
    ultimately show ?thesis using j(1) by auto
  qed
  ultimately show ?thesis by blast
qed


section \<open>The shares of the equality test\<close>

text \<open>The sessions are set up for the keys, queries and values of the run.\<close>
definition if_sessions_ok ::
  "if_env \<Rightarrow> prefix_param \<Rightarrow> u64 \<Rightarrow> u64 list \<Rightarrow> u64 list \<Rightarrow> block list \<Rightarrow> bool" where
  "if_sessions_ok env param threshold v_sums u_sums a_random \<longleftrightarrow>
     (\<forall>entries qs.
        if_list (if_blake3 env) (fst param) threshold v_sums a_random = Inr entries \<and>
        if_queries (if_blake3 env) (fst param) u_sums = Inr qs \<longrightarrow>
        (let size = snd param * length v_sums;
             keys = padding_blocks (if_pad_keys env) (map fst entries) size;
             vals = padding_blocks (if_pad_vals env) (map snd entries) size
         in opprf_session_ok (if_step2 env) 16 keys qs \<and>
            (\<forall>us. opprf_run (if_step2 env) 16 keys vals qs = Inr us \<longrightarrow>
               opprf_session_ok (if_step3 env) 8 us a_random)))"

lemma fast_pow_thresholds:
  assumes "unat d ^ m < 2 ^ 32" "m < 2 ^ 64"
  shows "ucast (fast_pow d (of_nat m) :: u32) = (fast_pow d (of_nat m) :: u64)"
    and "unat (fast_pow d (of_nat m) :: u64) = unat d ^ m"
proof -
  have m: "unat (of_nat m :: u64) = m" using assms(2) by (simp add: unat_of_nat)
  have "(fast_pow d (of_nat m) :: u32) = of_nat (unat d ^ m)" "(fast_pow d (of_nat m) :: u64) = of_nat (unat d ^ m)"
    by (simp_all add: fast_pow_eq m)
  moreover have "unat (of_nat (unat d ^ m) :: u32) = unat d ^ m" "unat (of_nat (unat d ^ m) :: u64) = unat d ^ m"
    using assms(1) by (simp_all only: unat_of_nat) simp_all
  moreover have "ucast x = (of_nat (unat x) :: u64)" for x :: u32 by simp
  ultimately show "ucast (fast_pow d (of_nat m) :: u32) = (fast_pow d (of_nat m) :: u64)"
    "unat (fast_pow d (of_nat m) :: u64) = unat d ^ m"
    by metis+
qed

lemma is_row_ucast: "is_row 8 (ucast (v :: u64))"
proof -
  have "n < 64" if "bit v n" for n using bit_imp_le_length [OF that] by simp
  then show ?thesis by (auto simp: is_row_def low_bytes_def intro!: bit_word_eqI simp: bit_simps)
qed

lemma ssIFMat_ok:
  assumes thr: "unat DELTA ^ METRIC < 2 ^ 32" "METRIC < 2 ^ 64" "thr = of_nat (unat DELTA ^ METRIC)"
    and param: "getSelectedParam if_match_table (thr + 1) = Inr (u, b)"
    and sums: "\<forall>v \<in> set v_sums. unat v + unat thr < 2 ^ 64" "length u_sums = length v_sums"
    and rnd: "length a = length v_sums" "length t = length v_sums"
    and ses: "if_sessions_ok env (u, b) thr v_sums u_sums a"
    and peqt: "(64 :: nat) \<le> 2 ^ if_log2ceil env 64" "curTriple (if_t0 env) = 0" "curTriple (if_t1 env) = 0"
      "good_triples (if_t0 env) (if_t1 env) (length v_sums * 64)"
  shows "\<exists>eR eS. ssIFMat env DELTA METRIC v_sums u_sums a t = Inr (eR, eS) \<and>
    length eR = length v_sums \<and> length eS = length v_sums \<and>
    (\<forall>i < length v_sums. v_sums ! i \<le> u_sums ! i \<and> u_sums ! i \<le> v_sums ! i + thr \<longrightarrow> eR ! i \<noteq> eS ! i)"
proof -
  let ?B = "length v_sums"
  have th: "ucast (fast_pow DELTA (of_nat METRIC) :: u32) = thr" "(fast_pow DELTA (of_nat METRIC) :: u64) = thr"
    using fast_pow_thresholds [OF thr(1,2)] unfolding thr(3) by (metis word_unat_eq_iff of_nat_unat ucast_id)+
  have "unat thr = unat DELTA ^ METRIC"
    unfolding thr(3) using thr(1) by (simp only: unat_of_nat) simp
  then have "unat (thr + 1) = unat thr + 1" using thr(1) by (simp add: unat_Suc)
  then have row: "row_ok (unat thr + 1) (u, b)"
    using selected_row_ok [OF _ if_match_rows_ok, of if_match_table] param by (metis if_match_table_def)
  then have u: "finite u" "u \<subseteq> {..64}" by (simp_all add: row_ok_def)
  obtain es where es: "if_list (if_blake3 env) u thr v_sums a = Inr es" "length es \<le> b * ?B"
    "\<And>i w p. i < ?B \<Longrightarrow> v_sums ! i \<le> w \<Longrightarrow> w \<le> v_sums ! i + thr \<Longrightarrow> set_prefix w u = Inr p \<Longrightarrow>
       \<exists>s \<in> set p. (if_blake3 env (if_key_bytes s i), a ! i) \<in> set es"
    using if_list_ok [OF row sums(1), of "if_blake3 env" a] by blast
  obtain qs where qs: "if_queries (if_blake3 env) u u_sums = Inr qs" "length qs = card u * ?B"
    "\<And>i p s. i < ?B \<Longrightarrow> set_prefix (u_sums ! i) u = Inr p \<Longrightarrow> s \<in> set p \<Longrightarrow>
       \<exists>j < card u. qs ! (card u * i + j) = if_blake3 env (if_key_bytes s i)"
    using if_queries_ok [OF u, of "if_blake3 env" u_sums] sums(2) by auto
  have rows: "\<forall>v \<in> set (map ucast t :: block list). is_row 8 v"
    using is_row_ucast by auto
  obtain rr where rr: "two_hop (if_step2 env) (if_step3 env) 8 (card u) (b * ?B) ?B es (if_pad_keys env)
      (if_pad_vals env) qs a (map ucast t) = Inr rr" "length rr = ?B"
    "\<And>i j. i < ?B \<Longrightarrow> j < card u \<Longrightarrow> (qs ! (card u * i + j), a ! i) \<in> set es \<Longrightarrow> rr ! i = ucast (t ! i)"
    using two_hop_ok [OF es(2) qs(2) rnd(1) _ rows, of "if_step2 env" "if_pad_keys env" "if_pad_vals env" "if_step3 env"]
      ses es(1) qs(1) rnd(2) unfolding if_sessions_ok_def Let_def by fastforce
  have run: "ssIFMat env DELTA METRIC v_sums u_sums a t =
      Inr (batch_peqt (if_log2ceil env) (if_t0 env) (if_t1 env) (map ucast rr) t)"
    unfolding ssIFMat_def Let_def th by (simp add: param es(1) qs(1) rr(1))
  obtain eR eS where e: "batch_peqt (if_log2ceil env) (if_t0 env) (if_t1 env) (map ucast rr) t = (eR, eS)" by fastforce
  note bits = batch_peqt_bits [OF _ _ _ _ _ e]
  have hit: "rr ! i = ucast (t ! i)" if i: "i < ?B" "v_sums ! i \<le> u_sums ! i" "u_sums ! i \<le> v_sums ! i + thr" for i
  proof -
    obtain p where p: "set_prefix (u_sums ! i) u = Inr p" using set_prefix_ok [OF u] by blast
    obtain s where s: "s \<in> set p" "(if_blake3 env (if_key_bytes s i), a ! i) \<in> set es" using es(3) [OF i p] by blast
    obtain j where "j < card u" "qs ! (card u * i + j) = if_blake3 env (if_key_bytes s i)"
      using qs(3) [OF i(1) p s(1)] by blast
    then show ?thesis using rr(3) [OF i(1)] s(2) by simp
  qed
  have uu: "ucast (ucast x :: block) = x" for x :: u64 by (rule bit_word_eqI) (simp add: bit_simps)
  have "length eR = ?B" "length eS = ?B" "\<And>i. i < ?B \<Longrightarrow> (eR ! i \<noteq> eS ! i) = (map ucast rr ! i = t ! i)"
    using bits rr(2) rnd(2) peqt by simp_all
  then show ?thesis using run e hit rr(2) uu by (auto simp: uu)
qed


section \<open>Properties\<close>

text \<open>C26. The interval match of sums: with a table entry for the threshold, sums that do not wrap
  around and sessions that are set up, the parties' thresholds agree, the run succeeds with one
  share per bin on both sides, and the shares differ wherever the sender's sum is between the
  receiver's sum and that sum plus the threshold.\<close>
theorem ssIFMat_complete:
  assumes "unat DELTA ^ METRIC < 2 ^ 32" "METRIC < 2 ^ 64" "thr = of_nat (unat DELTA ^ METRIC)"
    and "getSelectedParam if_match_table (thr + 1) = Inr (u, b)"
    and "\<forall>v \<in> set v_sums. unat v + unat thr < 2 ^ 64" "length u_sums = length v_sums"
    and "length a = length v_sums" "length t = length v_sums"
    and "if_sessions_ok env (u, b) thr v_sums u_sums a"
    and "(64 :: nat) \<le> 2 ^ if_log2ceil env 64" "curTriple (if_t0 env) = 0" "curTriple (if_t1 env) = 0"
      "good_triples (if_t0 env) (if_t1 env) (length v_sums * 64)"
  shows "\<exists>eR eS. ssIFMat env DELTA METRIC v_sums u_sums a t = Inr (eR, eS) \<and>
    length eR = length v_sums \<and> length eS = length v_sums \<and>
    (\<forall>i < length v_sums. v_sums ! i \<le> u_sums ! i \<and> u_sums ! i \<le> v_sums ! i + thr \<longrightarrow> eR ! i \<noteq> eS ! i)"
  by (rule ssIFMat_ok [OF assms])

section \<open>A run with one bin\<close>

lemma if_key_bytes_inject: "if_key_bytes s i = if_key_bytes t i \<longleftrightarrow> s = t"
  by (simp add: if_key_bytes_def string_bytes_inject)

text \<open>The sessions of a run with one bin, for a hash function without collisions on its keys.\<close>
lemma if_hash_sessions:
  assumes row: "row_ok (unat thr + 1) (u, b)" "unat v + unat thr < 2 ^ 64"
    and L: "length L < N" "N + b < 2 ^ 16" "(\<lambda>s. if_key_bytes s 0) ` (set (dec_of u v (v + thr)) \<union> set (prefixes_of u w)) \<subseteq> set L"
    and env: "if_blake3 env = list_hash L" "if_step2 env = ideal_session" "if_step3 env = ideal_session"
      "if_pad_keys env = (\<lambda>i. of_nat (N + i))" "if_pad_vals env = (\<lambda>_. 0)"
  shows "if_sessions_ok env (u, b) thr [v] [w] [of_nat 1000000]"
proof -
  have y: "unat (v + thr) = unat v + (unat thr + 1 - 1)" using row(2) by (simp add: unat_add_le)
  note d = dec_of [OF row(1) y]
  have u: "finite u" "u \<subseteq> {..64}" "0 \<in> u" using row(1) by (auto simp: row_ok_def)
  note p = prefixes_of [OF u(1,2), of w]
  let ?k = "\<lambda>s. if_key_bytes s 0" and ?D = "dec_of u v (v + thr)" and ?P = "prefixes_of u w"
  let ?B = "map ?k ?D" and ?Q = "map ?k ?P"
  have sub: "set ?B \<subseteq> set L" "set ?Q \<subseteq> set L" using L(3) by auto
  have dist: "distinct ?B" "distinct ?Q" using d(3) p(3) by (simp_all add: distinct_map inj_on_def if_key_bytes_inject)
  have "length (filter (\<lambda>s. s \<in> set ?P) ?D) \<le> 1" by (simp add: d(5))
  then have one: "p = q" if "p \<in> set ?Q" "q \<in> set ?Q" "p \<in> set ?B" "q \<in> set ?B" for p q
    using that one_hit [of ?P ?D] by (auto simp: if_key_bytes_inject)
  have "0 < card u" using u by (auto simp: card_gt_0_iff)
  then have sz: "length ?B \<le> b" "?B \<noteq> []" "?Q \<noteq> []" using d(2,4) p(2) by auto
  note s = demo_sessions [OF L(1) sub dist one sz(1) L(2) sz(2,3)]
  have e: "if_list (list_hash L) u thr [v] [of_nat 1000000] = Inr (map (\<lambda>b. (list_hash L b, of_nat 1000000)) ?B)"
    by (simp add: if_list_def d(1) o_def)
  have q: "if_queries (list_hash L) u [w] = Inr (map (list_hash L) ?Q)"
    by (simp add: if_queries_def p(1) o_def)
  show ?thesis
    unfolding if_sessions_ok_def Let_def
    using s by (simp del: of_nat_numeral of_nat_add add: env e q o_def map_replicate_const)
qed

definition ifd_L :: "u8 list list" where
  "ifd_L = map (\<lambda>s. if_key_bytes s 0) (dec_of {0, 2} 100 110 @ prefixes_of {0, 2} 105)"

definition ifd_env :: if_env where
  "ifd_env = \<lparr>if_blake3 = list_hash ifd_L, if_step2 = ideal_session, if_step3 = ideal_session,
     if_pad_keys = (\<lambda>i. of_nat (1000 + i)), if_pad_vals = (\<lambda>_. 0), if_log2ceil = (\<lambda>_. 6),
     if_t0 = \<lparr>tri_a = replicate 64 True, tri_b = replicate 64 True, tri_c = replicate 64 True, curTriple = 0\<rparr>,
     if_t1 = \<lparr>tri_a = replicate 64 False, tri_b = replicate 64 False, tri_c = replicate 64 False, curTriple = 0\<rparr>\<rparr>"

theorem ssIFMat_complete_witness:
  "\<exists>eR eS. ssIFMat ifd_env 10 1 [100] [105] [of_nat 1000000] [77] = Inr (eR, eS) \<and>
    length eR = 1 \<and> length eS = 1 \<and> eR ! 0 \<noteq> eS ! 0"
proof -
  have p: "getSelectedParam if_match_table ((10 :: u64) + 1) = Inr ({0, 2}, 5)"
    by (simp add: getSelectedParam_def if_match_table_def if_match_rows_def)
  have row: "row_ok (unat (10 :: u64) + 1) ({0, 2}, 5)" using row_11 by simp
  have "length (dec_of {0, 2} 100 110) \<le> 5" "length (prefixes_of {0, 2} 105) = 2"
    using dec_of(2) [OF row_11, of 110 100] prefixes_of(2) [of "{0, 2}" 105] by simp_all
  then have s: "if_sessions_ok ifd_env ({0, 2}, 5) 10 [100] [105] [of_nat 1000000]"
    by (intro if_hash_sessions [OF row, where L = ifd_L and N = 1000]) (auto simp: ifd_L_def ifd_env_def)
  show ?thesis
    using ssIFMat_complete [OF _ _ _ p _ _ _ _ s, of 10 1 "[77]"]
    by (simp add: ifd_env_def good_triples_def)
qed

end
