(* ===== verification/Fpsi_Lp.thy ===== *)
theory Fpsi_Lp
  imports Fpsi_Linf If_Match
begin

text \<open>
  The matching of points for the sum of powers of the coordinate distances,
  \<open>mp_ssFMat_lp_sh\<close> and \<open>mp_ssFMat_lp\<close> of fpsi_recv.cpp and fpsi_sender.cpp.  In
  every dimension the parties end with a mask and a share whose difference is the
  power of the distance; the sums over the dimensions go to the interval match.
  The shares of the vector OLE are arguments, with the relation its documentation
  states as a hypothesis.
\<close>

section \<open>Rows of 32-bit words\<close>

text \<open>A row of \<open>oc::Matrix<u32>\<close> as its bytes, and the words of a row.\<close>
fun pack_row :: "u32 list \<Rightarrow> block" where
  "pack_row [] = 0"
| "pack_row (v # vs) = ucast v OR push_bit 32 (pack_row vs)"

definition unpack_row :: "nat \<Rightarrow> block \<Rightarrow> u32 list" where
  "unpack_row n b = map (\<lambda>j. ucast (drop_bit (32 * j) b)) [0..<n]"

lemma bit_pack_row:
  "bit (pack_row vs) k \<longleftrightarrow> k < 128 \<and> k div 32 < length vs \<and> bit (vs ! (k div 32)) (k mod 32)"
proof (induction vs arbitrary: k)
  case (Cons v vs)
  have v: "bit v k \<Longrightarrow> k < 32" using bit_imp_le_length [of v k] by simp
  have b: "bit (pack_row (v # vs)) k \<longleftrightarrow> k < 128 \<and> (bit v k \<or> 32 \<le> k \<and> bit (pack_row vs) (k - 32))"
    by (auto simp: bit_simps)
  show ?case
  proof (cases "k < 32")
    case True
    then show ?thesis using b by simp
  next
    case False
    then obtain j where j: "k = j + 32" by (metis add.commute le_Suc_ex not_less)
    have "k div 32 = Suc (j div 32)" "k mod 32 = j mod 32" unfolding j by simp_all
    then show ?thesis using b v Cons [of j] unfolding j by auto
  qed
qed simp

lemma unpack_pack_row: "length vs \<le> 4 \<Longrightarrow> unpack_row (length vs) (pack_row vs) = vs"
proof (rule nth_equalityI)
  fix j assume l: "length vs \<le> 4" and "j < length (unpack_row (length vs) (pack_row vs))"
  then have j: "j < length vs" by (simp add: unpack_row_def)
  show "unpack_row (length vs) (pack_row vs) ! j = vs ! j"
    using j l by (intro bit_word_eqI) (auto simp: unpack_row_def bit_simps bit_pack_row)
qed (simp add: unpack_row_def)

lemma is_row_pack_row: "is_row (4 * length vs) (pack_row vs)"
  unfolding is_row_def low_bytes_def
  by (rule bit_word_eqI) (auto simp: bit_simps bit_pack_row div_less_iff_less_mult)

section \<open>Parameters of a run\<close>

text \<open>Sessions, random draws and the shares of the vector OLE.\<close>
record lp_env =
  le_blake3 :: "u8 list \<Rightarrow> block"
  le_step3 :: "nat \<Rightarrow> opprf_session"
  le_step5 :: "nat \<Rightarrow> opprf_session"
  le_pad_keys :: "nat \<Rightarrow> nat \<Rightarrow> block"
  le_pad_vals :: "nat \<Rightarrow> nat \<Rightarrow> block"
  le_empty_keys :: "nat \<Rightarrow> nat \<Rightarrow> block"
  le_empty_e :: "nat \<Rightarrow> nat \<Rightarrow> u32"
  le_a_vole :: "u32 list"
  le_c_vole :: "u32 list"
  le_d_vole :: "u32 list"
  le_delta :: u32
  le_if :: if_env

text \<open>\<open>bin_idx * vole_stride + dim_index * (METRIC - 1)\<close> and \<open>bin_idx * a_random_stride + dim_index * 2\<close>.\<close>
definition vole_idx :: "fpsi_params \<Rightarrow> nat \<Rightarrow> nat \<Rightarrow> nat" where
  "vole_idx prm bin_idx dim_index = bin_idx * (DIM prm * (METRIC prm - 1)) + dim_index * (METRIC prm - 1)"

definition random_idx :: "fpsi_params \<Rightarrow> nat \<Rightarrow> nat \<Rightarrow> nat" where
  "random_idx prm bin_idx dim_index = bin_idx * (DIM prm * 2) + dim_index * 2"

section \<open>The receiver's lists\<close>

text \<open>A row of \<open>prefix_vals\<close>: the random word, the powers of \<open>diff\<close> under the OLE shares, the last power.\<close>
definition lp_row :: "nat \<Rightarrow> u32 list \<Rightarrow> u32 list \<Rightarrow> nat \<Rightarrow> nat \<Rightarrow> u64 \<Rightarrow> u32 list" where
  "lp_row metric a_random a_vole ridx vidx diff =
     a_random ! ridx #
     map (\<lambda>p_index. a_vole ! (vidx + (p_index - 1)) + fast_pow diff (of_nat p_index)) [1..<metric] @
     [a_random ! (ridx + 1) + fast_pow diff (of_nat metric)]"

text \<open>
  One side of the interval of a point: every prefix, identifier and hash function;
  \<open>bnd\<close> is the end of the prefix that faces the point.
\<close>
definition lp_side ::
  "(u8 list \<Rightarrow> block) \<Rightarrow> fpsi_params \<Rightarrow> recv_data \<Rightarrow> u32 list \<Rightarrow> u32 list \<Rightarrow> nat \<Rightarrow> nat list \<Rightarrow>
   nat \<Rightarrow> (string \<Rightarrow> u64 result) \<Rightarrow> (u64 \<Rightarrow> u64) \<Rightarrow> string list \<Rightarrow> (block \<times> u32 list) list result" where
  "lp_side blake3 prm rd a_random a_vole dim_index id_idxs sigma bnd diff prefixs =
     rmap concat (mapR (\<lambda>prefix. rmap (\<lambda>x_star.
       concat (map (\<lambda>id_idx. map (\<lambda>k.
         let bin_idx = rd_locations rd ! id_idx ! k in
         (sigma_key blake3 sigma prefix (rd_ids rd ! id_idx) k bin_idx,
          lp_row (METRIC prm) a_random a_vole (random_idx prm bin_idx dim_index) (vole_idx prm bin_idx dim_index)
            (diff x_star))) [0..<3]) id_idxs)) (bnd prefix)) prefixs)"

text \<open>Step 1: \<open>id_idxs i\<close> are the identifiers of point \<open>i\<close>.\<close>
definition lp_list ::
  "(nat \<Rightarrow> nat list) \<Rightarrow> (u8 list \<Rightarrow> block) \<Rightarrow> fpsi_params \<Rightarrow> nat set \<Rightarrow> nat set \<Rightarrow> recv_data \<Rightarrow>
   u32 list \<Rightarrow> u32 list \<Rightarrow> nat \<Rightarrow> (block \<times> u32 list) list result" where
  "lp_list id_idxs blake3 prm u0 u1 rd a_random a_vole dim_index =
     rmap concat (mapR (\<lambda>i.
       let pt_dim = rd_pts rd ! i ! dim_index in
       rbind (set_dec (pt_dim - DELTA prm) pt_dim u0) (\<lambda>x_0.
       rbind (set_dec (pt_dim + 1) (pt_dim + DELTA prm) u1) (\<lambda>x_1.
       rbind (lp_side blake3 prm rd a_random a_vole dim_index (id_idxs i) 0 up_bound (\<lambda>s. pt_dim - s) x_0) (\<lambda>l0.
       rmap (append l0)
         (lp_side blake3 prm rd a_random a_vole dim_index (id_idxs i) 1 low_bound (\<lambda>s. s - pt_dim) x_1)))))
       [0..<length (rd_pts rd)])"

section \<open>The sender's queries\<close>

text \<open>The keys and the values \<open>e\<close> of a bin that holds the coordinate \<open>y\<close>.\<close>
definition lp_point_queries ::
  "(u8 list \<Rightarrow> block) \<Rightarrow> nat set \<Rightarrow> nat set \<Rightarrow> u64 \<Rightarrow> block \<Rightarrow> nat \<Rightarrow> nat \<Rightarrow> (block \<times> u64) list result" where
  "lp_point_queries blake3 u0 u1 y ident hash_idx i =
     rbind (set_prefix y u0) (\<lambda>prefixs_0.
     rbind (set_prefix y u1) (\<lambda>prefixs_1.
     rbind (mapR (\<lambda>prefix. rmap (\<lambda>b. (sigma_key blake3 0 prefix ident hash_idx i, b - y)) (up_bound prefix)) prefixs_0)
       (\<lambda>l0. rmap (append l0)
         (mapR (\<lambda>prefix. rmap (\<lambda>b. (sigma_key blake3 1 prefix ident hash_idx i, y - b)) (low_bound prefix)) prefixs_1))))"

text \<open>Step 2; \<open>w\<close> is \<open>prefix_size_each_bin\<close>.\<close>
definition lp_queries ::
  "(u8 list \<Rightarrow> block) \<Rightarrow> (nat \<Rightarrow> block) \<Rightarrow> (nat \<Rightarrow> u32) \<Rightarrow> nat set \<Rightarrow> nat set \<Rightarrow> nat \<Rightarrow> send_data \<Rightarrow> nat \<Rightarrow>
   (block \<times> u64) list result" where
  "lp_queries blake3 rnd_keys rnd_e u0 u1 w sd dim_index =
     rmap concat (mapR (\<lambda>i. case sd_bins sd ! i of
         None \<Rightarrow> Inr (map (\<lambda>j. (rnd_keys (i * w + j), ucast (rnd_e (i * w + j)))) [0..<w])
       | Some (idx, hash_idx) \<Rightarrow>
           lp_point_queries blake3 u0 u1 (sd_pts sd ! idx ! dim_index) (sd_ids sd ! idx) hash_idx i)
       [0..<length (sd_bins sd)])"

section \<open>Candidates and shares\<close>

text \<open>
  Step 4: the row the sender programs for a query; \<open>u\<close> is what it received.
  \<open>narrow\<close> is the conversion of \<open>e\<close>, which only the spatial variant makes.
\<close>
definition lp_candidate ::
  "(u64 \<Rightarrow> u64) \<Rightarrow> nat \<Rightarrow> u32 list \<Rightarrow> u32 \<Rightarrow> nat \<Rightarrow> u32 \<Rightarrow> u64 \<Rightarrow> u32 list \<Rightarrow> u32 list" where
  "lp_candidate narrow metric d_vole b_delta vidx msk e u =
     (let mid_val = (\<lambda>s. combination (of_nat metric) (of_nat s) * fast_pow (narrow e) (of_nat (metric - s)));
          u_hat = (if metric = 1 then u ! 1 + ucast e
            else fold (\<lambda>s acc. acc + (mid_val s * u ! s - d_vole ! (vidx + (s - 1)))) [1..<metric]
                   (u ! metric + fast_pow (narrow e) (of_nat metric)))
      in map (\<lambda>s. mid_val s + b_delta) [1..<metric] @ [msk - u_hat])"

text \<open>Step 5 of the receiver: its share \<open>v_hat\<close> of a bin.\<close>
definition lp_share :: "nat \<Rightarrow> u32 list \<Rightarrow> u32 list \<Rightarrow> nat \<Rightarrow> u32 \<Rightarrow> u32 list \<Rightarrow> u32" where
  "lp_share metric a_vole c_vole vidx ap v =
     fold (\<lambda>s acc. acc + (v ! (s - 1) * a_vole ! (vidx + (s - 1)) - c_vole ! (vidx + (s - 1)))) [1..<metric]
       (ap + v ! (metric - 1))"

definition lp_bin_key_bytes :: "u32 \<Rightarrow> nat \<Rightarrow> u8 list" where
  "lp_bin_key_bytes v bin_idx = word_bytes 4 v @ word_bytes 8 (of_nat bin_idx :: u64)"

text \<open>Step 3: what the receiver programs, padded; the rows are random there.\<close>
definition lp_prefix_keys :: "lp_env \<Rightarrow> nat \<Rightarrow> (block \<times> u32 list) list \<Rightarrow> nat \<Rightarrow> block list" where
  "lp_prefix_keys env opprf_size entries dim_index =
     padding_blocks (le_pad_keys env dim_index) (map fst entries) opprf_size"

definition lp_prefix_vals :: "lp_env \<Rightarrow> nat \<Rightarrow> nat \<Rightarrow> (block \<times> u32 list) list \<Rightarrow> nat \<Rightarrow> block list" where
  "lp_prefix_vals env metric opprf_size entries dim_index =
     padding_blocks (\<lambda>i. low_bytes (4 * (metric + 1)) (le_pad_vals env dim_index i))
       (map (\<lambda>x. pack_row (snd x)) entries) opprf_size"

text \<open>Step 4 of all positions, and the two lists of keys of step 5.\<close>
definition lp_candidates ::
  "(u64 \<Rightarrow> u64) \<Rightarrow> lp_env \<Rightarrow> fpsi_params \<Rightarrow> nat \<Rightarrow> (block \<times> u64) list \<Rightarrow> u32 list \<Rightarrow> nat \<Rightarrow> block list \<Rightarrow> block list" where
  "lp_candidates narrow env prm w queries masks dim_index u =
     map (\<lambda>x. pack_row (lp_candidate narrow (METRIC prm) (le_d_vole env) (le_delta env) (vole_idx prm (x div w) dim_index)
         (masks ! (x div w * DIM prm + dim_index)) (snd (queries ! x)) (unpack_row (METRIC prm + 1) (u ! x))))
       [0..<length u]"

definition lp_u0_keys :: "(u8 list \<Rightarrow> block) \<Rightarrow> nat \<Rightarrow> nat \<Rightarrow> block list \<Rightarrow> block list" where
  "lp_u0_keys blake3 metric w u =
     map (\<lambda>x. blake3 (lp_bin_key_bytes (unpack_row (metric + 1) (u ! x) ! 0) (x div w))) [0..<length u]"

definition lp_a0_queries :: "(u8 list \<Rightarrow> block) \<Rightarrow> fpsi_params \<Rightarrow> nat \<Rightarrow> u32 list \<Rightarrow> nat \<Rightarrow> block list" where
  "lp_a0_queries blake3 prm bins_num a_random dim_index =
     map (\<lambda>bin. blake3 (lp_bin_key_bytes (a_random ! random_idx prm bin dim_index) bin)) [0..<bins_num]"

text \<open>Steps 3 to 5 of the threads of one dimension: the receiver's shares \<open>v_hat\<close> of its bins.\<close>
definition lp_thread ::
  "(u64 \<Rightarrow> u64) \<Rightarrow> lp_env \<Rightarrow> fpsi_params \<Rightarrow> nat \<Rightarrow> nat \<Rightarrow> nat \<Rightarrow> (block \<times> u32 list) list \<Rightarrow> (block \<times> u64) list \<Rightarrow>
   u32 list \<Rightarrow> u32 list \<Rightarrow> nat \<Rightarrow> u32 list result" where
  "lp_thread narrow env prm w opprf_size bins_num entries queries a_random masks dim_index =
     (let p = METRIC prm; keys_size = w * bins_num
      in if opprf_size < length entries then Inl (Undefined_behaviour ''prefix_vals'')
         else rbind (opprf_call (le_step3 env dim_index) (4 * (p + 1)) keys_size opprf_size
             (lp_prefix_keys env opprf_size entries dim_index) (lp_prefix_vals env p opprf_size entries dim_index)
             (map fst queries) keys_size) (\<lambda>u.
           rbind (opprf_call (le_step5 env dim_index) (4 * p) bins_num keys_size
             (lp_u0_keys (le_blake3 env) p w u) (lp_candidates narrow env prm w queries masks dim_index u)
             (lp_a0_queries (le_blake3 env) prm bins_num a_random dim_index) bins_num) (\<lambda>sel.
           Inr (map (\<lambda>bin. lp_share p (le_a_vole env) (le_c_vole env) (vole_idx prm bin dim_index)
                  (a_random ! (random_idx prm bin dim_index + 1)) (unpack_row p (sel ! bin))) [0..<bins_num]))))"

section \<open>Both parties\<close>

text \<open>Step 6: the sums in \<open>u64\<close> of the receiver's shares and of the sender's masks.\<close>
definition lp_v_sums :: "nat \<Rightarrow> nat \<Rightarrow> u32 list list \<Rightarrow> u64 list" where
  "lp_v_sums dims bins_num v_hat =
     map (\<lambda>bin. fold (\<lambda>d acc. acc + ucast (v_hat ! d ! bin)) [0..<dims] 0) [0..<bins_num]"

definition lp_u_sums :: "nat \<Rightarrow> nat \<Rightarrow> u32 list \<Rightarrow> u64 list" where
  "lp_u_sums dims bins_num masks =
     map (\<lambda>bin. fold (\<lambda>d acc. acc + ucast (masks ! (bin * dims + d))) [0..<dims] 0) [0..<bins_num]"

definition lp_shares ::
  "(nat \<Rightarrow> nat list) \<Rightarrow> nat \<Rightarrow> nat \<Rightarrow> (u64 \<Rightarrow> u64) \<Rightarrow> lp_env \<Rightarrow> fpsi_params \<Rightarrow> prefix_param \<Rightarrow> prefix_param \<Rightarrow>
   recv_data \<Rightarrow> send_data \<Rightarrow> u32 list \<Rightarrow> u32 list \<Rightarrow> u32 list list result" where
  "lp_shares id_idxs cells w narrow env prm param0 param1 rd sd a_random masks =
     mapR (\<lambda>d.
       rbind (lp_list id_idxs (le_blake3 env) prm (fst param0) (fst param1) rd a_random (le_a_vole env) d) (\<lambda>entries.
       rbind (lp_queries (le_blake3 env) (le_empty_keys env d) (le_empty_e env d) (fst param0) (fst param1) w sd d) (\<lambda>queries.
       lp_thread narrow env prm w ((snd param0 + snd param1) * (length (rd_pts rd) * cells) * 3) (rd_bins_num rd)
         entries queries a_random masks d))) [0..<DIM prm]"

definition lp_fmat ::
  "(nat \<Rightarrow> nat list) \<Rightarrow> nat \<Rightarrow> (nat set \<Rightarrow> nat set \<Rightarrow> nat) \<Rightarrow> (u64 \<Rightarrow> u64) \<Rightarrow> lp_env \<Rightarrow> fpsi_params \<Rightarrow>
   recv_data \<Rightarrow> send_data \<Rightarrow> u32 list \<Rightarrow> u32 list \<Rightarrow> block list \<Rightarrow> u64 list \<Rightarrow> (bool list \<times> bool list) result" where
  "lp_fmat id_idxs cells width narrow env prm rd sd a_random masks a_if t_if =
     rbind (getSelectedParam lp_table (DELTA prm + 1)) (\<lambda>param0.
     rbind (getSelectedParam lp_table (DELTA prm)) (\<lambda>param1.
     rbind (lp_shares id_idxs cells (width (fst param0) (fst param1)) narrow env prm param0 param1 rd sd a_random masks)
       (\<lambda>v_hat. ssIFMat ((le_if env)\<lparr>if_blake3 := le_blake3 env\<rparr>) (DELTA prm) (METRIC prm)
          (lp_v_sums (DIM prm) (rd_bins_num rd) v_hat) (lp_u_sums (DIM prm) (rd_bins_num rd) masks) a_if t_if)))"

definition mp_ssFMat_lp_sh ::
  "lp_env \<Rightarrow> fpsi_params \<Rightarrow> recv_data \<Rightarrow> send_data \<Rightarrow> u32 list \<Rightarrow> u32 list \<Rightarrow> block list \<Rightarrow> u64 list \<Rightarrow>
   (bool list \<times> bool list) result" where
  "mp_ssFMat_lp_sh env prm =
     lp_fmat (\<lambda>i. map (\<lambda>idx. i * BLK_CELLS prm + idx) [0..<BLK_CELLS prm]) (BLK_CELLS prm)
       (\<lambda>u0 u1. card u0 + card u1) (\<lambda>e. ucast (ucast e :: u32)) env prm"

definition mp_ssFMat_lp ::
  "lp_env \<Rightarrow> fpsi_params \<Rightarrow> recv_data \<Rightarrow> send_data \<Rightarrow> u32 list \<Rightarrow> u32 list \<Rightarrow> block list \<Rightarrow> u64 list \<Rightarrow>
   (bool list \<times> bool list) result" where
  "mp_ssFMat_lp env prm =
     lp_fmat (\<lambda>i. [i]) 1 (\<lambda>u0 u1. card u1 * 2) (\<lambda>e. e) env prm"


section \<open>The algebra of the shares\<close>

lemma fold_plus_sum: "fold (\<lambda>s acc. acc + f s) [a..<b] x = x + (\<Sum>s \<in> {a..<b}. f s)"
  for f :: "nat \<Rightarrow> 'a::comm_monoid_add"
proof (induction b)
  case (Suc b)
  then show ?case by (cases "a \<le> b") (simp_all add: ac_simps)
qed simp

lemma nth_lp_row:
  "lp_row p a_random a_vole ridx vidx diff ! 0 = a_random ! ridx"
  "1 \<le> s \<Longrightarrow> s < p \<Longrightarrow> lp_row p a_random a_vole ridx vidx diff ! s = a_vole ! (vidx + (s - 1)) + fast_pow diff (of_nat s)"
  "0 < p \<Longrightarrow> lp_row p a_random a_vole ridx vidx diff ! p = a_random ! (ridx + 1) + fast_pow diff (of_nat p)"
  "0 < p \<Longrightarrow> length (lp_row p a_random a_vole ridx vidx diff) = p + 1"
  by (auto simp: lp_row_def nth_append nth_Cons' )

lemma fast_pow_u32: "p < 2 ^ 64 \<Longrightarrow> (fast_pow b (of_nat p) :: u32) = ucast b ^ p"
  by (simp add: fast_pow_eq unat_of_nat)

text \<open>The binomial coefficients of the powers the rows have room for.\<close>
lemma combination_small:
  assumes "p \<le> 4" "s \<le> p"
  shows "combination (of_nat p) (of_nat s) = (of_nat (p choose s) :: u32)"
proof -
  have u: "unat (of_nat p :: u32) = p" "unat (of_nat s :: u32) = s" using assms by (simp_all add: unat_of_nat)
  have "(p choose s) \<le> 2 ^ p" by (rule binomial_le_pow2)
  also have "(2::nat) ^ p \<le> 2 ^ 4" using assms(1) by (rule power_increasing) simp
  finally have "(p choose s) * p \<le> 16 * 4" using assms(1) by (intro mult_le_mono) simp_all
  then have "unat (combination (of_nat p) (of_nat s) :: u32) = p choose s"
    using combination_eq [of "of_nat p :: u32" "of_nat s"] by (simp add: u)
  then show ?thesis by (metis of_nat_unat ucast_id)
qed

lemma binomial_ends:
  fixes x y :: u32
  assumes "0 < p"
  shows "(x + y) ^ p = x ^ p + y ^ p + (\<Sum>s \<in> {1..<p}. of_nat (p choose s) * y ^ (p - s) * x ^ s)"
proof -
  have "(x + y) ^ p = (\<Sum>s \<le> p. of_nat (p choose s) * x ^ s * y ^ (p - s))" by (rule binomial_ring)
  also have "{..p} = insert 0 (insert p {1..<p})" using assms by auto
  also have "(\<Sum>s \<in> insert 0 (insert p {1..<p}). of_nat (p choose s) * x ^ s * y ^ (p - s)) =
      y ^ p + (x ^ p + (\<Sum>s \<in> {1..<p}. of_nat (p choose s) * x ^ s * y ^ (p - s)))"
    using assms by simp
  finally show ?thesis by (simp add: ac_simps)
qed

text \<open>
  The relation of the vector OLE: \<open>c = d + delta * a\<close> at the positions of a bin and
  a dimension.
\<close>
definition vole_ok :: "nat \<Rightarrow> u32 list \<Rightarrow> u32 list \<Rightarrow> u32 list \<Rightarrow> u32 \<Rightarrow> nat \<Rightarrow> bool" where
  "vole_ok p a_vole c_vole d_vole b_delta vidx \<longleftrightarrow>
     (\<forall>s < p - 1. c_vole ! (vidx + s) = d_vole ! (vidx + s) + b_delta * a_vole ! (vidx + s))"

lemma lp_share_value:
  assumes p: "1 \<le> p" "p \<le> 3" and vole: "vole_ok p a_vole c_vole d_vole b_delta vidx"
    and narrow: "ucast (narrow e) = (ucast e :: u32)"
  shows "lp_share p a_vole c_vole vidx (a_random ! (ridx + 1))
      (lp_candidate narrow p d_vole b_delta vidx msk e (lp_row p a_random a_vole ridx vidx diff)) =
    msk - (ucast diff + ucast e) ^ p"
proof -
  define x y where "x = (ucast diff :: u32)" and "y = (ucast e :: u32)"
  define a where "a s = a_vole ! (vidx + (s - 1))" for s
  define d where "d s = d_vole ! (vidx + (s - 1))" for s
  define c where "c s = c_vole ! (vidx + (s - 1))" for s
  define m where "m s = of_nat (p choose s) * y ^ (p - s)" for s
  let ?u = "lp_row p a_random a_vole ridx vidx diff"
  have p64: "p < 2 ^ 64" "\<And>s. s \<le> p \<Longrightarrow> s < 2 ^ 64" using p(2) by auto
  have mid: "combination (of_nat p) (of_nat s) * fast_pow (narrow e) (of_nat (p - s)) = m s" if "s < p" for s
    using that p fast_pow_u32 [OF p64(2), of "p - s" "narrow e"] combination_small [of p s]
    by (simp only: m_def y_def narrow)
  have c: "c s = d s + b_delta * a s" if "s \<in> {1..<p}" for s
    using vole [unfolded vole_ok_def, rule_format, of "s - 1"] that by (auto simp: c_def d_def a_def)
  have u: "?u ! s = a s + x ^ s" if "s \<in> {1..<p}" for s
    using that p p64(2) [of s] by (simp add: nth_lp_row fast_pow_u32 a_def x_def)
  have up: "?u ! p = a_random ! (ridx + 1) + x ^ p"
    using p p64 by (simp add: nth_lp_row fast_pow_u32 x_def)
  define u_hat where "u_hat = a_random ! (ridx + 1) + x ^ p + y ^ p + (\<Sum>s \<in> {1..<p}. m s * (a s + x ^ s) - d s)"
  let ?mid = "\<lambda>s. combination (of_nat p) (of_nat s) * fast_pow (narrow e) (of_nat (p - s))"
  have sum: "(\<Sum>s \<in> {1..<p}. ?mid s * ?u ! s - d_vole ! (vidx + (s - 1))) = (\<Sum>s \<in> {1..<p}. m s * (a s + x ^ s) - d s)"
    using mid u by (intro sum.cong) (simp_all add: d_def)
  have hat: "(if p = 1 then ?u ! 1 + ucast e
      else fold (\<lambda>s acc. acc + (?mid s * ?u ! s - d_vole ! (vidx + (s - 1)))) [1..<p]
             (?u ! p + fast_pow (narrow e) (of_nat p))) = u_hat"
  proof (cases "p = 1")
    case True
    then show ?thesis using up by (simp add: u_hat_def y_def)
  next
    case False
    then show ?thesis
      unfolding fold_plus_sum sum up using p64 by (simp add: u_hat_def fast_pow_u32 narrow y_def add.assoc)
  qed
  let ?v = "lp_candidate narrow p d_vole b_delta vidx msk e ?u"
  have v: "?v = map (\<lambda>s. ?mid s + b_delta) [1..<p] @ [msk - u_hat]"
    unfolding lp_candidate_def Let_def hat ..
  have vs: "?v ! (s - 1) = m s + b_delta" if "s \<in> {1..<p}" for s
  proof -
    have "s - Suc 0 < p - Suc 0" using that by auto
    then show ?thesis using that mid [of s] unfolding v by (simp add: nth_append)
  qed
  have vp: "?v ! (p - 1) = msk - u_hat" unfolding v by (simp add: nth_append)
  have "lp_share p a_vole c_vole vidx (a_random ! (ridx + 1)) ?v =
      a_random ! (ridx + 1) + (msk - u_hat) + (\<Sum>s \<in> {1..<p}. ?v ! (s - 1) * a s - c s)"
    unfolding lp_share_def fold_plus_sum vp by (simp add: a_def c_def)
  also have "(\<Sum>s \<in> {1..<p}. ?v ! (s - 1) * a s - c s) = (\<Sum>s \<in> {1..<p}. m s * a s - d s)"
    using vs c by (intro sum.cong) (simp_all add: algebra_simps)
  also have "a_random ! (ridx + 1) + (msk - u_hat) + (\<Sum>s \<in> {1..<p}. m s * a s - d s) =
      msk - (x ^ p + y ^ p + (\<Sum>s \<in> {1..<p}. m s * x ^ s))"
    by (simp add: u_hat_def sum_subtractf sum.distrib algebra_simps)
  also have "\<dots> = msk - (x + y) ^ p"
    using binomial_ends [of p x y] p(1) by (simp add: m_def)
  finally show ?thesis by (simp add: x_def y_def)
qed


section \<open>Entries of near values\<close>

lemma dec_bounds:
  assumes "row_ok t (u, b)" "x \<le> y" "unat y - unat x + 1 < 2 ^ 31" "set_dec x y u = Inr D" "s \<in> set D"
  shows "\<exists>l h. low_bound s = Inr l \<and> up_bound s = Inr h"
proof -
  have "length s \<le> 64" using set_dec_count [of u x y] assms by (auto simp: row_ok_def)
  then show ?thesis using bounds_of_prefix [OF digits_set_dec [OF assms(4,5)]] by blast
qed

lemma prefix_list_bounds:
  assumes "finite u" "u \<subseteq> {..64}" "set_prefix v u = Inr p" "s \<in> set p"
  shows "\<exists>l h. low_bound s = Inr l \<and> up_bound s = Inr h"
proof -
  obtain i where "s = to_binary_string v (64 - i)" using set_prefix_ok [OF assms(1,2), of v] assms(1,3,4) by auto
  then have "digits s" "length s \<le> 64" by (simp_all add: to_binary_string_def bitset_string_def)
      (metis bitset_string_def digits_take_bitset)
  then show ?thesis using bounds_of_prefix by blast
qed

lemma lp_side_eq:
  fixes blake3 prm rd a_random a_vole d sigma ids bnd diff
  defines "entry \<equiv> (\<lambda>s e k. (sigma_key blake3 sigma s (rd_ids rd ! e) k (rd_locations rd ! e ! k),
      lp_row (METRIC prm) a_random a_vole (random_idx prm (rd_locations rd ! e ! k) d)
        (vole_idx prm (rd_locations rd ! e ! k) d) (diff (projr (bnd s)))))"
  assumes "\<And>s. s \<in> set ps \<Longrightarrow> \<exists>b. bnd s = Inr b"
  shows "lp_side blake3 prm rd a_random a_vole d ids sigma bnd diff ps =
    Inr (concat (map (\<lambda>s. concat (map (\<lambda>e. map (entry s e) [0..<3]) ids)) ps))"
  unfolding lp_side_def
  by (rule rmap_concat_mapR) (use assms(2) in \<open>fastforce simp: entry_def Let_def cong: map_cong\<close>)

lemma lp_side_ok:
  fixes blake3 prm rd a_random a_vole d sigma ids bnd diff
  defines "entry \<equiv> (\<lambda>s e k. (sigma_key blake3 sigma s (rd_ids rd ! e) k (rd_locations rd ! e ! k),
      lp_row (METRIC prm) a_random a_vole (random_idx prm (rd_locations rd ! e ! k) d)
        (vole_idx prm (rd_locations rd ! e ! k) d) (diff (projr (bnd s)))))"
  assumes "\<And>s. s \<in> set ps \<Longrightarrow> \<exists>b. bnd s = Inr b"
  shows "\<exists>l. lp_side blake3 prm rd a_random a_vole d ids sigma bnd diff ps = Inr l \<and>
    length l = length ps * (length ids * 3) \<and> (\<forall>s \<in> set ps. \<forall>e \<in> set ids. \<forall>k < 3. entry s e k \<in> set l)"
proof -
  define f where "f s = concat (map (\<lambda>e. map (entry s e) [0..<3]) ids)" for s
  have "lp_side blake3 prm rd a_random a_vole d ids sigma bnd diff ps = Inr (concat (map f ps))"
    unfolding f_def entry_def by (rule lp_side_eq [OF assms(2)])
  moreover have "length (f s) = length ids * 3" for s by (simp add: f_def length_concat o_def sum_list_triv)
  then have "length (concat (map f ps)) = length ps * (length ids * 3)"
    by (simp add: length_concat o_def sum_list_triv)
  moreover have "entry s e k \<in> set (concat (map f ps))" if "s \<in> set ps" "e \<in> set ids" "k < 3" for s e k
  proof -
    have "entry s e k \<in> set (f s)" using that(2,3) by (auto simp: f_def intro!: bexI [of _ e] imageI)
    then show ?thesis using that(1) by auto
  qed
  ultimately show ?thesis by blast
qed

lemma lp_point_queries_eq:
  assumes "finite u0" "u0 \<subseteq> {..64}" "finite u1" "u1 \<subseteq> {..64}" "set_prefix y u0 = Inr p0" "set_prefix y u1 = Inr p1"
  shows "lp_point_queries blake3 u0 u1 y ident k i =
    Inr (map (\<lambda>s. (sigma_key blake3 0 s ident k i, projr (up_bound s) - y)) p0 @
      map (\<lambda>s. (sigma_key blake3 1 s ident k i, y - projr (low_bound s))) p1)"
proof -
  have "mapR (\<lambda>s. rmap (\<lambda>b. (sigma_key blake3 0 s ident k i, b - y)) (up_bound s)) p0 =
      Inr (map (\<lambda>s. (sigma_key blake3 0 s ident k i, projr (up_bound s) - y)) p0)"
    using prefix_list_bounds [OF assms(1,2,5)] by (intro mapR_Inr) fastforce
  moreover have "mapR (\<lambda>s. rmap (\<lambda>b. (sigma_key blake3 1 s ident k i, y - b)) (low_bound s)) p1 =
      Inr (map (\<lambda>s. (sigma_key blake3 1 s ident k i, y - projr (low_bound s))) p1)"
    using prefix_list_bounds [OF assms(3,4,6)] by (intro mapR_Inr) fastforce
  ultimately show ?thesis using assms(5,6) by (simp add: lp_point_queries_def)
qed

lemma lp_point_queries_ok:
  assumes "finite u0" "u0 \<subseteq> {..64}" "finite u1" "u1 \<subseteq> {..64}"
  shows "\<exists>ql p0 p1. lp_point_queries blake3 u0 u1 y ident k i = Inr ql \<and> length ql = card u0 + card u1 \<and>
    set_prefix y u0 = Inr p0 \<and> set_prefix y u1 = Inr p1 \<and>
    (\<forall>s \<in> set p0. (sigma_key blake3 0 s ident k i, projr (up_bound s) - y) \<in> set ql) \<and>
    (\<forall>s \<in> set p1. (sigma_key blake3 1 s ident k i, y - projr (low_bound s)) \<in> set ql)"
proof -
  obtain p0 p1 where p: "set_prefix y u0 = Inr p0" "length p0 = card u0" "set_prefix y u1 = Inr p1" "length p1 = card u1"
    using set_prefix_ok [OF assms(1,2), of y] set_prefix_ok [OF assms(3,4), of y] by simp
  then show ?thesis
    unfolding lp_point_queries_eq [OF assms p(1,3)]
    by (intro exI conjI) (rule refl, auto)
qed

text \<open>Where the entries of one point and identifier meet the queries of a near value.\<close>
definition lp_meets ::
  "fpsi_params \<Rightarrow> u32 list \<Rightarrow> u32 list \<Rightarrow> (block \<times> u32 list) list \<Rightarrow> (block \<times> u64) list \<Rightarrow> nat \<Rightarrow> nat \<Rightarrow> u64 \<Rightarrow> u64 \<Rightarrow> bool" where
  "lp_meets prm a_random a_vole entries ql bin d x y \<longleftrightarrow>
     (\<exists>q \<in> set ql. \<exists>diff. (fst q, lp_row (METRIC prm) a_random a_vole (random_idx prm bin d) (vole_idx prm bin d) diff) \<in> set entries \<and>
        ucast diff + ucast (snd q) = (ucast (abs_diff x y) :: u32))"

lemma ucast_split: "ucast a + ucast b = (ucast (a + b) :: u32)" for a b :: u64
proof -
  have "(ucast (a + b) :: u32) = of_nat (unat (a + b))" by simp
  also have "\<dots> = of_nat (unat a + unat b)"
    using of_nat_mod_u64 [of "unat a + unat b", where 't = 32] by (simp add: unat_word_ariths)
  finally show ?thesis by simp
qed

lemma lp_point_entries:
  assumes row: "row_ok (unat (DELTA prm) + 1) (u0, b0)" "row_ok (unat (DELTA prm)) (u1, b1)"
    and x: "margin_ok (DELTA prm) x"
  shows "\<exists>x0 x1. set_dec (x - DELTA prm) x u0 = Inr x0 \<and> set_dec (x + 1) (x + DELTA prm) u1 = Inr x1 \<and>
    (\<exists>l0. lp_side blake3 prm rd a_random a_vole d ids 0 up_bound (\<lambda>s. x - s) x0 = Inr l0 \<and>
    (\<exists>l1. lp_side blake3 prm rd a_random a_vole d ids 1 low_bound (\<lambda>s. s - x) x1 = Inr l1 \<and>
      length (l0 @ l1) \<le> (b0 + b1) * (length ids * 3) \<and>
      (\<forall>e \<in> set ids. \<forall>k < 3. \<forall>y ql. near (DELTA prm) x y \<and>
        lp_point_queries blake3 u0 u1 y (rd_ids rd ! e) k (rd_locations rd ! e ! k) = Inr ql \<longrightarrow>
        lp_meets prm a_random a_vole (l0 @ l1) ql (rd_locations rd ! e ! k) d x y)))"
proof -
  let ?D = "DELTA prm"
  have t: "1 < unat ?D" "unat ?D + 1 < 2 ^ 31" using row by (auto simp: row_ok_def)
  have u: "finite u0" "u0 \<subseteq> {..64}" "finite u1" "u1 \<subseteq> {..64}" using row by (auto simp: row_ok_def)
  have w: "unat (x - ?D) = unat x - unat ?D" "unat (x + ?D) = unat x + unat ?D" "unat (x + 1) = unat x + 1"
    using x t by (auto simp: margin_ok_def unat_sub_le word_le_nat_alt unat_add_le unat_Suc)
  have e0: "unat x = unat (x - ?D) + (unat ?D + 1 - 1)" and e1: "unat (x + ?D) = unat (x + 1) + (unat ?D - 1)"
    using x t by (simp_all add: w margin_ok_def)
  define x0 x1 where "x0 = projr (set_dec (x - ?D) x u0)" and "x1 = projr (set_dec (x + 1) (x + ?D) u1)"
  have x0: "set_dec (x - ?D) x u0 = Inr x0" "length x0 \<le> b0"
    and hit0: "x - ?D \<le> v \<Longrightarrow> v \<le> x \<Longrightarrow> set_prefix v u0 = Inr p \<Longrightarrow> \<exists>s. s \<in> set p \<and> s \<in> set x0" for v p
    using row_interval [OF row(1) e0] unfolding x0_def by (metis Inr_inject sum.sel(2))+
  have x1: "set_dec (x + 1) (x + ?D) u1 = Inr x1" "length x1 \<le> b1"
    and hit1: "x + 1 \<le> v \<Longrightarrow> v \<le> x + ?D \<Longrightarrow> set_prefix v u1 = Inr p \<Longrightarrow> \<exists>s. s \<in> set p \<and> s \<in> set x1" for v p
    using row_interval [OF row(2) e1] unfolding x1_def by (metis Inr_inject sum.sel(2))+
  have b0: "\<exists>h. up_bound s = Inr h" if "s \<in> set x0" for s
    using dec_bounds [OF row(1) _ _ x0(1) that] e0 t by (auto simp: word_le_nat_alt)
  have b1: "\<exists>h. low_bound s = Inr h" if "s \<in> set x1" for s
    using dec_bounds [OF row(2) _ _ x1(1) that] e1 t by (auto simp: word_le_nat_alt)
  obtain l0 where l0: "lp_side blake3 prm rd a_random a_vole d ids 0 up_bound (\<lambda>s. x - s) x0 = Inr l0"
    "length l0 = length x0 * (length ids * 3)"
    "\<And>s e k. s \<in> set x0 \<Longrightarrow> e \<in> set ids \<Longrightarrow> k < 3 \<Longrightarrow> (sigma_key blake3 0 s (rd_ids rd ! e) k (rd_locations rd ! e ! k),
      lp_row (METRIC prm) a_random a_vole (random_idx prm (rd_locations rd ! e ! k) d)
        (vole_idx prm (rd_locations rd ! e ! k) d) (x - projr (up_bound s))) \<in> set l0"
    using lp_side_ok [of x0 up_bound blake3 prm rd a_random a_vole d ids 0 "\<lambda>s. x - s"] b0 by blast
  obtain l1 where l1: "lp_side blake3 prm rd a_random a_vole d ids 1 low_bound (\<lambda>s. s - x) x1 = Inr l1"
    "length l1 = length x1 * (length ids * 3)"
    "\<And>s e k. s \<in> set x1 \<Longrightarrow> e \<in> set ids \<Longrightarrow> k < 3 \<Longrightarrow> (sigma_key blake3 1 s (rd_ids rd ! e) k (rd_locations rd ! e ! k),
      lp_row (METRIC prm) a_random a_vole (random_idx prm (rd_locations rd ! e ! k) d)
        (vole_idx prm (rd_locations rd ! e ! k) d) (projr (low_bound s) - x)) \<in> set l1"
    using lp_side_ok [of x1 low_bound blake3 prm rd a_random a_vole d ids 1 "\<lambda>s. s - x"] b1 by blast
  have len: "length (l0 @ l1) \<le> (b0 + b1) * (length ids * 3)"
    using l0(2) l1(2) x0(2) x1(2) by (simp add: add_mult_distrib add_mono mult_le_mono1)
  have "lp_meets prm a_random a_vole (l0 @ l1) ql (rd_locations rd ! e ! k) d x y"
    if h: "e \<in> set ids" "k < 3" "near ?D x y"
      "lp_point_queries blake3 u0 u1 y (rd_ids rd ! e) k (rd_locations rd ! e ! k) = Inr ql" for e k y ql
  proof -
    obtain p0 p1 where p: "set_prefix y u0 = Inr p0" "set_prefix y u1 = Inr p1"
      "\<And>s. s \<in> set p0 \<Longrightarrow> (sigma_key blake3 0 s (rd_ids rd ! e) k (rd_locations rd ! e ! k), projr (up_bound s) - y) \<in> set ql"
      "\<And>s. s \<in> set p1 \<Longrightarrow> (sigma_key blake3 1 s (rd_ids rd ! e) k (rd_locations rd ! e ! k), y - projr (low_bound s)) \<in> set ql"
      using lp_point_queries_ok [OF u, of blake3 y "rd_ids rd ! e" k "rd_locations rd ! e ! k"] h(4) by auto
    have nr: "x - ?D \<le> y" "y \<le> x + ?D" using near_interval(2) [OF x, of y] h(3) by simp_all
    show ?thesis
    proof (cases "y \<le> x")
      case True
      then obtain s where s: "s \<in> set p0" "s \<in> set x0" using hit0 [OF nr(1) True p(1)] by blast
      have "ucast (x - projr (up_bound s)) + ucast (projr (up_bound s) - y) = (ucast (abs_diff x y) :: u32)"
        using True by (simp add: ucast_split abs_diff_def)
      then show ?thesis unfolding lp_meets_def
        using l0(3) [OF s(2) h(1,2)] p(3) [OF s(1)] by force
    next
      case False
      then have "x + 1 \<le> y" using w(3) by (simp add: word_le_nat_alt)
      then obtain s where s: "s \<in> set p1" "s \<in> set x1" using hit1 [OF _ nr(2) p(2)] by blast
      have "ucast (projr (low_bound s) - x) + ucast (y - projr (low_bound s)) = (ucast (abs_diff x y) :: u32)"
        using False by (auto simp: ucast_split abs_diff_def dest: less_imp_le)
      then show ?thesis unfolding lp_meets_def
        using l1(3) [OF s(2) h(1,2)] p(4) [OF s(1)] by force
    qed
  qed
  then show ?thesis using x0(1) x1(1) l0(1) l1(1) len by blast
qed


lemma length_lp_row: "length (lp_row p a_random a_vole ridx vidx diff) = Suc (Suc (p - 1))"
  by (simp add: lp_row_def)

lemma lp_side_rows:
  assumes "lp_side blake3 prm rd a_random a_vole d ids sigma bnd diff ps = Inr l" "r \<in> snd ` set l"
  shows "length r = Suc (Suc (METRIC prm - 1))"
proof -
  define f where "f s x_star = concat (map (\<lambda>id_idx. map (\<lambda>k.
         let bin_idx = rd_locations rd ! id_idx ! k in
         (sigma_key blake3 sigma s (rd_ids rd ! id_idx) k bin_idx,
          lp_row (METRIC prm) a_random a_vole (random_idx prm bin_idx d) (vole_idx prm bin_idx d)
            (diff x_star))) [0..<3]) ids)" for s x_star
  have len: "length r = Suc (Suc (METRIC prm - 1))" if "r \<in> snd ` set (f s x)" for s x
    using that by (auto simp: f_def Let_def length_lp_row)
  obtain ls where ls: "mapR (\<lambda>s. rmap (f s) (bnd s)) ps = Inr ls" "l = concat ls"
    using assms(1) unfolding lp_side_def f_def by auto
  then obtain t where t: "t \<in> set ls" "r \<in> snd ` set t" using assms(2) by auto
  then obtain s where "rmap (f s) (bnd s) = Inr t" using mapR_set [OF ls(1)] by blast
  then show ?thesis using len t(2) by auto
qed

lemma lp_list_ok:
  assumes row: "row_ok (unat (DELTA prm) + 1) (u0, b0)" "row_ok (unat (DELTA prm)) (u1, b1)"
    and recv: "recv_ok loc cells prm rd" "d < DIM prm" and ids: "\<And>i. length (id_idxs i) = cells"
  shows "\<exists>es. lp_list id_idxs blake3 prm u0 u1 rd a_random a_vole d = Inr es \<and>
    length es \<le> (b0 + b1) * (length (rd_pts rd) * cells) * 3 \<and> (\<forall>r \<in> snd ` set es. length r = Suc (Suc (METRIC prm - 1))) \<and>
    (\<forall>i < length (rd_pts rd). \<forall>e \<in> set (id_idxs i). \<forall>k < 3. \<forall>y ql. near (DELTA prm) (rd_pts rd ! i ! d) y \<and>
        lp_point_queries blake3 u0 u1 y (rd_ids rd ! e) k (rd_locations rd ! e ! k) = Inr ql \<longrightarrow>
        lp_meets prm a_random a_vole es ql (rd_locations rd ! e ! k) d (rd_pts rd ! i ! d) y)"
proof -
  let ?x = "\<lambda>i. rd_pts rd ! i ! d"
  let ?side = "lp_side blake3 prm rd a_random a_vole d"
  define good where "good i l \<longleftrightarrow> length l \<le> (b0 + b1) * (cells * 3) \<and> (\<forall>r \<in> snd ` set l. length r = Suc (Suc (METRIC prm - 1))) \<and>
      (\<forall>e \<in> set (id_idxs i). \<forall>k < 3. \<forall>y ql. near (DELTA prm) (?x i) y \<and>
        lp_point_queries blake3 u0 u1 y (rd_ids rd ! e) k (rd_locations rd ! e ! k) = Inr ql \<longrightarrow>
        lp_meets prm a_random a_vole l ql (rd_locations rd ! e ! k) d (?x i) y)" for i l
  let ?f = "\<lambda>i. let pt_dim = ?x i in
       rbind (set_dec (pt_dim - DELTA prm) pt_dim u0) (\<lambda>x_0.
       rbind (set_dec (pt_dim + 1) (pt_dim + DELTA prm) u1) (\<lambda>x_1.
       rbind (?side (id_idxs i) 0 up_bound (\<lambda>s. pt_dim - s) x_0) (\<lambda>l0.
       rmap (append l0) (?side (id_idxs i) 1 low_bound (\<lambda>s. s - pt_dim) x_1))))"
  have rows: "length r = Suc (Suc (METRIC prm - 1))"
    if "?side is sigma bnd diff ps = Inr l" "r \<in> snd ` set l" for "is" sigma bnd diff ps l r
    using that by (rule lp_side_rows)
  have "\<exists>l. ?f i = Inr l \<and> good i l" if i: "i < length (rd_pts rd)" for i
  proof -
    obtain x0 x1 l0 l1 where l: "set_dec (?x i - DELTA prm) (?x i) u0 = Inr x0"
      "set_dec (?x i + 1) (?x i + DELTA prm) u1 = Inr x1"
      "?side (id_idxs i) 0 up_bound (\<lambda>s. ?x i - s) x0 = Inr l0" "?side (id_idxs i) 1 low_bound (\<lambda>s. s - ?x i) x1 = Inr l1"
      "length (l0 @ l1) \<le> (b0 + b1) * (cells * 3)"
      "\<forall>e \<in> set (id_idxs i). \<forall>k < 3. \<forall>y ql. near (DELTA prm) (?x i) y \<and>
        lp_point_queries blake3 u0 u1 y (rd_ids rd ! e) k (rd_locations rd ! e ! k) = Inr ql \<longrightarrow>
        lp_meets prm a_random a_vole (l0 @ l1) ql (rd_locations rd ! e ! k) d (?x i) y"
      using lp_point_entries [OF row recv_ok_margin [OF recv(1) i recv(2)], of blake3 rd a_random a_vole d "id_idxs i"] ids [of i]
      by metis
    have "?f i = Inr (l0 @ l1)" by (simp del: One_nat_def add: Let_def l(1-4))
    moreover have "length r = Suc (Suc (METRIC prm - 1))" if "r \<in> snd ` set (l0 @ l1)" for r
      using that rows [OF l(3), of r] rows [OF l(4), of r] unfolding set_append image_Un by blast
    then have "good i (l0 @ l1)" unfolding good_def using l(5,6) by blast
    ultimately show ?thesis by blast
  qed
  then obtain ls where ls: "mapR ?f [0..<length (rd_pts rd)] = Inr ls" "length ls = length (rd_pts rd)"
    "\<And>i. i < length (rd_pts rd) \<Longrightarrow> good i (ls ! i)"
    using mapR_upt [of "length (rd_pts rd)" ?f good] by blast
  have "lp_list id_idxs blake3 prm u0 u1 rd a_random a_vole d = Inr (concat ls)"
    unfolding lp_list_def ls(1) by simp
  moreover have "length (concat ls) \<le> length (rd_pts rd) * ((b0 + b1) * (cells * 3))"
    using length_concat_le [of ls id "(b0 + b1) * (cells * 3)"] ls(2,3) by (auto simp: in_set_conv_nth good_def)
  moreover have "length r = Suc (Suc (METRIC prm - 1))" if r: "r \<in> snd ` set (concat ls)" for r
  proof -
    obtain l where l: "l \<in> set ls" "r \<in> snd ` set l" using r by auto
    then obtain i where "i < length (rd_pts rd)" "ls ! i = l" using ls(2) by (auto simp: in_set_conv_nth)
    then show ?thesis using ls(3) [of i] l(2) unfolding good_def by blast
  qed
  moreover have "lp_meets prm a_random a_vole (concat ls) ql (rd_locations rd ! e ! k) d (?x i) y"
    if h: "i < length (rd_pts rd)" "e \<in> set (id_idxs i)" "k < 3" "near (DELTA prm) (?x i) y"
      "lp_point_queries blake3 u0 u1 y (rd_ids rd ! e) k (rd_locations rd ! e ! k) = Inr ql" for i e k y ql
  proof -
    have "ls ! i \<in> set ls" using h(1) ls(2) by simp
    then have sub: "set (ls ! i) \<subseteq> set (concat ls)" by auto
    have "lp_meets prm a_random a_vole (ls ! i) ql (rd_locations rd ! e ! k) d (?x i) y"
      using ls(3) [OF h(1)] h(2-5) unfolding good_def by blast
    then show ?thesis using sub unfolding lp_meets_def by blast
  qed
  moreover have "length (rd_pts rd) * ((b0 + b1) * (cells * 3)) = (b0 + b1) * (length (rd_pts rd) * cells) * 3"
    by (simp only: ac_simps)
  ultimately show ?thesis by (intro exI [of _ "concat ls"]) (simp only:, blast)
qed

lemma lp_queries_ok:
  assumes u: "finite u0" "u0 \<subseteq> {..64}" "finite u1" "u1 \<subseteq> {..64}" and w: "w = card u0 + card u1"
  shows "\<exists>qs. lp_queries blake3 rk re u0 u1 w sd d = Inr qs \<and> length qs = w * length (sd_bins sd) \<and>
    (\<forall>i < length (sd_bins sd). \<forall>idx k. sd_bins sd ! i = Some (idx, k) \<longrightarrow>
       (\<exists>ql. lp_point_queries blake3 u0 u1 (sd_pts sd ! idx ! d) (sd_ids sd ! idx) k i = Inr ql \<and>
          (\<forall>q \<in> set ql. \<exists>j < w. qs ! (w * i + j) = q)))"
proof -
  let ?f = "\<lambda>i. case sd_bins sd ! i of
         None \<Rightarrow> Inr (map (\<lambda>j. (rk (i * w + j), ucast (re (i * w + j)))) [0..<w])
       | Some (idx, hash_idx) \<Rightarrow>
           lp_point_queries blake3 u0 u1 (sd_pts sd ! idx ! d) (sd_ids sd ! idx) hash_idx i"
  define g where "g i = projr (?f i)" for i
  have g: "?f i = Inr (g i)" "length (g i) = w" for i
  proof -
    have "\<exists>l. ?f i = Inr l \<and> length l = w"
    proof (cases "sd_bins sd ! i")
      case (Some b)
      obtain idx k where b: "b = (idx, k)" by (cases b)
      obtain ql where "lp_point_queries blake3 u0 u1 (sd_pts sd ! idx ! d) (sd_ids sd ! idx) k i = Inr ql" "length ql = w"
        using lp_point_queries_ok [OF u, of blake3 "sd_pts sd ! idx ! d" "sd_ids sd ! idx" k i] w by blast
      then show ?thesis using Some b by simp
    qed simp
    then show "?f i = Inr (g i)" "length (g i) = w" by (auto simp: g_def)
  qed
  have "lp_queries blake3 rk re u0 u1 w sd d = Inr (concat (map g [0..<length (sd_bins sd)]))"
    unfolding lp_queries_def by (rule rmap_concat_mapR) (rule g(1))
  moreover have "length (concat (map g [0..<length (sd_bins sd)])) = w * length (sd_bins sd)"
    by (simp add: length_concat o_def g(2) sum_list_triv)
  moreover have "\<exists>ql. lp_point_queries blake3 u0 u1 (sd_pts sd ! idx ! d) (sd_ids sd ! idx) k i = Inr ql \<and>
      (\<forall>q \<in> set ql. \<exists>j < w. concat (map g [0..<length (sd_bins sd)]) ! (w * i + j) = q)"
    if i: "i < length (sd_bins sd)" "sd_bins sd ! i = Some (idx, k)" for i idx k
  proof -
    have "\<exists>j < w. concat (map g [0..<length (sd_bins sd)]) ! (w * i + j) = q" if q: "q \<in> set (g i)" for q
    proof -
      obtain j where "j < w" "g i ! j = q" using q g(2) [of i] by (auto simp: in_set_conv_nth)
      then show ?thesis using nth_concat_map [of "length (sd_bins sd)" g w i j] g(2) i(1) by auto
    qed
    then show ?thesis using g(1) [of i] i(2) by auto
  qed
  ultimately show ?thesis by blast
qed


section \<open>The shares of one dimension\<close>

lemma length_lp_candidate: "length (lp_candidate narrow p d_vole b vidx m e u) = Suc (p - 1)"
  by (simp add: lp_candidate_def Let_def)

lemma lp_thread_ok:
  fixes env prm size entries d
  defines "p \<equiv> METRIC prm" and "keys \<equiv> lp_prefix_keys env size entries d"
    and "vals \<equiv> lp_prefix_vals env (METRIC prm) size entries d"
  assumes p: "1 \<le> p" "p \<le> 3"
    and es: "length entries \<le> size" "\<forall>r \<in> snd ` set entries. length r = Suc (Suc (p - 1))"
    and qs: "length qs = w * B"
    and narrow: "\<And>e. ucast (narrow e) = (ucast e :: u32)"
    and vole: "\<And>bin. bin < B \<Longrightarrow> vole_ok p (le_a_vole env) (le_c_vole env) (le_d_vole env) (le_delta env) (vole_idx prm bin d)"
    and ok3: "opprf_session_ok (le_step3 env d) (4 * (p + 1)) keys (map fst qs)"
    and ok5: "\<And>us. opprf_run (le_step3 env d) (4 * (p + 1)) keys vals (map fst qs) = Inr us \<Longrightarrow>
      opprf_session_ok (le_step5 env d) (4 * p) (lp_u0_keys (le_blake3 env) p w us)
        (lp_a0_queries (le_blake3 env) prm B a_random d)"
  shows "\<exists>vh. lp_thread narrow env prm w size B entries qs a_random masks d = Inr vh \<and> length vh = B \<and>
    (\<forall>bin < B. \<forall>j < w. \<forall>diff. (fst (qs ! (w * bin + j)),
        lp_row p a_random (le_a_vole env) (random_idx prm bin d) (vole_idx prm bin d) diff) \<in> set entries \<longrightarrow>
      vh ! bin = masks ! (bin * DIM prm + d) - (ucast diff + ucast (snd (qs ! (w * bin + j)))) ^ p)"
proof -
  have l: "length keys = size" "length vals = length keys"
    using es(1) by (simp_all add: keys_def vals_def lp_prefix_keys_def lp_prefix_vals_def length_padding_blocks)
  have pr: "is_row (4 * (p + 1)) (pack_row r)" if "r \<in> snd ` set entries" for r
    using es(2) that p(1) is_row_pack_row [of r] by auto
  have rows: "\<forall>v \<in> set vals. is_row (4 * (p + 1)) v"
    using pr by (auto simp: vals_def lp_prefix_vals_def padding_blocks_def p_def)
  obtain us where us: "opprf_run (le_step3 env d) (4 * (p + 1)) keys vals (map fst qs) = Inr us" "length us = w * B"
    using opprf.run_length [OF ok3 l(2) rows] qs by auto
  let ?k5 = "lp_u0_keys (le_blake3 env) p w us" and ?q5 = "lp_a0_queries (le_blake3 env) prm B a_random d"
  let ?c = "lp_candidates narrow env prm w qs masks d us"
  have l5: "length ?c = length ?k5" "length ?k5 = w * B" "length ?q5 = B"
    using us(2) by (simp_all add: lp_candidates_def lp_u0_keys_def lp_a0_queries_def)
  have rows5: "\<forall>v \<in> set ?c. is_row (4 * p) v"
  proof -
    have "is_row (4 * p) (pack_row (lp_candidate narrow p dv b vi m e u))" for dv b vi m e u
      using is_row_pack_row [of "lp_candidate narrow p dv b vi m e u"] p(1) by (simp add: length_lp_candidate)
    then show ?thesis by (auto simp: lp_candidates_def p_def)
  qed
  obtain sel where sel: "opprf_run (le_step5 env d) (4 * p) ?k5 ?c ?q5 = Inr sel" "length sel = B"
    using opprf.run_length [OF ok5 [OF us(1)] l5(1) rows5] l5(3) by auto
  let ?vh = "map (\<lambda>bin. lp_share p (le_a_vole env) (le_c_vole env) (vole_idx prm bin d)
      (a_random ! (random_idx prm bin d + 1)) (unpack_row p (sel ! bin))) [0..<B]"
  have run: "lp_thread narrow env prm w size B entries qs a_random masks d = Inr ?vh"
    using us(1) sel(1) es(1) l l5 qs opprf_call_eq [of "le_step3 env d" "4 * (p + 1)" "map fst qs" keys vals]
      opprf_call_eq [of "le_step5 env d" "4 * p" ?q5 ?k5 ?c]
    unfolding lp_thread_def Let_def keys_def vals_def p_def [symmetric] by simp
  have "?vh ! bin = masks ! (bin * DIM prm + d) - (ucast diff + ucast (snd (qs ! (w * bin + j)))) ^ p"
    if h: "bin < B" "j < w" "(fst (qs ! (w * bin + j)),
        lp_row p a_random (le_a_vole env) (random_idx prm bin d) (vole_idx prm bin d) diff) \<in> set entries" for bin j diff
  proof -
    let ?x = "w * bin + j" and ?row = "lp_row p a_random (le_a_vole env) (random_idx prm bin d) (vole_idx prm bin d) diff"
    have "w * bin + j < w * Suc bin" using h(2) by simp
    also have "\<dots> \<le> w * B" using h(1) by (intro mult_le_mono2) simp
    finally have x: "?x < w * B" .
    have xd: "?x div w = bin" using h(2) by simp
    have "(fst (qs ! ?x), pack_row ?row) \<in> set (map (\<lambda>x. (fst x, pack_row (snd x))) entries)" using h(3) by force
    from padding_entry [OF this, of size "le_pad_keys env d" "\<lambda>i. low_bytes (4 * (METRIC prm + 1)) (le_pad_vals env d i)"]
    obtain n where n: "n < size" "keys ! n = fst (qs ! ?x)" "vals ! n = pack_row ?row"
      using es(1) by (auto simp: keys_def vals_def lp_prefix_keys_def lp_prefix_vals_def o_def)
    have "us ! ?x = pack_row ?row"
      using opprf.run_programmed [OF ok3 l(2) rows us(1), of ?x n] n x qs l by simp
    then have u: "unpack_row (p + 1) (us ! ?x) = ?row"
      using unpack_pack_row [of ?row] p by (simp add: length_lp_row)
    let ?cand = "lp_candidate narrow p (le_d_vole env) (le_delta env) (vole_idx prm bin d)
      (masks ! (bin * DIM prm + d)) (snd (qs ! ?x)) ?row"
    have "?k5 ! ?x = ?q5 ! bin"
      using x h(1) us(2) u xd by (simp add: lp_u0_keys_def lp_a0_queries_def nth_lp_row(1))
    then have "sel ! bin = ?c ! ?x"
      using opprf.run_programmed [OF ok5 [OF us(1)] l5(1) rows5 sel(1), of bin ?x] x h(1) l5(2,3) by simp
    also have "\<dots> = pack_row ?cand" using x us(2) u xd by (simp add: lp_candidates_def p_def)
    finally have "unpack_row p (sel ! bin) = ?cand"
      using unpack_pack_row [of ?cand] p by (simp add: length_lp_candidate)
    then show ?thesis
      using lp_share_value [OF p vole [OF h(1)], where narrow = narrow and e = "snd (qs ! ?x)"] narrow h(1) by simp
  qed
  then show ?thesis using run by auto
qed


section \<open>The sums\<close>

lemma unat_sum_u32:
  fixes f :: "nat \<Rightarrow> u32"
  assumes "D \<le> 2 ^ 31"
  shows "unat (fold (\<lambda>d acc. acc + ucast (f d)) [0..<D] (0 :: u64)) = (\<Sum>d < D. unat (f d))"
proof -
  have "(\<Sum>d < D. unat (f d)) \<le> D * 2 ^ 32"
    using sum_bounded_above [of "{..<D}" "\<lambda>d. unat (f d)" "2 ^ 32"] unat_less_pow2 [where 'a = 32] by (simp add: less_imp_le)
  also have "\<dots> \<le> 2 ^ 31 * 2 ^ 32" using assms by (rule mult_le_mono1)
  finally have "unat (of_nat (\<Sum>d < D. unat (f d)) :: u64) = (\<Sum>d < D. unat (f d))"
    by (simp add: unat_of_nat del: of_nat_sum)
  moreover have "fold (\<lambda>d acc. acc + ucast (f d)) [0..<D] (0 :: u64) = of_nat (\<Sum>d < D. unat (f d))"
    unfolding fold_plus_sum by (simp add: atLeast0LessThan)
  ultimately show ?thesis by simp
qed

text \<open>The sum of the powers of the distances of two points, and a point within the radius.\<close>
definition lp_distance :: "fpsi_params \<Rightarrow> pt \<Rightarrow> pt \<Rightarrow> nat" where
  "lp_distance prm x y = (\<Sum>d < DIM prm. unat (abs_diff (x ! d) (y ! d)) ^ METRIC prm)"

definition lp_close :: "fpsi_params \<Rightarrow> pt \<Rightarrow> pt \<Rightarrow> bool" where
  "lp_close prm x y \<longleftrightarrow> lp_distance prm x y \<le> unat (DELTA prm) ^ METRIC prm"

lemma lp_close_near:
  assumes "lp_close prm x y" "d < DIM prm" "0 < METRIC prm"
  shows "near (DELTA prm) (x ! d) (y ! d)" "unat (abs_diff (x ! d) (y ! d)) ^ METRIC prm \<le> unat (DELTA prm) ^ METRIC prm"
proof -
  have "unat (abs_diff (x ! d) (y ! d)) ^ METRIC prm \<le> lp_distance prm x y"
    unfolding lp_distance_def using assms(2) by (intro member_le_sum) auto
  then show le: "unat (abs_diff (x ! d) (y ! d)) ^ METRIC prm \<le> unat (DELTA prm) ^ METRIC prm"
    using assms(1) by (simp add: lp_close_def)
  then have "unat (abs_diff (x ! d) (y ! d)) \<le> unat (DELTA prm)"
    using assms(3) by (metis power_mono_iff zero_le)
  then show "near (DELTA prm) (x ! d) (y ! d)"
    unfolding near_def using unat_abs_diff [of "x ! d" "y ! d"] by linarith
qed

text \<open>
  A point of the sender in bin \<open>j\<close> has the identifier of a close point of the
  receiver, and no mask of the bin is smaller than the power of the distance it
  hides.
\<close>
definition lp_match :: "nat \<Rightarrow> fpsi_params \<Rightarrow> recv_data \<Rightarrow> send_data \<Rightarrow> u32 list \<Rightarrow> nat \<Rightarrow> nat \<Rightarrow> bool" where
  "lp_match cells prm rd sd masks j idx \<longleftrightarrow>
     (\<exists>i < length (rd_pts rd). \<exists>c < cells. rd_ids rd ! (i * cells + c) = sd_ids sd ! idx \<and>
        lp_close prm (rd_pts rd ! i) (sd_pts sd ! idx) \<and>
        (\<forall>d < DIM prm. unat (abs_diff (rd_pts rd ! i ! d) (sd_pts sd ! idx ! d)) ^ METRIC prm \<le>
           unat (masks ! (j * DIM prm + d))))"

lemma masked_power:
  fixes m :: u32
  assumes "unat x ^ p \<le> unat m"
  shows "unat (m - ucast x ^ p) = unat m - unat (x :: u64) ^ p"
proof -
  have "(ucast x ^ p :: u32) = of_nat (unat x ^ p)" by simp
  moreover have "unat (of_nat (unat x ^ p) :: u32) = unat x ^ p"
    using assms unat_less_pow2 [of m] by (simp only: unat_of_nat) simp
  ultimately show ?thesis using assms by (metis unat_sub_le word_le_nat_alt)
qed

lemma lp_sums_range:
  assumes D: "DIM prm \<le> 2 ^ 31" and j: "j < B" and p: "0 < METRIC prm" and close: "lp_close prm x y"
    and fits: "\<And>d. d < DIM prm \<Longrightarrow> unat (abs_diff (x ! d) (y ! d)) ^ METRIC prm \<le> unat (masks ! (j * DIM prm + d))"
    and v: "\<And>d. d < DIM prm \<Longrightarrow> v_hat ! d ! j = masks ! (j * DIM prm + d) - ucast (abs_diff (x ! d) (y ! d)) ^ METRIC prm"
  shows "unat (lp_u_sums (DIM prm) B masks ! j) = unat (lp_v_sums (DIM prm) B v_hat ! j) + lp_distance prm x y"
proof -
  have "unat (lp_v_sums (DIM prm) B v_hat ! j) = (\<Sum>d < DIM prm. unat (v_hat ! d ! j))"
    using j by (simp add: lp_v_sums_def unat_sum_u32 [OF D])
  also have "\<dots> = (\<Sum>d < DIM prm. unat (masks ! (j * DIM prm + d)) - unat (abs_diff (x ! d) (y ! d)) ^ METRIC prm)"
    using v masked_power [OF fits] by (intro sum.cong) simp_all
  finally have "unat (lp_v_sums (DIM prm) B v_hat ! j) + lp_distance prm x y = (\<Sum>d < DIM prm. unat (masks ! (j * DIM prm + d)))"
    unfolding lp_distance_def using fits by (simp flip: sum.distrib)
  then show ?thesis using j by (simp add: lp_u_sums_def unat_sum_u32 [OF D])
qed


section \<open>The shares of the equality test\<close>

text \<open>The sessions are set up for the keys, queries and values of the run.\<close>
definition lp_sessions_ok ::
  "(nat \<Rightarrow> nat list) \<Rightarrow> nat \<Rightarrow> nat \<Rightarrow> lp_env \<Rightarrow> fpsi_params \<Rightarrow> prefix_param \<Rightarrow> prefix_param \<Rightarrow>
   recv_data \<Rightarrow> send_data \<Rightarrow> u32 list \<Rightarrow> bool" where
  "lp_sessions_ok id_idxs cells w env prm param0 param1 rd sd a_random \<longleftrightarrow>
     (\<forall>d < DIM prm. \<forall>entries qs.
        lp_list id_idxs (le_blake3 env) prm (fst param0) (fst param1) rd a_random (le_a_vole env) d = Inr entries \<and>
        lp_queries (le_blake3 env) (le_empty_keys env d) (le_empty_e env d) (fst param0) (fst param1) w sd d = Inr qs \<longrightarrow>
        (let p = METRIC prm; size = (snd param0 + snd param1) * (length (rd_pts rd) * cells) * 3;
             keys = lp_prefix_keys env size entries d; vals = lp_prefix_vals env p size entries d
         in opprf_session_ok (le_step3 env d) (4 * (p + 1)) keys (map fst qs) \<and>
            (\<forall>us. opprf_run (le_step3 env d) (4 * (p + 1)) keys vals (map fst qs) = Inr us \<longrightarrow>
               opprf_session_ok (le_step5 env d) (4 * p) (lp_u0_keys (le_blake3 env) p w us)
                 (lp_a0_queries (le_blake3 env) prm (rd_bins_num rd) a_random d))))"

definition if_peqt_ok :: "if_env \<Rightarrow> nat \<Rightarrow> bool" where
  "if_peqt_ok env n \<longleftrightarrow> (64 :: nat) \<le> 2 ^ if_log2ceil env 64 \<and> curTriple (if_t0 env) = 0 \<and> curTriple (if_t1 env) = 0 \<and>
     good_triples (if_t0 env) (if_t1 env) (n * 64)"

lemma lp_shares_ok:
  assumes p: "1 \<le> METRIC prm" "METRIC prm \<le> 3"
    and row: "row_ok (unat (DELTA prm) + 1) (u0, b0)" "row_ok (unat (DELTA prm)) (u1, b1)" and w: "w = card u0 + card u1"
    and recv: "recv_ok loc cells prm rd" and send: "send_ok loc prm rd sd"
    and ids: "\<And>i. id_idxs i = map (\<lambda>c. i * cells + c) [0..<cells]" and narrow: "\<And>e. ucast (narrow e) = (ucast e :: u32)"
    and vole: "\<And>bin d. bin < rd_bins_num rd \<Longrightarrow> d < DIM prm \<Longrightarrow>
      vole_ok (METRIC prm) (le_a_vole env) (le_c_vole env) (le_d_vole env) (le_delta env) (vole_idx prm bin d)"
    and ses: "lp_sessions_ok id_idxs cells w env prm (u0, b0) (u1, b1) rd sd a_random"
  shows "\<exists>v_hat. lp_shares id_idxs cells w narrow env prm (u0, b0) (u1, b1) rd sd a_random masks = Inr v_hat \<and>
    (\<forall>j < rd_bins_num rd. \<forall>idx k i c. sd_bins sd ! j = Some (idx, k) \<and> i < length (rd_pts rd) \<and> c < cells \<and>
       rd_ids rd ! (i * cells + c) = sd_ids sd ! idx \<and> lp_close prm (rd_pts rd ! i) (sd_pts sd ! idx) \<longrightarrow>
       (\<forall>d < DIM prm. v_hat ! d ! j =
          masks ! (j * DIM prm + d) - ucast (abs_diff (rd_pts rd ! i ! d) (sd_pts sd ! idx ! d)) ^ METRIC prm))"
proof -
  let ?B = "rd_bins_num rd" and ?size = "(b0 + b1) * (length (rd_pts rd) * cells) * 3" and ?p = "METRIC prm"
  have u: "finite u0" "u0 \<subseteq> {..64}" "finite u1" "u1 \<subseteq> {..64}" using row by (auto simp: row_ok_def)
  have bins: "length (sd_bins sd) = ?B" "cuckoo_ok loc (sd_ids sd) (sd_bins sd)" using send by (simp_all add: send_ok_def)
  let ?x = "\<lambda>i d. rd_pts rd ! i ! d" and ?y = "\<lambda>idx d. sd_pts sd ! idx ! d"
  define good where "good d vh \<longleftrightarrow> (\<forall>j < ?B. \<forall>idx k i c. sd_bins sd ! j = Some (idx, k) \<and> i < length (rd_pts rd) \<and> c < cells \<and>
       rd_ids rd ! (i * cells + c) = sd_ids sd ! idx \<and> near (DELTA prm) (?x i d) (?y idx d) \<longrightarrow>
       vh ! j = masks ! (j * DIM prm + d) - ucast (abs_diff (?x i d) (?y idx d)) ^ ?p)" for d vh
  let ?thread = "\<lambda>d. rbind (lp_list id_idxs (le_blake3 env) prm u0 u1 rd a_random (le_a_vole env) d) (\<lambda>entries.
       rbind (lp_queries (le_blake3 env) (le_empty_keys env d) (le_empty_e env d) u0 u1 w sd d) (\<lambda>queries.
       lp_thread narrow env prm w ?size ?B entries queries a_random masks d))"
  have "\<exists>vh. ?thread d = Inr vh \<and> good d vh" if d: "d < DIM prm" for d
  proof -
    obtain es where es: "lp_list id_idxs (le_blake3 env) prm u0 u1 rd a_random (le_a_vole env) d = Inr es"
      "length es \<le> ?size" "\<forall>r \<in> snd ` set es. length r = Suc (Suc (?p - 1))"
      "\<And>i e k y ql. i < length (rd_pts rd) \<Longrightarrow> e \<in> set (id_idxs i) \<Longrightarrow> k < 3 \<Longrightarrow> near (DELTA prm) (?x i d) y \<Longrightarrow>
        lp_point_queries (le_blake3 env) u0 u1 y (rd_ids rd ! e) k (rd_locations rd ! e ! k) = Inr ql \<Longrightarrow>
        lp_meets prm a_random (le_a_vole env) es ql (rd_locations rd ! e ! k) d (?x i d) y"
      using lp_list_ok [OF row recv d, of id_idxs "le_blake3 env" a_random "le_a_vole env"] ids by auto
    obtain qs where qs: "lp_queries (le_blake3 env) (le_empty_keys env d) (le_empty_e env d) u0 u1 w sd d = Inr qs"
      "length qs = w * ?B"
      "\<And>j idx k. j < ?B \<Longrightarrow> sd_bins sd ! j = Some (idx, k) \<Longrightarrow>
       \<exists>ql. lp_point_queries (le_blake3 env) u0 u1 (?y idx d) (sd_ids sd ! idx) k j = Inr ql \<and>
          (\<forall>q \<in> set ql. \<exists>n < w. qs ! (w * j + n) = q)"
      using lp_queries_ok [OF u w, of "le_blake3 env" "le_empty_keys env d" "le_empty_e env d" sd d] bins(1) by auto
    have ok: "opprf_session_ok (le_step3 env d) (4 * (?p + 1)) (lp_prefix_keys env ?size es d) (map fst qs)"
      "\<And>us. opprf_run (le_step3 env d) (4 * (?p + 1)) (lp_prefix_keys env ?size es d) (lp_prefix_vals env ?p ?size es d)
          (map fst qs) = Inr us \<Longrightarrow>
        opprf_session_ok (le_step5 env d) (4 * ?p) (lp_u0_keys (le_blake3 env) ?p w us)
          (lp_a0_queries (le_blake3 env) prm ?B a_random d)"
      using ses es(1) qs(1) d unfolding lp_sessions_ok_def Let_def fst_conv snd_conv by blast+
    obtain vh where vh: "lp_thread narrow env prm w ?size ?B es qs a_random masks d = Inr vh"
      "\<And>j n diff. j < ?B \<Longrightarrow> n < w \<Longrightarrow> (fst (qs ! (w * j + n)),
        lp_row ?p a_random (le_a_vole env) (random_idx prm j d) (vole_idx prm j d) diff) \<in> set es \<Longrightarrow>
       vh ! j = masks ! (j * DIM prm + d) - (ucast diff + ucast (snd (qs ! (w * j + n)))) ^ ?p"
      using lp_thread_ok [where env = env and prm = prm and size = ?size and entries = es and d = d and qs = qs and w = w
          and B = ?B and narrow = narrow and a_random = a_random and masks = masks, OF p es(2,3) qs(2) narrow vole [OF _ d] ok] by blast
    have "vh ! j = masks ! (j * DIM prm + d) - ucast (abs_diff (?x i d) (?y idx d)) ^ ?p"
      if h: "j < ?B" "sd_bins sd ! j = Some (idx, k)" "i < length (rd_pts rd)" "c < cells"
        "rd_ids rd ! (i * cells + c) = sd_ids sd ! idx" "near (DELTA prm) (?x i d) (?y idx d)" for j idx k i c
    proof -
      let ?e = "i * cells + c"
      have "?e < Suc i * cells" using h(4) by simp
      also have "\<dots> \<le> length (rd_pts rd) * cells" using h(3) by (intro mult_le_mono1) simp
      finally have e: "?e < length (rd_ids rd)" "rd_locations rd = map loc (rd_ids rd)" "?e \<in> set (id_idxs i)"
        using recv h(4) by (simp_all add: recv_ok_def ids)
      have ck: "k < 3" "loc (sd_ids sd ! idx) ! k = j" using cuckoo_okD [OF bins(2)] h(1,2) bins(1) by auto
      then have l: "rd_locations rd ! ?e ! k = j" using e h(5) by simp
      obtain ql where ql: "lp_point_queries (le_blake3 env) u0 u1 (?y idx d) (sd_ids sd ! idx) k j = Inr ql"
        "\<And>q. q \<in> set ql \<Longrightarrow> \<exists>n < w. qs ! (w * j + n) = q" using qs(3) [OF h(1,2)] by blast
      have "lp_meets prm a_random (le_a_vole env) es ql j d (?x i d) (?y idx d)"
        using es(4) [OF h(3) e(3) ck(1) h(6)] ql(1) l h(5) by simp
      then obtain q diff where q: "q \<in> set ql" "(fst q, lp_row ?p a_random (le_a_vole env) (random_idx prm j d) (vole_idx prm j d) diff) \<in> set es"
        "ucast diff + ucast (snd q) = (ucast (abs_diff (?x i d) (?y idx d)) :: u32)" unfolding lp_meets_def by blast
      obtain n where n: "n < w" "qs ! (w * j + n) = q" using ql(2) [OF q(1)] by blast
      show ?thesis using vh(2) [OF h(1) n(1), of diff] q(2,3) n(2) by simp
    qed
    then show ?thesis using es(1) qs(1) vh(1) by (auto simp: good_def)
  qed
  then obtain vs where vs: "mapR ?thread [0..<DIM prm] = Inr vs" "\<And>d. d < DIM prm \<Longrightarrow> good d (vs ! d)"
    using mapR_upt [of "DIM prm" ?thread good] by blast
  have "lp_shares id_idxs cells w narrow env prm (u0, b0) (u1, b1) rd sd a_random masks = Inr vs"
    using vs(1) by (simp add: lp_shares_def)
  moreover have "0 < ?p" using p(1) by simp
  ultimately show ?thesis using vs(2) lp_close_near(1) unfolding good_def by blast
qed

lemma lp_fmat_ok:
  assumes p: "1 \<le> METRIC prm" "METRIC prm \<le> 3" "DIM prm \<le> 2 ^ 31"
    and thr: "unat (DELTA prm) ^ METRIC prm < 2 ^ 32" "thr = of_nat (unat (DELTA prm) ^ METRIC prm)"
    and param: "getSelectedParam lp_table (DELTA prm + 1) = Inr (u0, b0)" "getSelectedParam lp_table (DELTA prm) = Inr (u1, b1)"
      "getSelectedParam if_match_table (thr + 1) = Inr (u, b)" and w: "width u0 u1 = card u0 + card u1"
    and recv: "recv_ok loc cells prm rd" and send: "send_ok loc prm rd sd"
    and ids: "\<And>i. id_idxs i = map (\<lambda>c. i * cells + c) [0..<cells]" and narrow: "\<And>e. ucast (narrow e) = (ucast e :: u32)"
    and vole: "\<And>bin d. bin < rd_bins_num rd \<Longrightarrow> d < DIM prm \<Longrightarrow>
      vole_ok (METRIC prm) (le_a_vole env) (le_c_vole env) (le_d_vole env) (le_delta env) (vole_idx prm bin d)"
    and ses: "lp_sessions_ok id_idxs cells (width u0 u1) env prm (u0, b0) (u1, b1) rd sd a_random"
    and rnd: "length a_if = rd_bins_num rd" "length t_if = rd_bins_num rd"
    and ifs: "\<And>v_hat. lp_shares id_idxs cells (width u0 u1) narrow env prm (u0, b0) (u1, b1) rd sd a_random masks = Inr v_hat \<Longrightarrow>
      if_sessions_ok ((le_if env)\<lparr>if_blake3 := le_blake3 env\<rparr>) (u, b) thr
        (lp_v_sums (DIM prm) (rd_bins_num rd) v_hat) (lp_u_sums (DIM prm) (rd_bins_num rd) masks) a_if"
    and peqt: "if_peqt_ok (le_if env) (rd_bins_num rd)"
  shows "\<exists>eR eS. lp_fmat id_idxs cells width narrow env prm rd sd a_random masks a_if t_if = Inr (eR, eS) \<and>
    length eR = rd_bins_num rd \<and> length eS = rd_bins_num rd \<and>
    (\<forall>j < rd_bins_num rd. \<forall>idx k. sd_bins sd ! j = Some (idx, k) \<and> lp_match cells prm rd sd masks j idx \<longrightarrow> eR ! j \<noteq> eS ! j)"
proof -
  let ?B = "rd_bins_num rd"
  have "unat (DELTA prm) \<le> unat (DELTA prm) ^ METRIC prm"
    using p(1) by (cases "unat (DELTA prm) = 0") (auto intro!: self_le_power)
  then have "unat (DELTA prm) < 2 ^ 32" using thr(1) by auto
  then have "unat (DELTA prm + 1) = unat (DELTA prm) + 1" by (simp add: unat_Suc)
  then have row: "row_ok (unat (DELTA prm) + 1) (u0, b0)" "row_ok (unat (DELTA prm)) (u1, b1)"
    using selected_row_ok [OF _ lp_rows_ok, of lp_table] param(1,2) by (metis lp_table_def)+
  obtain v_hat where v: "lp_shares id_idxs cells (width u0 u1) narrow env prm (u0, b0) (u1, b1) rd sd a_random masks = Inr v_hat"
    "\<And>j idx k i c d. j < ?B \<Longrightarrow> sd_bins sd ! j = Some (idx, k) \<Longrightarrow> i < length (rd_pts rd) \<Longrightarrow> c < cells \<Longrightarrow>
       rd_ids rd ! (i * cells + c) = sd_ids sd ! idx \<Longrightarrow> lp_close prm (rd_pts rd ! i) (sd_pts sd ! idx) \<Longrightarrow> d < DIM prm \<Longrightarrow>
       v_hat ! d ! j = masks ! (j * DIM prm + d) - ucast (abs_diff (rd_pts rd ! i ! d) (sd_pts sd ! idx ! d)) ^ METRIC prm"
    using lp_shares_ok [OF p(1,2) row w recv send ids narrow vole ses, of masks] by blast
  let ?vs = "lp_v_sums (DIM prm) ?B v_hat" and ?us = "lp_u_sums (DIM prm) ?B masks"
  let ?ienv = "(le_if env)\<lparr>if_blake3 := le_blake3 env\<rparr>"
  have thr_unat: "unat thr = unat (DELTA prm) ^ METRIC prm"
    unfolding thr(2) using thr(1) by (simp only: unat_of_nat) simp
  have len: "length ?vs = ?B" "length ?us = ?B" by (simp_all add: lp_v_sums_def lp_u_sums_def)
  have "unat x \<le> 2 ^ 63" if x: "x \<in> set ?vs" for x
  proof -
    obtain j where "x = fold (\<lambda>d acc. acc + ucast (v_hat ! d ! j)) [0..<DIM prm] 0" using x by (auto simp: lp_v_sums_def)
    then have "unat x = (\<Sum>d < DIM prm. unat (v_hat ! d ! j))" using unat_sum_u32 [OF p(3)] by simp
    also have "\<dots> \<le> DIM prm * 2 ^ 32"
      using sum_bounded_above [of "{..<DIM prm}" "\<lambda>d. unat (v_hat ! d ! j)" "2 ^ 32"] unat_less_pow2 [where 'a = 32]
      by (simp add: less_imp_le)
    also have "\<dots> \<le> 2 ^ 31 * 2 ^ 32" using p(3) by (rule mult_le_mono1)
    finally show ?thesis by simp
  qed
  then have fits: "\<forall>x \<in> set ?vs. unat x + unat thr < 2 ^ 64" using thr(1) unfolding thr_unat by fastforce
  have peq: "(64 :: nat) \<le> 2 ^ if_log2ceil ?ienv 64" "curTriple (if_t0 ?ienv) = 0" "curTriple (if_t1 ?ienv) = 0"
    "good_triples (if_t0 ?ienv) (if_t1 ?ienv) (length ?vs * 64)" using peqt by (simp_all add: if_peqt_ok_def len)
  have m: "METRIC prm < 2 ^ 64" using p(2) by simp
  obtain eR eS where e: "ssIFMat ?ienv (DELTA prm) (METRIC prm) ?vs ?us a_if t_if = Inr (eR, eS)"
    "length eR = ?B" "length eS = ?B"
    "\<And>j. j < ?B \<Longrightarrow> ?vs ! j \<le> ?us ! j \<Longrightarrow> ?us ! j \<le> ?vs ! j + thr \<Longrightarrow> eR ! j \<noteq> eS ! j"
    using ssIFMat_ok [OF thr(1) m thr(2) param(3) fits _ _ _ ifs [OF v(1)] peq, of t_if] len rnd by auto
  have "eR ! j \<noteq> eS ! j" if h: "j < ?B" "sd_bins sd ! j = Some (idx, k)" "lp_match cells prm rd sd masks j idx" for j idx k
  proof -
    obtain i c where i: "i < length (rd_pts rd)" "c < cells" "rd_ids rd ! (i * cells + c) = sd_ids sd ! idx"
      "lp_close prm (rd_pts rd ! i) (sd_pts sd ! idx)"
      "\<And>d. d < DIM prm \<Longrightarrow> unat (abs_diff (rd_pts rd ! i ! d) (sd_pts sd ! idx ! d)) ^ METRIC prm \<le> unat (masks ! (j * DIM prm + d))"
      using h(3) by (auto simp: lp_match_def)
    have p0: "0 < METRIC prm" using p(1) by simp
    have eq: "unat (?us ! j) = unat (?vs ! j) + lp_distance prm (rd_pts rd ! i) (sd_pts sd ! idx)"
      by (rule lp_sums_range [OF p(3) h(1) p0 i(4,5)]) (use v(2) [OF h(1,2) i(1-4)] in auto)
    have "?vs ! j \<in> set ?vs" using h(1) len(1) by simp
    then have "unat (?vs ! j + thr) = unat (?vs ! j) + unat thr" using fits by (simp add: unat_add_le)
    then have "?vs ! j \<le> ?us ! j" "?us ! j \<le> ?vs ! j + thr"
      using eq i(4) unfolding lp_close_def by (simp_all add: word_le_nat_alt thr_unat)
    then show ?thesis using e(4) [OF h(1)] by simp
  qed
  moreover have "lp_fmat id_idxs cells width narrow env prm rd sd a_random masks a_if t_if = Inr (eR, eS)"
    using e(1) v(1) param(1,2) by (simp add: lp_fmat_def)
  ultimately show ?thesis using e(2,3) by blast
qed

section \<open>Properties\<close>

lemma unat_ucast_u32: "unat (ucast w :: u64) = unat w" for w :: u32
proof -
  have "unat w < 2 ^ 64" using unat_less_pow2 [of w] by simp
  then have "unat (of_nat (unat w) :: u64) = unat w" by (simp only: unat_of_nat) simp
  then show ?thesis by simp
qed

lemma ucast_narrow: "ucast (ucast (ucast e :: u32) :: u64) = (ucast e :: u32)" for e :: u64
  by (rule bit_word_eqI) (auto simp: bit_simps)

lemma lp_row_sizes:
  assumes "getSelectedParam lp_table (t + 1) = Inr (u0, b0)" "getSelectedParam lp_table t = Inr (u1, b1)"
  shows "card u0 = card u1"
proof -
  have "t \<in> {10, 11, 30, 31, 60, 61, 120, 121, 250, 251}"
    using assms(2) by (auto simp: getSelectedParam_def lp_table_def lp_rows_def split: if_splits option.splits)
  then show ?thesis
    using assms by (auto simp: getSelectedParam_def lp_table_def lp_rows_def)
qed

text \<open>C27. Matching for the sum of powers over spatially mapped points, for powers up to three: with
  table entries for the radius, vector OLE shares that satisfy their relation and sessions that are
  set up, the run succeeds with one share per bin on both sides, and the shares of a bin differ
  whenever its item has the identifier of a cell of a receiver's point whose sum of powered
  coordinate distances is at most the powered radius and no mask of the bin is smaller than the
  power it hides.\<close>
theorem mp_ssFMat_lp_sh_complete:
  assumes "1 \<le> METRIC prm" "METRIC prm \<le> 3" "DIM prm \<le> 2 ^ 31"
    and "unat (DELTA prm) ^ METRIC prm < 2 ^ 32" "thr = of_nat (unat (DELTA prm) ^ METRIC prm)"
    and "getSelectedParam lp_table (DELTA prm + 1) = Inr (u0, b0)" "getSelectedParam lp_table (DELTA prm) = Inr (u1, b1)"
      "getSelectedParam if_match_table (thr + 1) = Inr (u, b)"
    and "recv_ok loc (BLK_CELLS prm) prm rd" "send_ok loc prm rd sd"
    and "id_idxs = (\<lambda>i. map (\<lambda>idx. i * BLK_CELLS prm + idx) [0..<BLK_CELLS prm])"
    and "\<And>bin d. bin < rd_bins_num rd \<Longrightarrow> d < DIM prm \<Longrightarrow>
      vole_ok (METRIC prm) (le_a_vole env) (le_c_vole env) (le_d_vole env) (le_delta env) (vole_idx prm bin d)"
    and "lp_sessions_ok id_idxs (BLK_CELLS prm) (card u0 + card u1) env prm (u0, b0) (u1, b1) rd sd a_random"
    and "length a_if = rd_bins_num rd" "length t_if = rd_bins_num rd"
    and "\<And>v_hat. lp_shares id_idxs (BLK_CELLS prm) (card u0 + card u1) (\<lambda>e. ucast (ucast e :: u32)) env prm
        (u0, b0) (u1, b1) rd sd a_random masks = Inr v_hat \<Longrightarrow>
      if_sessions_ok ((le_if env)\<lparr>if_blake3 := le_blake3 env\<rparr>) (u, b) thr
        (lp_v_sums (DIM prm) (rd_bins_num rd) v_hat) (lp_u_sums (DIM prm) (rd_bins_num rd) masks) a_if"
    and "if_peqt_ok (le_if env) (rd_bins_num rd)"
  shows "\<exists>eR eS. mp_ssFMat_lp_sh env prm rd sd a_random masks a_if t_if = Inr (eR, eS) \<and>
    length eR = rd_bins_num rd \<and> length eS = rd_bins_num rd \<and>
    (\<forall>j < rd_bins_num rd. \<forall>idx k. sd_bins sd ! j = Some (idx, k) \<and> lp_match (BLK_CELLS prm) prm rd sd masks j idx \<longrightarrow>
       eR ! j \<noteq> eS ! j)"
  unfolding mp_ssFMat_lp_sh_def
  using lp_fmat_ok [where width = "\<lambda>u0 u1. card u0 + card u1" and narrow = "\<lambda>e. ucast (ucast e :: u32)" and id_idxs = id_idxs,
      OF assms(1-8) refl assms(9,10) _ _ assms(12,13,14,15,16,17)] assms(11) by (simp add: ucast_narrow)

text \<open>C28. The same over grid mapped points, one identifier per point; the sender takes twice the size
  of the second prefix set as the number of queries of a bin, which is right for every pair of
  entries of the table.\<close>
theorem mp_ssFMat_lp_complete:
  assumes "1 \<le> METRIC prm" "METRIC prm \<le> 3" "DIM prm \<le> 2 ^ 31"
    and "unat (DELTA prm) ^ METRIC prm < 2 ^ 32" "thr = of_nat (unat (DELTA prm) ^ METRIC prm)"
    and "getSelectedParam lp_table (DELTA prm + 1) = Inr (u0, b0)" "getSelectedParam lp_table (DELTA prm) = Inr (u1, b1)"
      "getSelectedParam if_match_table (thr + 1) = Inr (u, b)"
    and "recv_ok loc 1 prm rd" "send_ok loc prm rd sd"
    and "\<And>bin d. bin < rd_bins_num rd \<Longrightarrow> d < DIM prm \<Longrightarrow>
      vole_ok (METRIC prm) (le_a_vole env) (le_c_vole env) (le_d_vole env) (le_delta env) (vole_idx prm bin d)"
    and "lp_sessions_ok (\<lambda>i. [i]) 1 (card u1 * 2) env prm (u0, b0) (u1, b1) rd sd a_random"
    and "length a_if = rd_bins_num rd" "length t_if = rd_bins_num rd"
    and "\<And>v_hat. lp_shares (\<lambda>i. [i]) 1 (card u1 * 2) (\<lambda>e. e) env prm (u0, b0) (u1, b1) rd sd a_random masks = Inr v_hat \<Longrightarrow>
      if_sessions_ok ((le_if env)\<lparr>if_blake3 := le_blake3 env\<rparr>) (u, b) thr
        (lp_v_sums (DIM prm) (rd_bins_num rd) v_hat) (lp_u_sums (DIM prm) (rd_bins_num rd) masks) a_if"
    and "if_peqt_ok (le_if env) (rd_bins_num rd)"
  shows "\<exists>eR eS. mp_ssFMat_lp env prm rd sd a_random masks a_if t_if = Inr (eR, eS) \<and>
    length eR = rd_bins_num rd \<and> length eS = rd_bins_num rd \<and>
    (\<forall>j < rd_bins_num rd. \<forall>idx k. sd_bins sd ! j = Some (idx, k) \<and> lp_match 1 prm rd sd masks j idx \<longrightarrow>
       eR ! j \<noteq> eS ! j)"
proof -
  have w: "card u1 * 2 = card u0 + card u1" using lp_row_sizes [OF assms(6,7)] by simp
  show ?thesis
    unfolding mp_ssFMat_lp_def
    by (rule lp_fmat_ok [where width = "\<lambda>u0 u1. card u1 * 2" and narrow = "\<lambda>e. e" and id_idxs = "\<lambda>i. [i]",
        OF assms(1-8) w assms(9,10) _ refl assms(11-16)]) simp
qed

text \<open>C29. A mask smaller than the power it hides makes the receiver's share wrap around, and the sums,
  which the code forms in 64 bits, no longer differ by the distance: the sender's sum falls below the
  receiver's and outside the interval of the match, although the points are close.\<close>
theorem lp_small_mask_rejects:
  assumes "1 \<le> p" "p \<le> 3" "vole_ok p a_vole c_vole d_vole b_delta vidx"
    and "ucast diff + ucast e = (of_nat dist :: u32)" "dist ^ p < 2 ^ 32" "unat m < dist ^ p"
  shows "lp_u_sums 1 1 [m] ! 0 <
    lp_v_sums 1 1 [[lp_share p a_vole c_vole vidx (a_random ! (ridx + 1))
      (lp_candidate (\<lambda>e. e) p d_vole b_delta vidx m e (lp_row p a_random a_vole ridx vidx diff))]] ! 0"
proof -
  let ?v = "m - (of_nat dist :: u32) ^ p"
  have "unat (of_nat (dist ^ p) :: u32) = dist ^ p" using assms(5) by (simp only: unat_of_nat) simp
  then have "m < of_nat (dist ^ p)" using assms(6) by (simp add: word_less_nat_alt)
  then have "unat ?v = unat m + 2 ^ 32 - unat (of_nat dist ^ p :: u32)"
    by (simp add: unat_sub_if' word_less_nat_alt)
  then have "m < ?v" using unat_less_pow2 [of "of_nat dist ^ p :: u32"] by (simp add: word_less_nat_alt)
  then have "(ucast m :: u64) < ucast ?v" by (simp add: word_less_nat_alt unat_ucast_u32)
  then show ?thesis
    using lp_share_value [OF assms(1,2,3), of "\<lambda>e. e" e a_random ridx m diff] assms(4)
    by (simp add: lp_u_sums_def lp_v_sums_def)
qed

end
