(* ===== verification/Lp_Demo.thy ===== *)
theory Lp_Demo
  imports Fpsi_Lp
begin

text \<open>
  A run of the matching for squared distances with one point on each side, radius
  10 and distance 5, which shows that the hypotheses of its properties can hold.
\<close>

section \<open>The parties\<close>

definition lpd_D0 :: "string list" where "lpd_D0 = dec_of {0, 2} 90 100"
definition lpd_D1 :: "string list" where "lpd_D1 = dec_of {0, 1} 101 110"
definition lpd_P0 :: "string list" where "lpd_P0 = prefixes_of {0, 2} 105"
definition lpd_P1 :: "string list" where "lpd_P1 = prefixes_of {0, 1} 105"

definition lpd_bytes :: "nat \<Rightarrow> string \<Rightarrow> nat \<Rightarrow> u8 list" where
  "lpd_bytes sigma s k = prefix_key_bytes s 7 k 0 @ word_bytes 8 (of_nat sigma :: u64)"

definition lpd_B :: "u8 list list" where
  "lpd_B = concat (map (\<lambda>s. map (lpd_bytes 0 s) [0..<3]) lpd_D0) @ concat (map (\<lambda>s. map (lpd_bytes 1 s) [0..<3]) lpd_D1)"

definition lpd_Q :: "u8 list list" where
  "lpd_Q = map (\<lambda>s. lpd_bytes 0 s 0) lpd_P0 @ map (\<lambda>s. lpd_bytes 1 s 0) lpd_P1"

definition lpd_L :: "u8 list list" where
  "lpd_L = (lpd_B @ lpd_Q) @ map (\<lambda>n. lp_bin_key_bytes (of_nat n) 0) ([0..<100] @ [1000000]) @
     map (\<lambda>s. if_key_bytes s 0) (dec_of {0, 2, 4, 6} 975 1075 @ prefixes_of {0, 2, 4, 6} 1000)"

definition lpd_if :: if_env where
  "lpd_if = \<lparr>if_blake3 = list_hash lpd_L, if_step2 = ideal_session, if_step3 = ideal_session,
     if_pad_keys = (\<lambda>i. of_nat (1000 + i)), if_pad_vals = (\<lambda>_. 0), if_log2ceil = (\<lambda>_. 6),
     if_t0 = \<lparr>tri_a = replicate 64 True, tri_b = replicate 64 True, tri_c = replicate 64 True, curTriple = 0\<rparr>,
     if_t1 = \<lparr>tri_a = replicate 64 False, tri_b = replicate 64 False, tri_c = replicate 64 False, curTriple = 0\<rparr>\<rparr>"

definition lpd_env :: lp_env where
  "lpd_env = \<lparr>le_blake3 = list_hash lpd_L, le_step3 = (\<lambda>_. ideal_session), le_step5 = (\<lambda>_. ideal_session),
     le_pad_keys = (\<lambda>_ i. of_nat (1000 + i)), le_pad_vals = (\<lambda>_ _. 0), le_empty_keys = (\<lambda>_ _. 0), le_empty_e = (\<lambda>_ _. 0),
     le_a_vole = [3], le_c_vole = [22], le_d_vole = [4], le_delta = 6, le_if = lpd_if\<rparr>"

definition lpd_prm :: fpsi_params where
  "lpd_prm = \<lparr>DIM = 1, DELTA = 10, METRIC = 2, SIDE_LEN = 20, BLK_CELLS = 1, DELTA_L2 = 100\<rparr>"

definition lpd_rd :: recv_data where
  "lpd_rd = \<lparr>rd_pts = [[100]], rd_ids = [7], rd_locations = [[0, 0, 0]], rd_bins_num = 1\<rparr>"

definition lpd_sd :: send_data where
  "lpd_sd = \<lparr>sd_pts = [[105]], sd_ids = [7], sd_bins = [Some (0, 0)]\<rparr>"

section \<open>Their lists\<close>

lemma lpd_rows: "row_ok 11 ({0, 2}, 5)" "row_ok 10 ({0, 1}, 6)" "row_ok 101 ({0, 2, 4, 6}, 14)"
  using row_11 row_10 row_101 by simp_all

lemma lpd_fin: "finite {0, 2 :: nat}" "{0, 2 :: nat} \<subseteq> {..64}" "finite {0, 1 :: nat}" "{0, 1 :: nat} \<subseteq> {..64}"
  "finite {0, 2, 4, 6 :: nat}" "{0, 2, 4, 6 :: nat} \<subseteq> {..64}"
  by simp_all

lemma lpd_dec0: "set_dec 90 100 {0, 2} = Inr lpd_D0" "length lpd_D0 \<le> 5" "distinct lpd_D0"
  "s \<in> set lpd_P0 \<Longrightarrow> s \<notin> set lpd_D0"
proof -
  have y: "unat (100 :: u64) = unat (90 :: u64) + (11 - 1)" by simp
  note d = dec_of [OF lpd_rows(1) y, folded lpd_D0_def]
  show "set_dec 90 100 {0, 2} = Inr lpd_D0" "length lpd_D0 \<le> 5" "distinct lpd_D0" by (fact d)+
  show "s \<in> set lpd_P0 \<Longrightarrow> s \<notin> set lpd_D0"
    using d(5) [of 105, folded lpd_P0_def] by (auto simp: filter_empty_conv)
qed

lemma lpd_dec1: "set_dec 101 110 {0, 1} = Inr lpd_D1" "length lpd_D1 \<le> 6" "distinct lpd_D1" "lpd_D1 \<noteq> []"
  "s \<in> set lpd_P1 \<Longrightarrow> t \<in> set lpd_P1 \<Longrightarrow> s \<in> set lpd_D1 \<Longrightarrow> t \<in> set lpd_D1 \<Longrightarrow> s = t"
proof -
  have y: "unat (110 :: u64) = unat (101 :: u64) + (10 - 1)" by simp
  note d = dec_of [OF lpd_rows(2) y, folded lpd_D1_def]
  show "set_dec 101 110 {0, 1} = Inr lpd_D1" "length lpd_D1 \<le> 6" "distinct lpd_D1" "lpd_D1 \<noteq> []" by (fact d)+
  show "s \<in> set lpd_P1 \<Longrightarrow> t \<in> set lpd_P1 \<Longrightarrow> s \<in> set lpd_D1 \<Longrightarrow> t \<in> set lpd_D1 \<Longrightarrow> s = t"
    using one_hit [of lpd_P1 lpd_D1 s t] d(5) [of 105, folded lpd_P1_def] by simp
qed

lemmas lpd_pre0 = prefixes_of [OF lpd_fin(1,2), of 105, folded lpd_P0_def]
lemmas lpd_pre1 = prefixes_of [OF lpd_fin(3,4), of 105, folded lpd_P1_def]

lemma lpd_bounds: "s \<in> set lpd_D0 \<Longrightarrow> \<exists>b. up_bound s = Inr b" "s \<in> set lpd_D1 \<Longrightarrow> \<exists>b. low_bound s = Inr b"
proof -
  assume "s \<in> set lpd_D0"
  from dec_bounds [OF lpd_rows(1) _ _ lpd_dec0(1) this] show "\<exists>b. up_bound s = Inr b" by auto
next
  assume "s \<in> set lpd_D1"
  from dec_bounds [OF lpd_rows(2) _ _ lpd_dec1(1) this] show "\<exists>b. low_bound s = Inr b" by auto
qed

lemma lpd_bytes_inject:
  "lpd_bytes a s k = lpd_bytes b t l \<Longrightarrow> a < 2 \<Longrightarrow> b < 2 \<Longrightarrow> k < 3 \<Longrightarrow> l < 3 \<Longrightarrow> a = b \<and> s = t \<and> k = l"
proof -
  assume e: "lpd_bytes a s k = lpd_bytes b t l" and h: "a < 2" "b < 2" "k < 3" "l < 3"
  have "prefix_key_bytes s 7 k 0 = prefix_key_bytes t 7 l 0" "word_bytes 8 (of_nat a :: u64) = word_bytes 8 (of_nat b :: u64)"
    using e by (simp_all add: lpd_bytes_def append_eq_append_conv)
  moreover from this(2) have "(of_nat a :: u64) = of_nat b" by (rule word_bytes_inject) simp
  ultimately show ?thesis
    using prefix_key_bytes_inject [of s 7 k 0 t 7 l 0] h by (auto simp: less_2_cases_iff)
qed

lemma lpd_distinct: "distinct lpd_B" "distinct lpd_Q"
proof -
  have d: "distinct (concat (map (\<lambda>s. map (lpd_bytes a s) [0..<3]) D))" if "distinct D" "a < 2" for a D
    by (rule distinct_concat_pairs [where g = "lpd_bytes a"]) (use that lpd_bytes_inject [of a _ _ a] in auto)
  have "lpd_bytes 0 s k \<noteq> lpd_bytes 1 t l" if "k < 3" "l < 3" for s t k l using lpd_bytes_inject [of 0 s k 1 t l] that by auto
  then show "distinct lpd_B" unfolding lpd_B_def using d [OF lpd_dec0(3)] d [OF lpd_dec1(3)] by auto
  have e: "distinct (map (\<lambda>s. lpd_bytes a s 0) P)" if "distinct P" "a < 2" for a P
    using that lpd_bytes_inject [of a _ 0 a _ 0] by (auto simp: distinct_map inj_on_def)
  show "distinct lpd_Q" unfolding lpd_Q_def
    using e [OF lpd_pre0(3), of 0] e [OF lpd_pre1(3), of 1] lpd_bytes_inject [of 0 _ 0 1 _ 0] by auto
qed

lemma lpd_one: "p \<in> set lpd_Q \<Longrightarrow> q \<in> set lpd_Q \<Longrightarrow> p \<in> set lpd_B \<Longrightarrow> q \<in> set lpd_B \<Longrightarrow> p = q"
proof -
  have mem: "a = 1 \<and> s \<in> set lpd_P1 \<and> s \<in> set lpd_D1"
    if h: "lpd_bytes a s 0 \<in> set lpd_B" "a = 0 \<and> s \<in> set lpd_P0 \<or> a = 1 \<and> s \<in> set lpd_P1" for a s
  proof -
    from h(1) consider t k where "t \<in> set lpd_D0" "k < 3" "lpd_bytes a s 0 = lpd_bytes 0 t k"
      | t k where "t \<in> set lpd_D1" "k < 3" "lpd_bytes a s 0 = lpd_bytes 1 t k"
      unfolding lpd_B_def by auto
    then show ?thesis
    proof cases
      case (1 t k)
      then have "a = 0 \<and> s = t" using lpd_bytes_inject [of a s 0 0 t k] h(2) by auto
      then show ?thesis using 1(1) h(2) lpd_dec0(4) by auto
    next
      case (2 t k)
      then have "a = 1 \<and> s = t" using lpd_bytes_inject [of a s 0 1 t k] h(2) by auto
      then show ?thesis using 2(1) h(2) by auto
    qed
  qed
  have hit: "\<exists>s. p = lpd_bytes 1 s 0 \<and> s \<in> set lpd_P1 \<and> s \<in> set lpd_D1" if "p \<in> set lpd_Q" "p \<in> set lpd_B" for p
  proof -
    from that(1) have "\<exists>a s. p = lpd_bytes a s 0 \<and> (a = 0 \<and> s \<in> set lpd_P0 \<or> a = 1 \<and> s \<in> set lpd_P1)"
      unfolding lpd_Q_def by auto
    then obtain a s where p: "p = lpd_bytes a s 0" "a = 0 \<and> s \<in> set lpd_P0 \<or> a = 1 \<and> s \<in> set lpd_P1" by blast
    show ?thesis using mem [OF that(2) [unfolded p(1)] p(2)] p(1) by blast
  qed
  assume "p \<in> set lpd_Q" "q \<in> set lpd_Q" "p \<in> set lpd_B" "q \<in> set lpd_B"
  then obtain s t where "p = lpd_bytes 1 s 0" "s \<in> set lpd_P1" "s \<in> set lpd_D1"
    "q = lpd_bytes 1 t 0" "t \<in> set lpd_P1" "t \<in> set lpd_D1" using hit by blast
  then show "p = q" using lpd_dec1(5) [of s t] by simp
qed

section \<open>The lists of the run\<close>

definition lpd_row :: "u64 \<Rightarrow> u32 list" where
  "lpd_row diff = lp_row 2 [1000000, 7] [3] 0 0 diff"

definition lpd_rows_of :: "u32 list list" where
  "lpd_rows_of = concat (map (\<lambda>s. replicate 3 (lpd_row (100 - projr (up_bound s)))) lpd_D0) @
     concat (map (\<lambda>s. replicate 3 (lpd_row (projr (low_bound s) - 100))) lpd_D1)"

definition lpd_entries :: "(block \<times> u32 list) list" where
  "lpd_entries = zip (map (list_hash lpd_L) lpd_B) lpd_rows_of"

lemma lpd_len: "length lpd_B \<le> 33" "length lpd_rows_of = length lpd_B" "lpd_B \<noteq> []" "length lpd_Q = 4"
  using lpd_dec0(2) lpd_dec1(2,4) lpd_pre0(2) lpd_pre1(2)
  by (simp_all add: lpd_B_def lpd_rows_of_def lpd_Q_def length_concat o_def sum_list_triv)

lemma zip_concat:
  "(\<And>x. x \<in> set xs \<Longrightarrow> length (f x) = length (g x)) \<Longrightarrow>
    zip (concat (map f xs)) (concat (map g xs)) = concat (map (\<lambda>x. zip (f x) (g x)) xs)"
  by (induction xs) (simp_all add: zip_append)

lemma lpd_list:
  assumes "id_idxs 0 = [0]"
  shows "lp_list id_idxs (list_hash lpd_L) lpd_prm {0, 2} {0, 1} lpd_rd [1000000, 7] [3] 0 = Inr lpd_entries"
proof -
  have three: "[0..<3] = [0, 1, 2 :: nat]" by (simp add: upt_rec)
  have e: "lpd_entries = concat (map (\<lambda>s. map (\<lambda>k. (list_hash lpd_L (lpd_bytes 0 s k), lpd_row (100 - projr (up_bound s)))) [0..<3]) lpd_D0) @
      concat (map (\<lambda>s. map (\<lambda>k. (list_hash lpd_L (lpd_bytes 1 s k), lpd_row (projr (low_bound s) - 100))) [0..<3]) lpd_D1)"
    unfolding lpd_entries_def lpd_B_def lpd_rows_of_def map_append map_concat
    by (subst zip_append)
      (simp_all add: length_concat o_def sum_list_triv zip_concat three numeral_3_eq_3)
  note side = lp_side_eq [where ?blake3.0 = "list_hash lpd_L" and prm = lpd_prm and rd = lpd_rd and a_random = "[1000000, 7]" and
      a_vole = "[3]" and d = 0 and ids = "[0]"]
  have "lp_side (list_hash lpd_L) lpd_prm lpd_rd [1000000, 7] [3] 0 [0] 0 up_bound (\<lambda>s. 100 - s) lpd_D0 =
      Inr (concat (map (\<lambda>s. map (\<lambda>k. (list_hash lpd_L (lpd_bytes 0 s k), lpd_row (100 - projr (up_bound s)))) [0..<3]) lpd_D0))"
    using lpd_bounds(1)
    by (subst side) (simp_all add: three lpd_row_def lpd_bytes_def sigma_key_def lpd_prm_def lpd_rd_def random_idx_def vole_idx_def)
  moreover have "lp_side (list_hash lpd_L) lpd_prm lpd_rd [1000000, 7] [3] 0 [0] 1 low_bound (\<lambda>s. s - 100) lpd_D1 =
      Inr (concat (map (\<lambda>s. map (\<lambda>k. (list_hash lpd_L (lpd_bytes 1 s k), lpd_row (projr (low_bound s) - 100))) [0..<3]) lpd_D1))"
    using lpd_bounds(2)
    by (subst side) (simp_all add: three lpd_row_def lpd_bytes_def sigma_key_def lpd_prm_def lpd_rd_def random_idx_def vole_idx_def)
  moreover have "rd_pts lpd_rd = [[100]]" "DELTA lpd_prm = 10" by (simp_all add: lpd_rd_def lpd_prm_def)
  ultimately show ?thesis
    by (simp add: lp_list_def assms lpd_dec0(1) lpd_dec1(1) e del: One_nat_def)
qed

lemma lpd_fst: "map fst lpd_entries = map (list_hash lpd_L) lpd_B" "map snd lpd_entries = lpd_rows_of"
  "length lpd_entries = length lpd_B"
  using lpd_len(2) by (simp_all add: lpd_entries_def)

definition lpd_e :: "u64 list" where
  "lpd_e = map (\<lambda>s. projr (up_bound s) - 105) lpd_P0 @ map (\<lambda>s. 105 - projr (low_bound s)) lpd_P1"

lemma lpd_queries:
  "lp_queries (list_hash lpd_L) rk re {0, 2} {0, 1} 4 lpd_sd 0 = Inr (zip (map (list_hash lpd_L) lpd_Q) lpd_e)"
proof -
  have "lp_point_queries (list_hash lpd_L) {0, 2} {0, 1} 105 7 0 0 = Inr (zip (map (list_hash lpd_L) lpd_Q) lpd_e)"
    using lp_point_queries_eq [OF lpd_fin(1-4) lpd_pre0(1) lpd_pre1(1), of "list_hash lpd_L" 7 0 0]
    by (simp add: lpd_Q_def lpd_e_def zip_append zip_map_map zip_same_conv_map lpd_bytes_def sigma_key_def o_def)
  then show ?thesis by (simp add: lp_queries_def lpd_sd_def del: One_nat_def)
qed

lemma lpd_L_len: "length lpd_L < 1000" "set lpd_B \<subseteq> set lpd_L" "set lpd_Q \<subseteq> set lpd_L"
  "if_key_bytes s 0 \<in> set lpd_L \<or> s \<notin> set (dec_of {0, 2, 4, 6} 975 1075 @ prefixes_of {0, 2, 4, 6} 1000)"
proof -
  have y: "unat (1075 :: u64) = unat (975 :: u64) + (101 - 1)" by simp
  have "length (dec_of {0, 2, 4, 6} 975 1075) \<le> 14" using dec_of(2) [OF lpd_rows(3) y] .
  moreover have "length (prefixes_of {0, 2, 4, 6} 1000) = 4" using prefixes_of(2) [OF lpd_fin(5,6)] by simp
  ultimately show "length lpd_L < 1000" using lpd_len(1,4) by (simp add: lpd_L_def)
qed (auto simp: lpd_L_def)

definition lpd_G :: "u8 list \<Rightarrow> nat" where
  "lpd_G q = (if q \<in> set lpd_B then 1000000 else pos lpd_L q)"

lemma pos_append: "x \<in> set xs \<Longrightarrow> pos (xs @ ys) x < length xs"
  by (induction xs) auto

lemma lpd_G: "inj_on lpd_G (set lpd_Q)" "q \<in> set lpd_Q \<Longrightarrow> lpd_G q \<in> {..<100} \<union> {1000000}"
proof -
  have p: "pos lpd_L q < 100" if "q \<in> set lpd_Q" for q
  proof -
    have "q \<in> set (lpd_B @ lpd_Q)" using that by simp
    from pos_append [OF this] have "pos lpd_L q < length (lpd_B @ lpd_Q)" unfolding lpd_L_def .
    then show ?thesis using lpd_len(1,4) by simp
  qed
  then show "q \<in> set lpd_Q \<Longrightarrow> lpd_G q \<in> {..<100} \<union> {1000000}" by (simp add: lpd_G_def)
  show "inj_on lpd_G (set lpd_Q)"
  proof (rule inj_onI)
    fix a b assume h: "a \<in> set lpd_Q" "b \<in> set lpd_Q" "lpd_G a = lpd_G b"
    then have "a \<in> set lpd_B \<and> b \<in> set lpd_B \<or> pos lpd_L a = pos lpd_L b"
      using p [OF h(1)] p [OF h(2)] by (auto simp: lpd_G_def split: if_splits)
    then show "a = b" using h(1,2) lpd_one [of a b] pos_inject [of a lpd_L b] lpd_L_len(3) by blast
  qed
qed

lemma lpd_head:
  assumes "r \<in> set lpd_rows_of"
  shows "unpack_row 3 (pack_row r) ! 0 = 1000000"
proof -
  obtain diff where r: "r = lpd_row diff" using assms by (auto simp: lpd_rows_of_def)
  have "length r = 3" by (simp add: r lpd_row_def length_lp_row)
  then have "unpack_row 3 (pack_row r) = r" using unpack_pack_row [of r] by simp
  then show ?thesis by (simp add: r lpd_row_def lp_row_def)
qed

lemma unpack_of_nat: "0 < n \<Longrightarrow> unpack_row n (of_nat k) ! 0 = of_nat k"
  by (simp add: unpack_row_def) (rule bit_word_eqI, auto simp: bit_simps)

text \<open>The rows of step 3 and the keys of step 5.\<close>
lemma lpd_run:
  defines "keys \<equiv> padding_blocks (\<lambda>i. of_nat (1000 + i)) (map (list_hash lpd_L) lpd_B) 33"
  shows "opprf_session_ok ideal_session 12 keys xs"
    and "opprf_run ideal_session 12 keys (padding_blocks pv (map pack_row lpd_rows_of) 33) (map (list_hash lpd_L) lpd_Q) = Inr us \<Longrightarrow>
      opprf_session_ok ideal_session 8 (lp_u0_keys (list_hash lpd_L) 2 4 us) ys"
proof -
  have le: "(1000 :: nat) + 33 < 2 ^ 16" "(2 :: nat) \<le> 12" "(12 :: nat) \<le> 16" by simp_all
  have vs: "length (map pack_row lpd_rows_of) = length lpd_B" using lpd_len(2) by simp
  note run = hash_run [OF lpd_L_len(1,2) lpd_distinct(1) lpd_len(1) le(1) lpd_len(3) le(2,3) vs]
  show "opprf_session_ok ideal_session 12 keys xs" unfolding keys_def by (rule run(1))
  assume "opprf_run ideal_session 12 keys (padding_blocks pv (map pack_row lpd_rows_of) 33) (map (list_hash lpd_L) lpd_Q) = Inr us"
  then have us: "us = map (\<lambda>q. if q \<in> set lpd_B then map pack_row lpd_rows_of ! pos lpd_B q else of_nat (pos lpd_L q)) lpd_Q"
    using run(2) [OF lpd_L_len(3), of pv] unfolding keys_def by simp
  have u: "unpack_row 3 (us ! x) ! 0 = of_nat (lpd_G (lpd_Q ! x))" if x: "x < length lpd_Q" for x
  proof (cases "lpd_Q ! x \<in> set lpd_B")
    case True
    then have "pos lpd_B (lpd_Q ! x) < length lpd_rows_of" using pos_less lpd_len(2) by metis
    then show ?thesis using x True lpd_head by (simp add: us lpd_G_def)
  next
    case False
    then show ?thesis using x by (simp add: us lpd_G_def unpack_of_nat)
  qed
  let ?b = "\<lambda>q. lp_bin_key_bytes (of_nat (lpd_G q)) 0"
  have keys: "lp_u0_keys (list_hash lpd_L) 2 4 us = map (\<lambda>q. list_hash lpd_L (?b q)) lpd_Q"
    using u lpd_len(4) by (intro nth_equalityI) (simp_all add: lp_u0_keys_def us)
  have inj: "inj_on ?b (set lpd_Q)"
  proof (rule inj_onI)
    fix p q assume h: "p \<in> set lpd_Q" "q \<in> set lpd_Q" "?b p = ?b q"
    then have w: "(of_nat (lpd_G p) :: u32) = of_nat (lpd_G q)"
      by (auto simp: lp_bin_key_bytes_def append_eq_append_conv intro: word_bytes_inject [where n = 4])
    have "unat (of_nat (lpd_G r) :: u32) = lpd_G r" if "r \<in> set lpd_Q" for r
      using lpd_G(2) [OF that] by (auto simp: unat_of_nat)
    then have "lpd_G p = lpd_G q" using w h(1,2) by metis
    then show "p = q" using lpd_G(1) h(1,2) by (auto dest: inj_onD)
  qed
  have mem: "?b q \<in> set lpd_L" if "q \<in> set lpd_Q" for q
    using lpd_G(2) [OF that] by (auto simp: lpd_L_def)
  have "length lpd_L < 2 ^ 32" using lpd_L_len(1) by simp
  then have "map slot (map (\<lambda>q. list_hash lpd_L (?b q)) lpd_Q) = map (pos lpd_L) (map ?b lpd_Q)"
    by (simp add: slot_list_hash o_def)
  moreover have "distinct (map (pos lpd_L) (map ?b lpd_Q))"
    using inj lpd_distinct(2) mem by (auto simp: distinct_map inj_on_def pos_inject)
  ultimately show "opprf_session_ok ideal_session 8 (lp_u0_keys (list_hash lpd_L) 2 4 us) ys"
    unfolding keys using lpd_len(4) by (intro ideal_session_ok) (simp_all only:, auto)
qed

section \<open>The hypotheses of the run\<close>

lemma lpd_fields:
  "DIM lpd_prm = 1" "DELTA lpd_prm = 10" "METRIC lpd_prm = 2" "BLK_CELLS lpd_prm = 1" "le_blake3 lpd_env = list_hash lpd_L"
  "length (rd_pts lpd_rd) = 1" "rd_bins_num lpd_rd = 1" "le_step3 lpd_env d = ideal_session"
  "le_step5 lpd_env d = ideal_session" "le_pad_keys lpd_env d = (\<lambda>i. of_nat (1000 + i))"
  "le_a_vole lpd_env = [3]"
  by (simp_all add: lpd_prm_def lpd_env_def lpd_rd_def)

lemma lpd_sessions_ok:
  assumes "id_idxs 0 = [0]"
  shows "lp_sessions_ok id_idxs 1 4 lpd_env lpd_prm ({0, 2}, 5) ({0, 1}, 6) lpd_rd lpd_sd [1000000, 7]"
proof -
  have q: "map fst (zip (map (list_hash lpd_L) lpd_Q) lpd_e) = map (list_hash lpd_L) lpd_Q"
    using lpd_pre0(2) lpd_pre1(2) by (simp add: lpd_Q_def lpd_e_def)
  have "map (\<lambda>x. pack_row (snd x)) lpd_entries = map pack_row lpd_rows_of"
    by (simp only: lpd_fst(2) [symmetric] list.map_comp o_def)
  then have v: "lp_prefix_vals lpd_env 2 33 lpd_entries 0 =
      padding_blocks (\<lambda>i. low_bytes (4 * (2 + 1)) (le_pad_vals lpd_env 0 i)) (map pack_row lpd_rows_of) 33"
    by (simp add: lp_prefix_vals_def)
  have k: "lp_prefix_keys lpd_env 33 lpd_entries 0 =
      padding_blocks (\<lambda>i. of_nat (1000 + i)) (map (list_hash lpd_L) lpd_B) 33"
    by (simp only: lp_prefix_keys_def lpd_fields lpd_fst)
  have n: "(5 + 6) * (1 * 1) * 3 = (33 :: nat)" "4 * (2 + 1) = (12 :: nat)" "4 * 2 = (8 :: nat)" by simp_all
  show ?thesis
    unfolding lp_sessions_ok_def Let_def lpd_fields fst_conv snd_conv n less_one
  proof (intro allI impI)
    fix d entries qs
    assume d: "d = 0" and "lp_list id_idxs (list_hash lpd_L) lpd_prm {0, 2} {0, 1} lpd_rd [1000000, 7] [3] d = Inr entries \<and>
      lp_queries (list_hash lpd_L) (le_empty_keys lpd_env d) (le_empty_e lpd_env d) {0, 2} {0, 1} 4 lpd_sd d = Inr qs"
    then have e: "entries = lpd_entries" "qs = zip (map (list_hash lpd_L) lpd_Q) lpd_e"
      using lpd_list [where id_idxs = id_idxs, OF assms] lpd_queries by simp_all
    show "opprf_session_ok ideal_session 12 (lp_prefix_keys lpd_env 33 entries d) (map fst qs) \<and>
      (\<forall>us. opprf_run ideal_session 12 (lp_prefix_keys lpd_env 33 entries d) (lp_prefix_vals lpd_env 2 33 entries d) (map fst qs) = Inr us \<longrightarrow>
        opprf_session_ok ideal_session 8 (lp_u0_keys (list_hash lpd_L) 2 4 us)
          (lp_a0_queries (list_hash lpd_L) lpd_prm 1 [1000000, 7] d))"
      unfolding d e k v q using lpd_run by blast
  qed
qed

lemma lpd_cards: "card {0, 2 :: nat} + card {0, 1 :: nat} = 4" "card {0, 1 :: nat} * 2 = 4"
  by simp_all

lemma lpd_params:
  "getSelectedParam lp_table (DELTA lpd_prm + 1) = Inr ({0, 2}, 5)" "getSelectedParam lp_table (DELTA lpd_prm) = Inr ({0, 1}, 6)"
  "getSelectedParam if_match_table (100 + 1) = Inr ({0, 2, 4, 6}, 14)"
  by (simp_all add: lpd_fields getSelectedParam_def lp_table_def lp_rows_def if_match_table_def if_match_rows_def)

lemma lpd_ok:
  "1 \<le> METRIC lpd_prm" "METRIC lpd_prm \<le> 3" "DIM lpd_prm \<le> 2 ^ 31" "unat (DELTA lpd_prm) ^ METRIC lpd_prm < 2 ^ 32"
  "100 = (of_nat (unat (DELTA lpd_prm) ^ METRIC lpd_prm) :: u64)"
  "recv_ok (\<lambda>_. [0, 0, 0]) (BLK_CELLS lpd_prm) lpd_prm lpd_rd" "recv_ok (\<lambda>_. [0, 0, 0]) 1 lpd_prm lpd_rd"
  "send_ok (\<lambda>_. [0, 0, 0]) lpd_prm lpd_rd lpd_sd" "if_peqt_ok (le_if lpd_env) (rd_bins_num lpd_rd)"
  "length [x] = rd_bins_num lpd_rd" "lp_match 1 lpd_prm lpd_rd lpd_sd [1000] 0 0"
  by (simp_all add: lpd_fields recv_ok_def lpd_rd_def lpd_sd_def send_ok_def cuckoo_ok_def if_peqt_ok_def lpd_env_def
      lpd_if_def good_triples_def margin_ok_def lp_match_def lp_close_def lp_distance_def abs_diff_def)

lemma lpd_vole:
  "bin < rd_bins_num lpd_rd \<Longrightarrow> d < DIM lpd_prm \<Longrightarrow>
    vole_ok (METRIC lpd_prm) (le_a_vole lpd_env) (le_c_vole lpd_env) (le_d_vole lpd_env) (le_delta lpd_env) (vole_idx lpd_prm bin d)"
  by (simp add: vole_ok_def lpd_fields lpd_env_def vole_idx_def)

lemma lpd_if:
  assumes "lp_shares id_idxs 1 4 narrow lpd_env lpd_prm ({0, 2}, 5) ({0, 1}, 6) lpd_rd lpd_sd [1000000, 7] [1000] = Inr v_hat"
    and ids: "\<And>i. id_idxs i = map (\<lambda>c. i * 1 + c) [0..<1]" and narrow: "\<And>e. ucast (narrow e) = (ucast e :: u32)"
  shows "if_sessions_ok ((le_if lpd_env)\<lparr>if_blake3 := le_blake3 lpd_env\<rparr>) ({0, 2, 4, 6}, 14) 100
    (lp_v_sums (DIM lpd_prm) (rd_bins_num lpd_rd) v_hat) (lp_u_sums (DIM lpd_prm) (rd_bins_num lpd_rd) [1000]) [of_nat 1000000]"
proof -
  have row: "row_ok (unat (DELTA lpd_prm) + 1) ({0, 2}, 5)" "row_ok (unat (DELTA lpd_prm)) ({0, 1}, 6)"
    using lpd_rows by (simp_all add: lpd_fields)
  have id0: "id_idxs 0 = [0]" using ids [of 0] by simp
  have close: "lp_close lpd_prm [100] [105]"
    by (simp add: lpd_fields lp_close_def lp_distance_def abs_diff_def)
  obtain vh where vh: "lp_shares id_idxs 1 4 narrow lpd_env lpd_prm ({0, 2}, 5) ({0, 1}, 6) lpd_rd lpd_sd [1000000, 7] [1000] = Inr vh"
    "\<And>j idx k i c d. j < rd_bins_num lpd_rd \<Longrightarrow> sd_bins lpd_sd ! j = Some (idx, k) \<Longrightarrow> i < length (rd_pts lpd_rd) \<Longrightarrow> c < 1 \<Longrightarrow>
       rd_ids lpd_rd ! (i * 1 + c) = sd_ids lpd_sd ! idx \<Longrightarrow> lp_close lpd_prm (rd_pts lpd_rd ! i) (sd_pts lpd_sd ! idx) \<Longrightarrow> d < DIM lpd_prm \<Longrightarrow>
       vh ! d ! j = [1000] ! (j * DIM lpd_prm + d) - ucast (abs_diff (rd_pts lpd_rd ! i ! d) (sd_pts lpd_sd ! idx ! d)) ^ METRIC lpd_prm"
    using lp_shares_ok [OF lpd_ok(1,2) row _ lpd_ok(7,8) ids narrow lpd_vole lpd_sessions_ok [where id_idxs = id_idxs, OF id0], of "[1000]"] by simp blast
  have "vh ! 0 ! 0 = 975"
    using vh(2) [of 0 0 0 0 0 0] close by (simp add: lpd_fields lpd_sd_def lpd_rd_def abs_diff_def)
  then have v: "lp_v_sums (DIM lpd_prm) (rd_bins_num lpd_rd) v_hat = [975]"
    using vh(1) assms(1) by (simp add: lp_v_sums_def lpd_fields)
  have u: "lp_u_sums (DIM lpd_prm) (rd_bins_num lpd_rd) [1000] = [1000]"
    by (simp add: lp_u_sums_def lpd_fields)
  have r: "row_ok (unat (100 :: u64) + 1) ({0, 2, 4, 6}, 14)" using lpd_rows(3) by simp
  show ?thesis unfolding v u
    by (rule if_hash_sessions [OF r, where L = lpd_L and N = 1000])
      (use lpd_L_len(1) in \<open>auto simp: lpd_env_def lpd_if_def lpd_L_def\<close>)
qed

text \<open>The squared distance is 25, within the squared radius 100, and the shares of the one bin differ.\<close>
theorem mp_ssFMat_lp_sh_complete_witness:
  "\<exists>eR eS. mp_ssFMat_lp_sh lpd_env lpd_prm lpd_rd lpd_sd [1000000, 7] [1000] [of_nat 1000000] [77] = Inr (eR, eS) \<and>
    length eR = 1 \<and> length eS = 1 \<and> eR ! 0 \<noteq> eS ! 0"
proof -
  have ses: "lp_sessions_ok (\<lambda>i. map (\<lambda>idx. i * BLK_CELLS lpd_prm + idx) [0..<BLK_CELLS lpd_prm]) (BLK_CELLS lpd_prm)
      (card {0, 2 :: nat} + card {0, 1 :: nat}) lpd_env lpd_prm ({0, 2}, 5) ({0, 1}, 6) lpd_rd lpd_sd [1000000, 7]"
    unfolding lpd_cards lpd_fields(4) by (rule lpd_sessions_ok) simp
  have ifs: "if_sessions_ok ((le_if lpd_env)\<lparr>if_blake3 := le_blake3 lpd_env\<rparr>) ({0, 2, 4, 6}, 14) 100
      (lp_v_sums (DIM lpd_prm) (rd_bins_num lpd_rd) v_hat) (lp_u_sums (DIM lpd_prm) (rd_bins_num lpd_rd) [1000]) [of_nat 1000000]"
    if "lp_shares (\<lambda>i. map (\<lambda>idx. i * BLK_CELLS lpd_prm + idx) [0..<BLK_CELLS lpd_prm]) (BLK_CELLS lpd_prm)
      (card {0, 2 :: nat} + card {0, 1 :: nat}) (\<lambda>e. ucast (ucast e :: u32)) lpd_env lpd_prm ({0, 2}, 5) ({0, 1}, 6)
      lpd_rd lpd_sd [1000000, 7] [1000] = Inr v_hat" for v_hat
    using that unfolding lpd_cards lpd_fields(4) by (rule lpd_if) (simp_all add: ucast_narrow)
  have "\<exists>eR eS. mp_ssFMat_lp_sh lpd_env lpd_prm lpd_rd lpd_sd [1000000, 7] [1000] [of_nat 1000000] [77] = Inr (eR, eS) \<and>
    length eR = rd_bins_num lpd_rd \<and> length eS = rd_bins_num lpd_rd \<and>
    (\<forall>j < rd_bins_num lpd_rd. \<forall>idx k. sd_bins lpd_sd ! j = Some (idx, k) \<and>
      lp_match (BLK_CELLS lpd_prm) lpd_prm lpd_rd lpd_sd [1000] j idx \<longrightarrow> eR ! j \<noteq> eS ! j)"
    by (rule mp_ssFMat_lp_sh_complete [OF lpd_ok(1-5) lpd_params lpd_ok(6,8) refl lpd_vole ses lpd_ok(10) lpd_ok(10) _ lpd_ok(9)])
      (assumption | rule ifs)+
  then show ?thesis using lpd_ok(11) by (fastforce simp: lpd_fields lpd_sd_def)
qed

theorem mp_ssFMat_lp_complete_witness:
  "\<exists>eR eS. mp_ssFMat_lp lpd_env lpd_prm lpd_rd lpd_sd [1000000, 7] [1000] [of_nat 1000000] [77] = Inr (eR, eS) \<and>
    length eR = 1 \<and> length eS = 1 \<and> eR ! 0 \<noteq> eS ! 0"
proof -
  have ses: "lp_sessions_ok (\<lambda>i. [i]) 1 (card {0, 1 :: nat} * 2) lpd_env lpd_prm ({0, 2}, 5) ({0, 1}, 6) lpd_rd lpd_sd [1000000, 7]"
    unfolding lpd_cards by (rule lpd_sessions_ok) simp
  have ifs: "if_sessions_ok ((le_if lpd_env)\<lparr>if_blake3 := le_blake3 lpd_env\<rparr>) ({0, 2, 4, 6}, 14) 100
      (lp_v_sums (DIM lpd_prm) (rd_bins_num lpd_rd) v_hat) (lp_u_sums (DIM lpd_prm) (rd_bins_num lpd_rd) [1000]) [of_nat 1000000]"
    if "lp_shares (\<lambda>i. [i]) 1 (card {0, 1 :: nat} * 2) (\<lambda>e. e) lpd_env lpd_prm ({0, 2}, 5) ({0, 1}, 6)
      lpd_rd lpd_sd [1000000, 7] [1000] = Inr v_hat" for v_hat
    using that unfolding lpd_cards by (rule lpd_if) simp_all
  have "\<exists>eR eS. mp_ssFMat_lp lpd_env lpd_prm lpd_rd lpd_sd [1000000, 7] [1000] [of_nat 1000000] [77] = Inr (eR, eS) \<and>
    length eR = rd_bins_num lpd_rd \<and> length eS = rd_bins_num lpd_rd \<and>
    (\<forall>j < rd_bins_num lpd_rd. \<forall>idx k. sd_bins lpd_sd ! j = Some (idx, k) \<and>
      lp_match 1 lpd_prm lpd_rd lpd_sd [1000] j idx \<longrightarrow> eR ! j \<noteq> eS ! j)"
    by (rule mp_ssFMat_lp_complete [OF lpd_ok(1-5) lpd_params lpd_ok(7,8) lpd_vole ses lpd_ok(10) lpd_ok(10) _ lpd_ok(9)])
      (assumption | rule ifs)+
  then show ?thesis using lpd_ok(11) by (fastforce simp: lpd_fields lpd_sd_def)
qed

text \<open>A mask of 3 over the distance 5: the sums are 3 and nearly 2 to the 32.\<close>
theorem lp_small_mask_rejects_witness:
  "lp_u_sums 1 1 [3] ! 0 < lp_v_sums 1 1 [[lp_share 1 [] [] 0 ([1000000, 7] ! (0 + 1))
    (lp_candidate (\<lambda>e. e) 1 [] 6 0 3 2 (lp_row 1 [1000000, 7] [] 0 0 3))]] ! 0"
  using lp_small_mask_rejects [of 1 "[]" "[]" "[]" 6 0 3 2 5 3 "[1000000, 7]" 0] by (simp add: vole_ok_def)

end
