(* ===== verification/Fpsi_Online.thy ===== *)
theory Fpsi_Online
  imports Fpsi_Lp Simple_Index
begin

text \<open>
  The phases of fpsi_recv.cpp and fpsi_sender.cpp around the matching: the
  identifiers of the cells (\<open>psi_offline_sh\<close>), the receiver's hash table, the
  matching, and the oblivious transfers that deliver the identifiers of the
  matched items (\<open>psi_online_sh\<close>, \<open>psi_online_cmp\<close>).  The random transfers of the
  library are arguments, with what its documentation promises as a hypothesis.
\<close>

section \<open>Parameters and identifiers\<close>

text \<open>The constructors: \<open>SIDE_LEN\<close>, \<open>BLK_CELLS = 1 << dim\<close> as an \<open>int\<close>, \<open>DELTA_L2\<close>.\<close>
definition init_params :: "nat \<Rightarrow> u64 \<Rightarrow> nat \<Rightarrow> fpsi_params result" where
  "init_params dim delta metric =
     (if 31 \<le> dim then Inl (Undefined_behaviour ''1 << dim'')
      else Inr \<lparr>DIM = dim, DELTA = delta, METRIC = metric, SIDE_LEN = 2 * delta, BLK_CELLS = 2 ^ dim, DELTA_L2 = delta * delta\<rparr>)"

definition get_blk_from_cell :: "(u8 list \<Rightarrow> block) \<Rightarrow> pt \<Rightarrow> block" where
  "get_blk_from_cell blake3 c = blake3 (concat (map (word_bytes 8) c))"

text \<open>\<open>psi_offline_sh\<close>: all the cells a point may share with a near one, and the cell of a point.\<close>
definition offline_ids_recv :: "(u8 list \<Rightarrow> block) \<Rightarrow> fpsi_params \<Rightarrow> pt list \<Rightarrow> block list result" where
  "offline_ids_recv blake3 prm pts =
     rmap concat (mapR (\<lambda>p. rmap (map (get_blk_from_cell blake3))
       (intersection p (of_nat (METRIC prm)) (DIM prm) (DELTA prm) (SIDE_LEN prm) (BLK_CELLS prm) (DELTA_L2 prm))) pts)"

definition offline_ids_send :: "(u8 list \<Rightarrow> block) \<Rightarrow> fpsi_params \<Rightarrow> pt list \<Rightarrow> block list result" where
  "offline_ids_send blake3 prm pts =
     mapR (\<lambda>p. rmap (get_blk_from_cell blake3) (cell p (DIM prm) (SIDE_LEN prm))) pts"

section \<open>The oblivious transfers\<close>

text \<open>The two half messages of a bin; \<open>r\<close> are the draws that hide the other one.\<close>
definition half_msgs :: "block list \<Rightarrow> (nat \<times> nat) option \<Rightarrow> bool \<Rightarrow> block \<times> block \<Rightarrow> block \<times> block \<Rightarrow> block \<times> block" where
  "half_msgs ids bin hit m r =
     (case bin of None \<Rightarrow> (fst r XOR fst m, snd r XOR snd m)
      | Some (idx, _) \<Rightarrow>
          if hit then (ids ! idx XOR fst m, snd r XOR snd m) else (fst r XOR fst m, ids ! idx XOR snd m))"

definition psi_ot_send ::
  "block list \<Rightarrow> cuckoo \<Rightarrow> bool list \<Rightarrow> (block \<times> block) list \<Rightarrow> (block \<times> block) list \<Rightarrow> (block \<times> block) list" where
  "psi_ot_send ids bins ee ot_messages rnd =
     map (\<lambda>i. half_msgs ids (bins ! i) (ee ! i) (ot_messages ! i) (rnd ! i)) [0..<length bins]"

definition psi_ot_recv :: "bool list \<Rightarrow> block list \<Rightarrow> (block \<times> block) list \<Rightarrow> block list" where
  "psi_ot_recv ee ot_messages mask_msg =
     map (\<lambda>i. if ee ! i then ot_messages ! i XOR snd (mask_msg ! i) else ot_messages ! i XOR fst (mask_msg ! i))
       [0..<length mask_msg]"

text \<open>The lookup: one dummy entry per message that is an identifier.\<close>
definition psi_lookup :: "block list \<Rightarrow> block list \<Rightarrow> nat list" where
  "psi_lookup find_table recvMsgs = map (\<lambda>_. 0) (filter (\<lambda>msg. msg \<in> set find_table) recvMsgs)"

section \<open>The online phases\<close>

record online_env =
  oe_blake3 :: "u8 list \<Rightarrow> block"
  oe_locations :: "nat list \<Rightarrow> block list \<Rightarrow> nat list list"
  oe_num_bins :: nat
  oe_bin_size :: nat
  oe_bins :: cuckoo
  oe_linf :: fmat_env
  oe_a_linf :: "block list"
  oe_r_linf :: "block list"
  oe_lp :: lp_env
  oe_a_lp :: "u32 list"
  oe_masks :: "u32 list"
  oe_a_if :: "block list"
  oe_t_if :: "u64 list"
  oe_ot_send :: "(block \<times> block) list"
  oe_ot_recv :: "bool list \<Rightarrow> block list"
  oe_rnd :: "(block \<times> block) list"

text \<open>Step 2 of the receiver: the simple hash table of its keys.\<close>
definition recv_table :: "online_env \<Rightarrow> block list \<Rightarrow> simple_index result" where
  "recv_table env keys =
     insert_items (oe_locations env) keys (simple_init (oe_bin_size env) (oe_num_bins env) (length keys) 3)"

text \<open>
  Both parties, for the two matching protocols \<open>linf\<close> and \<open>lp\<close> and the keys \<open>keys\<close>
  under which the receiver's identifiers are put in the table: the messages of the
  transfers and the result of the lookup.
\<close>
definition psi_online ::
  "(fmat_env \<Rightarrow> fpsi_params \<Rightarrow> recv_data \<Rightarrow> send_data \<Rightarrow> block list \<Rightarrow> block list \<Rightarrow> (bool list \<times> bool list) result) \<Rightarrow>
   (lp_env \<Rightarrow> fpsi_params \<Rightarrow> recv_data \<Rightarrow> send_data \<Rightarrow> u32 list \<Rightarrow> u32 list \<Rightarrow> block list \<Rightarrow> u64 list \<Rightarrow> (bool list \<times> bool list) result) \<Rightarrow>
   online_env \<Rightarrow> fpsi_params \<Rightarrow> block list \<Rightarrow> pt list \<Rightarrow> block list \<Rightarrow> pt list \<Rightarrow> block list \<Rightarrow>
   (block list \<times> nat list) result" where
  "psi_online linf lp env prm keys recv_pts recv_ids send_pts send_ids =
     rbind (recv_table env keys) (\<lambda>st.
     let rd = \<lparr>rd_pts = recv_pts, rd_ids = recv_ids, rd_locations = mLocations st, rd_bins_num = mNumBins st\<rparr>;
         sd = \<lparr>sd_pts = send_pts, sd_ids = send_ids, sd_bins = oe_bins env\<rparr>
     in rbind (if METRIC prm = 0
          then linf ((oe_linf env)\<lparr>fe_blake3 := oe_blake3 env\<rparr>) prm rd sd (oe_a_linf env) (oe_r_linf env)
          else lp ((oe_lp env)\<lparr>le_blake3 := oe_blake3 env\<rparr>) prm rd sd (oe_a_lp env) (oe_masks env) (oe_a_if env) (oe_t_if env))
        (\<lambda>(ee_recv, ee_send).
          let recvMsgs = psi_ot_recv ee_recv (oe_ot_recv env ee_recv)
                (psi_ot_send send_ids (oe_bins env) ee_send (oe_ot_send env) (oe_rnd env))
          in Inr (recvMsgs, psi_lookup recv_ids recvMsgs)))"

definition psi_online_sh ::
  "online_env \<Rightarrow> fpsi_params \<Rightarrow> pt list \<Rightarrow> block list \<Rightarrow> pt list \<Rightarrow> block list \<Rightarrow> (block list \<times> nat list) result" where
  "psi_online_sh env prm recv_pts sh_ID_xr send_pts sh_ID_ys =
     psi_online mp_ssFMat_linf_sh mp_ssFMat_lp_sh env prm sh_ID_xr recv_pts sh_ID_xr send_pts sh_ID_ys"

text \<open>Here the tables are built on the hashes of the identifiers.\<close>
definition id_key :: "(u8 list \<Rightarrow> block) \<Rightarrow> block \<Rightarrow> block" where
  "id_key blake3 ident = blake3 (word_bytes 16 ident)"

definition psi_online_cmp ::
  "online_env \<Rightarrow> fpsi_params \<Rightarrow> pt list \<Rightarrow> block list \<Rightarrow> pt list \<Rightarrow> block list \<Rightarrow> (block list \<times> nat list) result" where
  "psi_online_cmp env prm recv_pts recv_cmp_ID send_pts send_cmp_ID =
     psi_online mp_ssFMat_linf mp_ssFMat_lp env prm (map (id_key (oe_blake3 env)) recv_cmp_ID)
       recv_pts recv_cmp_ID send_pts send_cmp_ID"

section \<open>The transfers deliver the items whose shares differ\<close>

text \<open>The random transfer: the receiver gets the message of its choice.\<close>
definition rot_ok :: "bool list \<Rightarrow> (block \<times> block) list \<Rightarrow> block list \<Rightarrow> bool" where
  "rot_ok ee pairs out \<longleftrightarrow> (\<forall>i < length pairs. out ! i = (if ee ! i then snd (pairs ! i) else fst (pairs ! i)))"

lemma psi_ot_msg:
  assumes "j < length bins" "length ot = length bins" "rot_ok eR ot out"
  shows "psi_ot_recv eR out (psi_ot_send ids bins eS ot rnd) ! j =
    (case bins ! j of
       Some (idx, _) \<Rightarrow> if eR ! j \<noteq> eS ! j then ids ! idx else if eR ! j then snd (rnd ! j) else fst (rnd ! j)
     | None \<Rightarrow> if eR ! j then snd (rnd ! j) else fst (rnd ! j))"
proof -
  have "out ! j = (if eR ! j then snd (ot ! j) else fst (ot ! j))" using assms by (simp add: rot_ok_def)
  then show ?thesis
    using assms(1) by (auto simp: psi_ot_recv_def psi_ot_send_def half_msgs_def ac_simps split: option.splits)
qed

lemma length_psi_ot: "length (psi_ot_recv eR out (psi_ot_send ids bins eS ot rnd)) = length bins"
  by (simp add: psi_ot_recv_def psi_ot_send_def)

text \<open>Distinct matched items are delivered in distinct bins.\<close>
lemma psi_lookup_count:
  assumes "\<And>idx. idx \<in> M \<Longrightarrow> \<exists>j < length msgs. \<exists>k. bins ! j = Some (idx, k) \<and> msgs ! j \<in> set ids"
  shows "card M \<le> length (psi_lookup ids msgs)"
proof -
  obtain f where f: "\<And>idx. idx \<in> M \<Longrightarrow> f idx < length msgs \<and> (\<exists>k. bins ! f idx = Some (idx, k)) \<and> msgs ! f idx \<in> set ids"
    using assms by metis
  have "inj_on f M"
  proof (rule inj_onI)
    fix x y assume "x \<in> M" "y \<in> M" "f x = f y"
    then obtain k l where "bins ! f x = Some (x, k)" "bins ! f x = Some (y, l)" using f by metis
    then show "x = y" by simp
  qed
  then have "card M = card (f ` M)" by (simp add: card_image)
  also have "\<dots> \<le> card {j. j < length msgs \<and> msgs ! j \<in> set ids}"
    using f by (intro card_mono) auto
  also have "\<dots> = length (psi_lookup ids msgs)" by (simp add: psi_lookup_def length_filter_conv_card)
  finally show ?thesis .
qed

section \<open>Both phases\<close>

definition online_rd :: "(block \<Rightarrow> nat list) \<Rightarrow> online_env \<Rightarrow> block list \<Rightarrow> pt list \<Rightarrow> block list \<Rightarrow> recv_data" where
  "online_rd loc env keys pts ids =
     \<lparr>rd_pts = pts, rd_ids = ids, rd_locations = map loc keys, rd_bins_num = oe_num_bins env\<rparr>"

definition online_sd :: "online_env \<Rightarrow> pt list \<Rightarrow> block list \<Rightarrow> send_data" where
  "online_sd env pts ids = \<lparr>sd_pts = pts, sd_ids = ids, sd_bins = oe_bins env\<rparr>"

text \<open>The hash functions \<open>loc\<close> point into the table and no bin is too full.\<close>
definition tables_ok :: "(block \<Rightarrow> nat list) \<Rightarrow> online_env \<Rightarrow> block list \<Rightarrow> bool" where
  "tables_ok loc env keys \<longleftrightarrow>
     (\<forall>xs. oe_locations env (map (\<lambda>i. oe_num_bins env - i) [0..<3]) xs = map loc xs) \<and>
     (\<forall>x \<in> set keys. \<forall>j < 3. loc x ! j < oe_num_bins env) \<and>
     (\<forall>b < oe_num_bins env. bin_load loc keys 3 b \<le> oe_bin_size env)"

definition transfers_ok :: "online_env \<Rightarrow> bool" where
  "transfers_ok env \<longleftrightarrow> length (oe_ot_send env) = oe_num_bins env \<and> (\<forall>ee. rot_ok ee (oe_ot_send env) (oe_ot_recv env ee))"

lemma psi_online_ok:
  fixes env loc keys recv_pts recv_ids send_pts send_ids
  defines "rd \<equiv> online_rd loc env keys recv_pts recv_ids" and "sd \<equiv> online_sd env send_pts send_ids"
  assumes tab: "tables_ok loc env keys" and ot: "transfers_ok env" and send: "send_ok loc' prm rd sd"
    and shares: "(if METRIC prm = 0
          then linf ((oe_linf env)\<lparr>fe_blake3 := oe_blake3 env\<rparr>) prm rd sd (oe_a_linf env) (oe_r_linf env)
          else lp ((oe_lp env)\<lparr>le_blake3 := oe_blake3 env\<rparr>) prm rd sd (oe_a_lp env) (oe_masks env) (oe_a_if env) (oe_t_if env)) = Inr (eR, eS)"
    and hit: "\<And>j idx k. j < oe_num_bins env \<Longrightarrow> oe_bins env ! j = Some (idx, k) \<Longrightarrow> M j idx \<Longrightarrow>
      eR ! j \<noteq> eS ! j \<and> send_ids ! idx \<in> set recv_ids"
  defines "P \<equiv> (\<lambda>idx. \<exists>j < oe_num_bins env. \<exists>k. oe_bins env ! j = Some (idx, k) \<and> M j idx)"
  shows "\<exists>msgs found. psi_online linf lp env prm keys recv_pts recv_ids send_pts send_ids = Inr (msgs, found) \<and>
    length msgs = oe_num_bins env \<and> (\<forall>idx. P idx \<longrightarrow> send_ids ! idx \<in> set msgs) \<and> card {idx. P idx} \<le> length found"
proof -
  obtain st where st: "recv_table env keys = Inr st" "mLocations st = map loc keys" "mNumBins st = oe_num_bins env"
    using insert_items_ok [of "oe_locations env" "oe_num_bins env" 3 loc keys "oe_bin_size env"] tab
    by (auto simp: tables_ok_def recv_table_def)
  let ?msgs = "psi_ot_recv eR (oe_ot_recv env eR) (psi_ot_send send_ids (oe_bins env) eS (oe_ot_send env) (oe_rnd env))"
  have bins: "length (oe_bins env) = oe_num_bins env"
    using send by (simp add: send_ok_def rd_def sd_def online_rd_def online_sd_def)
  have run: "psi_online linf lp env prm keys recv_pts recv_ids send_pts send_ids = Inr (?msgs, psi_lookup recv_ids ?msgs)"
    by (simp only: psi_online_def st rbind.simps Let_def prod.case
        shares [unfolded rd_def sd_def online_rd_def online_sd_def])
  have len: "length ?msgs = oe_num_bins env" by (simp add: length_psi_ot bins)
  have ex: "\<exists>j < length ?msgs. \<exists>k. oe_bins env ! j = Some (idx, k) \<and> ?msgs ! j = send_ids ! idx \<and> send_ids ! idx \<in> set recv_ids"
    if p: "P idx" for idx
  proof -
    obtain j k where j: "j < oe_num_bins env" "oe_bins env ! j = Some (idx, k)" "M j idx"
      using p unfolding P_def by blast
    have "?msgs ! j = send_ids ! idx"
      using psi_ot_msg [of j "oe_bins env" "oe_ot_send env" eR "oe_ot_recv env eR"] hit [OF j] j bins ot
      by (simp add: transfers_ok_def)
    then show ?thesis using j len hit [OF j] by auto
  qed
  have "card {idx. P idx} \<le> length (psi_lookup recv_ids ?msgs)"
    using ex by (intro psi_lookup_count [where bins = "oe_bins env"]) (metis (lifting) mem_Collect_eq)
  moreover have "send_ids ! idx \<in> set ?msgs" if "P idx" for idx
    using ex [OF that] by (metis nth_mem)
  ultimately show ?thesis using run len by blast
qed

lemma placed:
  assumes "send_ok loc prm rd (online_sd env send_pts send_ids)" "idx < length send_ids"
  shows "\<exists>j < rd_bins_num rd. \<exists>k. oe_bins env ! j = Some (idx, k)"
proof -
  have "cuckoo_ok loc send_ids (oe_bins env)" "length (oe_bins env) = rd_bins_num rd"
    using assms(1) by (simp_all add: send_ok_def online_sd_def)
  then show ?thesis using assms(2) unfolding cuckoo_ok_def by metis
qed

lemma in_bins:
  "send_ok loc prm rd sd \<Longrightarrow> j < rd_bins_num rd \<Longrightarrow> sd_bins sd ! j = Some (idx, k) \<Longrightarrow> idx < length (sd_ids sd)"
  using cuckoo_okD [of loc "sd_ids sd" "sd_bins sd" j idx k] by (simp add: send_ok_def)

section \<open>Identifiers of near points\<close>

lemma mapR_pts:
  assumes "\<And>p. p \<in> set ps \<Longrightarrow> \<exists>y. f p = Inr y \<and> Q p y"
  shows "\<exists>ys. mapR f ps = Inr ys \<and> length ys = length ps \<and> (\<forall>i < length ps. Q (ps ! i) (ys ! i))"
proof -
  obtain g where g: "\<And>p. p \<in> set ps \<Longrightarrow> f p = Inr (g p) \<and> Q p (g p)" using assms by metis
  then have "mapR f ps = Inr (map g ps)" by (intro mapR_Inr) simp
  then show ?thesis using g by (intro exI [of _ "map g ps"]) simp
qed

lemma offline_ids_ok:
  assumes prm: "init_params dim delta metric = Inr prm" "metric \<in> {0, 1, 2}" "0 < unat delta" "2 * unat delta < 2 ^ 64"
    and pts: "\<forall>p \<in> set recv_pts. length p = dim" "\<forall>q \<in> set send_pts. length q = dim"
  shows "\<exists>ids_r ids_s. offline_ids_recv blake3 prm recv_pts = Inr ids_r \<and> offline_ids_send blake3 prm send_pts = Inr ids_s \<and>
    length ids_r = length recv_pts * BLK_CELLS prm \<and> length ids_s = length send_pts \<and>
    (\<forall>i < length recv_pts. \<forall>idx < length send_pts.
       (\<forall>d < dim. delta \<le> recv_pts ! i ! d \<and> near delta (recv_pts ! i ! d) (send_pts ! idx ! d)) \<longrightarrow>
       (\<exists>c < BLK_CELLS prm. ids_r ! (i * BLK_CELLS prm + c) = ids_s ! idx))"
proof -
  let ?side = "2 * delta" and ?n = "(2 :: nat) ^ dim"
  have d: "DIM prm = dim" "DELTA prm = delta" "METRIC prm = metric" "SIDE_LEN prm = ?side" "BLK_CELLS prm = ?n" "dim \<le> 64"
    using prm(1) by (auto simp: init_params_def split: if_splits)
  have side: "unat ?side = 2 * unat delta" "?side \<noteq> 0"
  proof -
    show "unat ?side = 2 * unat delta" using prm(4) by (simp add: unat_word_ariths)
    then show "?side \<noteq> 0" using prm(3) by auto
  qed
  have m: "(of_nat metric :: u64) \<in> {0, 1, 2}" using prm(2) by auto
  define blk where "blk p = map (\<lambda>i. (p ! i - delta) div ?side) [0..<dim]" for p
  define cs where "cs q = map (\<lambda>i. q ! i div ?side) [0..<dim]" for q :: pt
  define g where "g p = map (get_blk_from_cell blake3) (map (corner_cell (blk p) dim) [0..<?n])" for p
  have r: "offline_ids_recv blake3 prm recv_pts = Inr (concat (map g recv_pts))"
    unfolding offline_ids_recv_def
    by (rule rmap_concat_mapR) (use pts(1) intersection_ok [OF _ side(2) d(6) m] in \<open>auto simp: d g_def blk_def\<close>)
  have s: "offline_ids_send blake3 prm send_pts = Inr (map (\<lambda>q. get_blk_from_cell blake3 (cs q)) send_pts)"
    unfolding offline_ids_send_def using pts(2) cell_ok [OF _ side(2)] by (intro mapR_Inr) (auto simp: d cs_def)
  have len: "length (g p) = ?n" for p by (simp add: g_def)
  have "\<exists>c < ?n. concat (map g recv_pts) ! (i * ?n + c) = map (\<lambda>q. get_blk_from_cell blake3 (cs q)) send_pts ! idx"
    if h: "i < length recv_pts" "idx < length send_pts"
      "\<forall>d < dim. delta \<le> recv_pts ! i ! d \<and> near delta (recv_pts ! i ! d) (send_pts ! idx ! d)" for i idx
  proof -
    let ?p = "recv_pts ! i" and ?q = "send_pts ! idx"
    have "cs ?q ! j = blk ?p ! j \<or> cs ?q ! j = blk ?p ! j + 1" if "j < dim" for j
    proof -
      have "unat (abs_diff (?p ! j) (?q ! j)) \<le> unat delta"
        using h(3) [rule_format, OF that] unat_abs_diff [of "?p ! j" "?q ! j"] unfolding near_def by linarith
      then show ?thesis
        using near_cell [of delta "?p ! j" "?q ! j" ?side] h(3) that side(1) prm(3) by (simp add: cs_def blk_def)
    qed
    then obtain c where c: "c < ?n" "corner_cell (blk ?p) dim c = cs ?q"
      using corner_cell_cover [of "cs ?q" dim "blk ?p"] by (auto simp: cs_def)
    have "concat (map (\<lambda>i. g (recv_pts ! i)) [0..<length recv_pts]) ! (?n * i + c) = g ?p ! c"
      using nth_concat_map [of "length recv_pts" "\<lambda>i. g (recv_pts ! i)" ?n i c] len c(1) h(1) by simp
    moreover have "map (\<lambda>i. g (recv_pts ! i)) [0..<length recv_pts] = map g recv_pts"
      by (rule nth_equalityI) simp_all
    ultimately have "concat (map g recv_pts) ! (i * ?n + c) = g ?p ! c" by (simp add: mult.commute)
    then show ?thesis using c h(2) by (auto simp: g_def)
  qed
  moreover have "length (concat (map g recv_pts)) = length recv_pts * ?n"
    by (simp add: length_concat o_def len sum_list_triv)
  ultimately show ?thesis using r s by (auto simp: d)
qed

lemma match_index: "i < n \<Longrightarrow> c < m \<Longrightarrow> i * m + c < n * m" for i c n m :: nat
proof -
  assume a: "i < n" "c < m"
  have "i * m + c < Suc i * m" using a by simp
  also have "\<dots> \<le> n * m" using a by (intro mult_le_mono1) simp
  finally show ?thesis .
qed

section \<open>Properties\<close>

text \<open>C30. The transfers: with the random transfers of the library, the receiver gets in every bin the
  identifier of the bin's item exactly when the two shares differ, and the sender's random block
  otherwise, as for an empty bin.\<close>
theorem psi_ot_delivers:
  assumes "length ot = length bins" "rot_ok eR ot out"
  shows "length (psi_ot_recv eR out (psi_ot_send ids bins eS ot rnd)) = length bins \<and>
    (\<forall>j < length bins. psi_ot_recv eR out (psi_ot_send ids bins eS ot rnd) ! j =
      (case bins ! j of
         Some (idx, _) \<Rightarrow> if eR ! j \<noteq> eS ! j then ids ! idx else if eR ! j then snd (rnd ! j) else fst (rnd ! j)
       | None \<Rightarrow> if eR ! j then snd (rnd ! j) else fst (rnd ! j)))"
  using psi_ot_msg [OF _ assms] by (simp add: length_psi_ot)

lemma psi_ot_delivers_witness:
  "psi_ot_recv [True, False] [8, 5] (psi_ot_send [70, 71] [Some (1, 0), Some (0, 2)] [False, False] [(7, 8), (5, 6)] [(1, 2), (3, 4)]) ! 0 = 71"
proof -
  have ot: "rot_ok [True, False] [(7, 8), (5, 6)] [8, 5]" by (auto simp: rot_ok_def less_2_cases_iff numeral_2_eq_2 less_Suc_eq)
  show ?thesis
    using psi_ot_delivers [of "[(7, 8), (5, 6)]" "[Some (1, 0), Some (0, 2)]" "[True, False]" "[8, 5]" "[70, 71]" "[False, False]" "[(1, 2), (3, 4)]"] ot
    by simp
qed

text \<open>C31. Spatial identifiers: for points of the right dimension whose coordinates are at least the
  radius, both parties compute their identifiers, and the identifier of a sender's point is among
  those of every receiver's point that is within the radius in every dimension.\<close>
theorem offline_ids_match:
  assumes "init_params dim delta metric = Inr prm" "metric \<in> {0, 1, 2}" "0 < unat delta" "2 * unat delta < 2 ^ 64"
    and "\<forall>p \<in> set recv_pts. length p = dim" "\<forall>q \<in> set send_pts. length q = dim"
  shows "\<exists>ids_r ids_s. offline_ids_recv blake3 prm recv_pts = Inr ids_r \<and> offline_ids_send blake3 prm send_pts = Inr ids_s \<and>
    length ids_r = length recv_pts * BLK_CELLS prm \<and> length ids_s = length send_pts \<and>
    (\<forall>i < length recv_pts. \<forall>idx < length send_pts.
       (\<forall>d < dim. delta \<le> recv_pts ! i ! d \<and> near delta (recv_pts ! i ! d) (send_pts ! idx ! d)) \<longrightarrow>
       (\<exists>c < BLK_CELLS prm. ids_r ! (i * BLK_CELLS prm + c) = ids_s ! idx))"
  by (rule offline_ids_ok [OF assms])

lemma offline_ids_match_witness:
  "\<exists>ids_r ids_s. offline_ids_recv (\<lambda>m. of_nat (length m)) \<lparr>DIM = 1, DELTA = 10, METRIC = 0, SIDE_LEN = 20, BLK_CELLS = 2, DELTA_L2 = 100\<rparr> [[100]] = Inr ids_r \<and>
    offline_ids_send (\<lambda>m. of_nat (length m)) \<lparr>DIM = 1, DELTA = 10, METRIC = 0, SIDE_LEN = 20, BLK_CELLS = 2, DELTA_L2 = 100\<rparr> [[105]] = Inr ids_s \<and>
    (\<exists>c < 2. ids_r ! c = ids_s ! 0)"
proof -
  have p: "init_params 1 10 0 = Inr \<lparr>DIM = 1, DELTA = 10, METRIC = 0, SIDE_LEN = 20, BLK_CELLS = 2, DELTA_L2 = 100\<rparr>"
    by (simp add: init_params_def)
  show ?thesis
    using offline_ids_match [OF p, of "[[100]]" "[[105]]" "\<lambda>m. of_nat (length m)"] by (fastforce simp: near_def)
qed

text \<open>C32. The spatial protocol for the maximum norm: with tables, transfers and sessions as the code
  sets them up, the run succeeds, the receiver is sent the identifier of every sender's point that
  shares a cell with a receiver's point within the radius, and its lookup finds at least as many
  messages as there are such points.\<close>
theorem psi_online_sh_complete:
  fixes env loc recv_pts ids_r send_pts ids_s
  defines "rd \<equiv> online_rd loc env ids_r recv_pts ids_r" and "sd \<equiv> online_sd env send_pts ids_s"
    and "fenv \<equiv> (oe_linf env)\<lparr>fe_blake3 := oe_blake3 env\<rparr>"
  assumes "METRIC prm = 0" "tables_ok loc env ids_r" "transfers_ok env"
    and "getSelectedParam linf_table (2 * DELTA prm + 1) = Inr (u, b)" "unat (DELTA prm) < 2 ^ 63"
    and "recv_ok loc (BLK_CELLS prm) prm rd" "send_ok loc prm rd sd"
    and "length (oe_a_linf env) = oe_num_bins env * DIM prm" "length (oe_r_linf env) = oe_num_bins env * DIM prm"
    and "linf_sessions_ok (linf_list_sh (oe_blake3 env) prm) (BLK_CELLS prm) fenv prm (u, b) rd sd (oe_a_linf env)"
    and "peqt_ok fenv 128 (oe_num_bins env)"
  shows "\<exists>msgs found. psi_online_sh env prm recv_pts ids_r send_pts ids_s = Inr (msgs, found) \<and>
    length msgs = oe_num_bins env \<and>
    (\<forall>idx < length ids_s. linf_match (BLK_CELLS prm) prm rd sd idx \<longrightarrow> ids_s ! idx \<in> set msgs) \<and>
    card {idx. idx < length ids_s \<and> linf_match (BLK_CELLS prm) prm rd sd idx} \<le> length found"
proof -
  have f: "rd_bins_num rd = oe_num_bins env" "rd_ids rd = ids_r" "rd_pts rd = recv_pts" "sd_ids sd = ids_s" "sd_bins sd = oe_bins env"
    "fe_blake3 fenv = oe_blake3 env"
    by (simp_all add: rd_def sd_def online_rd_def online_sd_def fenv_def)
  obtain eR eS where e: "mp_ssFMat_linf_sh fenv prm rd sd (oe_a_linf env) (oe_r_linf env) = Inr (eR, eS)"
    "\<And>j idx k. j < oe_num_bins env \<Longrightarrow> oe_bins env ! j = Some (idx, k) \<Longrightarrow> linf_match (BLK_CELLS prm) prm rd sd idx \<Longrightarrow>
       eR ! j \<noteq> eS ! j"
    using linf_sh.fmat_ok [OF assms(7-10), of "oe_a_linf env" "oe_r_linf env" fenv] assms(11-14)
    unfolding mp_ssFMat_linf_sh_def f by blast
  have mem: "ids_s ! idx \<in> set ids_r" if "linf_match (BLK_CELLS prm) prm rd sd idx" for idx
    using that assms(9) unfolding linf_match_def recv_ok_def f by (metis match_index nth_mem)
  let ?M = "\<lambda>idx. linf_match (BLK_CELLS prm) prm rd sd idx"
  have "(if METRIC prm = 0 then mp_ssFMat_linf_sh fenv prm rd sd (oe_a_linf env) (oe_r_linf env)
      else mp_ssFMat_lp_sh ((oe_lp env)\<lparr>le_blake3 := oe_blake3 env\<rparr>) prm rd sd (oe_a_lp env) (oe_masks env) (oe_a_if env) (oe_t_if env)) =
    Inr (eR, eS)" using e(1) assms(4) by simp
  note on = psi_online_ok [where M = "\<lambda>_. ?M" and linf = mp_ssFMat_linf_sh and lp = mp_ssFMat_lp_sh and env = env and loc = loc and
      loc' = loc and keys = ids_r and recv_pts = recv_pts and recv_ids = ids_r and send_pts = send_pts and send_ids = ids_s, OF assms(5,6) assms(10) [unfolded rd_def sd_def] this [unfolded rd_def sd_def fenv_def]]
  obtain msgs found where r: "psi_online mp_ssFMat_linf_sh mp_ssFMat_lp_sh env prm ids_r recv_pts ids_r send_pts ids_s = Inr (msgs, found)"
    "length msgs = oe_num_bins env" and
    P: "\<forall>idx. (\<exists>j < oe_num_bins env. \<exists>k. oe_bins env ! j = Some (idx, k) \<and> ?M idx) \<longrightarrow> ids_s ! idx \<in> set msgs"
    "card {idx. \<exists>j < oe_num_bins env. \<exists>k. oe_bins env ! j = Some (idx, k) \<and> ?M idx} \<le> length found"
    using on e(2) mem by blast
  have pl: "\<exists>j < oe_num_bins env. \<exists>k. oe_bins env ! j = Some (idx, k)" if "idx < length ids_s" for idx
    using placed [OF assms(10) [unfolded sd_def] that] unfolding f .
  have "{idx. \<exists>j < oe_num_bins env. \<exists>k. oe_bins env ! j = Some (idx, k) \<and> ?M idx} = {idx. idx < length ids_s \<and> ?M idx}"
    using pl in_bins [OF assms(10)] unfolding f by blast
  then show ?thesis using r P pl unfolding psi_online_sh_def by auto
qed

text \<open>C33. The grid protocol for sums of powers, where the tables are built on the hashes of the
  identifiers: the run succeeds and the receiver is sent the identifier of every sender's point with
  the identifier of a receiver's point within the radius, in a bin whose masks are large enough, and
  its lookup finds at least as many messages.\<close>
theorem psi_online_cmp_complete:
  fixes env loc recv_pts ids_r send_pts ids_s
  defines "rd \<equiv> online_rd loc env (map (id_key (oe_blake3 env)) ids_r) recv_pts ids_r" and "sd \<equiv> online_sd env send_pts ids_s"
    and "lenv \<equiv> (oe_lp env)\<lparr>le_blake3 := oe_blake3 env\<rparr>" and "loc' \<equiv> loc \<circ> id_key (oe_blake3 env)"
  assumes "tables_ok loc env (map (id_key (oe_blake3 env)) ids_r)" "transfers_ok env"
    and "1 \<le> METRIC prm" "METRIC prm \<le> 3" "DIM prm \<le> 2 ^ 31"
    and "unat (DELTA prm) ^ METRIC prm < 2 ^ 32" "thr = of_nat (unat (DELTA prm) ^ METRIC prm)"
    and "getSelectedParam lp_table (DELTA prm + 1) = Inr (u0, b0)" "getSelectedParam lp_table (DELTA prm) = Inr (u1, b1)"
      "getSelectedParam if_match_table (thr + 1) = Inr (u, b)"
    and "recv_ok loc' 1 prm rd" "send_ok loc' prm rd sd"
    and "\<And>bin d. bin < oe_num_bins env \<Longrightarrow> d < DIM prm \<Longrightarrow>
      vole_ok (METRIC prm) (le_a_vole lenv) (le_c_vole lenv) (le_d_vole lenv) (le_delta lenv) (vole_idx prm bin d)"
    and "lp_sessions_ok (\<lambda>i. [i]) 1 (card u1 * 2) lenv prm (u0, b0) (u1, b1) rd sd (oe_a_lp env)"
    and "length (oe_a_if env) = oe_num_bins env" "length (oe_t_if env) = oe_num_bins env"
    and "\<And>v_hat. lp_shares (\<lambda>i. [i]) 1 (card u1 * 2) (\<lambda>e. e) lenv prm (u0, b0) (u1, b1) rd sd (oe_a_lp env) (oe_masks env) = Inr v_hat \<Longrightarrow>
      if_sessions_ok ((le_if lenv)\<lparr>if_blake3 := le_blake3 lenv\<rparr>) (u, b) thr
        (lp_v_sums (DIM prm) (oe_num_bins env) v_hat) (lp_u_sums (DIM prm) (oe_num_bins env) (oe_masks env)) (oe_a_if env)"
    and "if_peqt_ok (le_if lenv) (oe_num_bins env)"
  shows "\<exists>msgs found. psi_online_cmp env prm recv_pts ids_r send_pts ids_s = Inr (msgs, found) \<and>
    length msgs = oe_num_bins env \<and>
    (\<forall>idx. (\<exists>j < oe_num_bins env. \<exists>k. oe_bins env ! j = Some (idx, k) \<and> lp_match 1 prm rd sd (oe_masks env) j idx) \<longrightarrow>
       ids_s ! idx \<in> set msgs) \<and>
    card {idx. \<exists>j < oe_num_bins env. \<exists>k. oe_bins env ! j = Some (idx, k) \<and> lp_match 1 prm rd sd (oe_masks env) j idx} \<le> length found"
proof -
  have f: "rd_bins_num rd = oe_num_bins env" "rd_ids rd = ids_r" "rd_pts rd = recv_pts" "sd_ids sd = ids_s" "sd_bins sd = oe_bins env"
    by (simp_all add: rd_def sd_def online_rd_def online_sd_def)
  have w: "card u1 * 2 = card u0 + card u1" using lp_row_sizes [OF assms(12,13)] by simp
  obtain eR eS where e: "mp_ssFMat_lp lenv prm rd sd (oe_a_lp env) (oe_masks env) (oe_a_if env) (oe_t_if env) = Inr (eR, eS)"
    "\<And>j idx k. j < oe_num_bins env \<Longrightarrow> oe_bins env ! j = Some (idx, k) \<Longrightarrow> lp_match 1 prm rd sd (oe_masks env) j idx \<Longrightarrow>
       eR ! j \<noteq> eS ! j"
  proof -
    have "\<exists>eR eS. lp_fmat (\<lambda>i. [i]) 1 (\<lambda>u0 u1. card u1 * 2) (\<lambda>e. e) lenv prm rd sd (oe_a_lp env) (oe_masks env) (oe_a_if env) (oe_t_if env) = Inr (eR, eS) \<and>
        length eR = rd_bins_num rd \<and> length eS = rd_bins_num rd \<and>
        (\<forall>j < rd_bins_num rd. \<forall>idx k. sd_bins sd ! j = Some (idx, k) \<and> lp_match 1 prm rd sd (oe_masks env) j idx \<longrightarrow> eR ! j \<noteq> eS ! j)"
      by (rule lp_fmat_ok [where width = "\<lambda>u0 u1. card u1 * 2" and narrow = "\<lambda>e. e" and id_idxs = "\<lambda>i. [i]",
        OF assms(7-14) w assms(15,16) _ refl assms(17) [folded f(1)] assms(18)])
        (use assms(19-22) f(1) in \<open>simp_all del: One_nat_def\<close>, simp)
    then show ?thesis using that unfolding mp_ssFMat_lp_def f by blast
  qed
  let ?M = "\<lambda>j idx. lp_match 1 prm rd sd (oe_masks env) j idx"
  have mem: "ids_s ! idx \<in> set ids_r" if "?M j idx" for j idx
    using that assms(15) unfolding lp_match_def recv_ok_def f by (metis match_index nth_mem)
  have "(if METRIC prm = 0 then mp_ssFMat_linf ((oe_linf env)\<lparr>fe_blake3 := oe_blake3 env\<rparr>) prm rd sd (oe_a_linf env) (oe_r_linf env)
      else mp_ssFMat_lp lenv prm rd sd (oe_a_lp env) (oe_masks env) (oe_a_if env) (oe_t_if env)) = Inr (eR, eS)"
    using e(1) assms(7) by simp
  note on = psi_online_ok [where M = ?M and linf = mp_ssFMat_linf and lp = mp_ssFMat_lp and env = env and loc = loc and
      loc' = loc' and keys = "map (id_key (oe_blake3 env)) ids_r" and recv_pts = recv_pts and recv_ids = ids_r and
      send_pts = send_pts and send_ids = ids_s, OF assms(5,6) assms(16) [unfolded rd_def sd_def] this [unfolded rd_def sd_def lenv_def]]
  show ?thesis unfolding psi_online_cmp_def
    using on e(2) mem by blast
qed

end
