(* ===== verification/Online_Demo.thy ===== *)
theory Online_Demo
  imports Fpsi_Online Linf_Demo Lp_Demo
begin

text \<open>
  Runs of both online protocols with one point on each side, which show that the
  hypotheses of their properties can hold.
\<close>

definition onl_env :: "(u8 list \<Rightarrow> block) \<Rightarrow> online_env" where
  "onl_env blake3 = \<lparr>oe_blake3 = blake3, oe_locations = (\<lambda>_. map (\<lambda>_. [0, 0, 0])), oe_num_bins = 1, oe_bin_size = 3,
     oe_bins = [Some (0, 0)], oe_linf = demo_env, oe_a_linf = [of_nat 1000000], oe_r_linf = [5],
     oe_lp = lpd_env, oe_a_lp = [1000000, 7], oe_masks = [1000], oe_a_if = [of_nat 1000000], oe_t_if = [77],
     oe_ot_send = [(1, 2)], oe_ot_recv = (\<lambda>ee. [if ee ! 0 then 2 else 1]), oe_rnd = [(3, 4)]\<rparr>"

lemma onl_setup: "length keys = 1 \<Longrightarrow> tables_ok (\<lambda>_. [0, 0, 0]) (onl_env b) keys" "transfers_ok (onl_env b)"
proof -
  assume l: "length keys = 1"
  have "bin_load (\<lambda>_. [0, 0, 0]) keys 3 0 \<le> card ({..<1 :: nat} \<times> {..<3 :: nat})"
    unfolding bin_load_def using l by (intro card_mono) auto
  then show "tables_ok (\<lambda>_. [0, 0, 0]) (onl_env b) keys"
    by (simp add: tables_ok_def onl_env_def) (auto simp: less_Suc_eq numeral_3_eq_3)
next
  show "transfers_ok (onl_env b)" by (simp add: transfers_ok_def onl_env_def rot_ok_def)
qed

lemma onl_fields:
  "oe_blake3 (onl_env b) = b" "oe_num_bins (onl_env b) = 1" "oe_bins (onl_env b) = [Some (0, 0)]"
  "oe_a_linf (onl_env b) = [of_nat 1000000]" "oe_r_linf (onl_env b) = [5]"
  "oe_a_lp (onl_env b) = [1000000, 7]" "oe_masks (onl_env b) = [1000]" "oe_a_if (onl_env b) = [of_nat 1000000]"
  "oe_t_if (onl_env b) = [77]"
  by (simp_all add: onl_env_def)

lemma onl_tables:
  "online_rd (\<lambda>_. [0, 0, 0]) (onl_env b) [7] [[100]] [7] = demo_rd"
  "online_sd (onl_env b) [[105]] [7] = demo_sd"
  "online_rd (\<lambda>_. [0, 0, 0]) (onl_env b) (map (id_key b') [7]) [[100]] [7] = lpd_rd"
  "online_sd (onl_env b) [[105]] [7] = lpd_sd"
  by (simp_all add: online_rd_def online_sd_def onl_env_def demo_rd_def demo_sd_def lpd_rd_def lpd_sd_def)

lemma onl_envs:
  "(oe_linf (onl_env (list_hash demo_L)))\<lparr>fe_blake3 := list_hash demo_L\<rparr> = demo_env"
  "(oe_lp (onl_env (list_hash lpd_L)))\<lparr>le_blake3 := list_hash lpd_L\<rparr> = lpd_env"
  by (simp_all add: onl_env_def demo_env_def lpd_env_def)

text \<open>The sender's point 105 is within the radius 10 of the receiver's 100, and its identifier is delivered.\<close>
theorem psi_online_sh_complete_witness:
  "\<exists>msgs found. psi_online_sh (onl_env (list_hash demo_L)) demo_prm [[100]] [7] [[105]] [7] = Inr (msgs, found) \<and>
    7 \<in> set msgs \<and> 1 \<le> length found"
proof -
  have m: "{idx. idx < length [7 :: block] \<and> linf_match 1 demo_prm demo_rd demo_sd idx} = {0}"
    using linf_demo_ok(7) by auto
  have p: "METRIC demo_prm = 0" by (simp add: demo_prm_def)
  have l: "length [of_nat 1000000 :: block] = 1 * DIM demo_prm" "length [5 :: block] = 1 * DIM demo_prm" "length [7 :: block] = 1"
    by (simp_all add: demo_fields)
  note c = psi_online_sh_complete [where env = "onl_env (list_hash demo_L)" and loc = "\<lambda>_. [0, 0, 0]" and recv_pts = "[[100]]"
      and ids_r = "[7]" and send_pts = "[[105]]" and ids_s = "[7]", unfolded onl_fields onl_tables onl_envs,
      OF p onl_setup(1) [OF l(3)] onl_setup(2) linf_demo_ok(1,2,3,5) l(1,2) demo_lists_ok(1) [unfolded demo_fields(4)]
        linf_demo_ok(6) [unfolded demo_fields(6)], unfolded demo_fields(3) m]
  then obtain msgs found where
    "psi_online_sh (onl_env (list_hash demo_L)) demo_prm [[100]] [7] [[105]] [7] = Inr (msgs, found)"
    "\<forall>idx < length [7 :: block]. linf_match 1 demo_prm demo_rd demo_sd idx \<longrightarrow> [7] ! idx \<in> set msgs"
    "card {0 :: nat} \<le> length found" by blast
  then show ?thesis using linf_demo_ok(7) by simp
qed

text \<open>The squared distance of the points is 25, below 100, and the identifier is delivered.\<close>
theorem psi_online_cmp_complete_witness:
  "\<exists>msgs found. psi_online_cmp (onl_env (list_hash lpd_L)) lpd_prm [[100]] [7] [[105]] [7] = Inr (msgs, found) \<and> 7 \<in> set msgs"
proof -
  let ?b = "list_hash lpd_L"
  have loc: "(\<lambda>_. [0, 0, 0]) \<circ> id_key ?b = (\<lambda>_. [0, 0, 0])" by (rule ext) simp
  have l: "length (map (id_key ?b) [7]) = 1" by simp
  have ses: "lp_sessions_ok (\<lambda>i. [i]) 1 (card {0, 1 :: nat} * 2) lpd_env lpd_prm ({0, 2}, 5) ({0, 1}, 6) lpd_rd lpd_sd [1000000, 7]"
    unfolding lpd_cards by (rule lpd_sessions_ok) simp
  have ifs: "if_sessions_ok ((le_if lpd_env)\<lparr>if_blake3 := le_blake3 lpd_env\<rparr>) ({0, 2, 4, 6}, 14) 100
      (lp_v_sums (DIM lpd_prm) 1 v_hat) (lp_u_sums (DIM lpd_prm) 1 [1000]) [of_nat 1000000]"
    if "lp_shares (\<lambda>i. [i]) 1 (card {0, 1 :: nat} * 2) (\<lambda>e. e) lpd_env lpd_prm ({0, 2}, 5) ({0, 1}, 6)
      lpd_rd lpd_sd [1000000, 7] [1000] = Inr v_hat" for v_hat
    by (rule lpd_if [where id_idxs = "\<lambda>i. [i]" and narrow = "\<lambda>e. e", OF that [unfolded lpd_cards], unfolded lpd_fields(7)]) simp_all
  note v = lpd_vole [unfolded lpd_fields(7)]
  have n: "length [of_nat 1000000 :: block] = 1" "length [77 :: u64] = 1" by simp_all
  note c = psi_online_cmp_complete [where env = "onl_env ?b" and loc = "\<lambda>_. [0, 0, 0]" and recv_pts = "[[100]]"
      and ids_r = "[7]" and send_pts = "[[105]]" and ids_s = "[7]", unfolded onl_fields onl_tables(3,4) onl_envs loc,
      OF onl_setup(1) [OF l] onl_setup(2) lpd_ok(1-5) lpd_params lpd_ok(7,8)]
  have "\<exists>msgs found. psi_online_cmp (onl_env ?b) lpd_prm [[100]] [7] [[105]] [7] = Inr (msgs, found) \<and>
      length msgs = oe_num_bins (onl_env ?b) \<and>
      (\<forall>idx. (\<exists>j < oe_num_bins (onl_env ?b). \<exists>k. oe_bins (onl_env ?b) ! j = Some (idx, k) \<and>
          lp_match 1 lpd_prm lpd_rd lpd_sd (oe_masks (onl_env ?b)) j idx) \<longrightarrow> [7] ! idx \<in> set msgs) \<and>
      card {idx. \<exists>j < oe_num_bins (onl_env ?b). \<exists>k. oe_bins (onl_env ?b) ! j = Some (idx, k) \<and>
          lp_match 1 lpd_prm lpd_rd lpd_sd (oe_masks (onl_env ?b)) j idx} \<le> length found"
    unfolding onl_fields
    by (rule c) (assumption | rule v ses n ifs lpd_ok(9) [unfolded lpd_fields(7)])+
  then obtain msgs found where r: "psi_online_cmp (onl_env ?b) lpd_prm [[100]] [7] [[105]] [7] = Inr (msgs, found)"
    "\<forall>idx. (\<exists>j < 1. \<exists>k. [Some (0 :: nat, 0 :: nat)] ! j = Some (idx, k) \<and> lp_match 1 lpd_prm lpd_rd lpd_sd [1000] j idx) \<longrightarrow> [7 :: block] ! idx \<in> set msgs"
    unfolding onl_fields by blast
  have "\<exists>j < 1. \<exists>k. [Some (0 :: nat, 0 :: nat)] ! j = Some (0, k) \<and> lp_match 1 lpd_prm lpd_rd lpd_sd [1000] j 0"
    using lpd_ok(11) by (intro exI [of _ 0]) simp
  then have "[7 :: block] ! 0 \<in> set msgs" using r(2) by blast
  then show ?thesis using r(1) by simp
qed

end
