(* ===== verification/Fmap_Id.thy ===== *)
theory Fmap_Id
  imports Prelude "HOL-Library.AList"
begin

text \<open>
  fpsi/cmp_fmap/fmap.cpp: the cells and blocks of a coordinate, and \<open>getID\<close>, which
  labels the blocks around the cells of a party's points with random elements.
  The hash map of the labels is an association list; the order in which the code
  walks it is an argument, and so is the random element a point would draw.
\<close>

section \<open>Blocks of two 64-bit lanes\<close>

definition mk_block :: "u64 \<Rightarrow> u64 \<Rightarrow> block" where
  "mk_block hi lo = push_bit 64 (ucast hi) OR ucast lo"

definition low64 :: "block \<Rightarrow> u64" where
  "low64 b = ucast b"

definition high64 :: "block \<Rightarrow> u64" where
  "high64 b = ucast (drop_bit 64 b)"

definition add_epi64 :: "block \<Rightarrow> block \<Rightarrow> block" where
  "add_epi64 a b = mk_block (high64 a + high64 b) (low64 a + low64 b)"

definition sub_epi64 :: "block \<Rightarrow> block \<Rightarrow> block" where
  "sub_epi64 a b = mk_block (high64 a - high64 b) (low64 a - low64 b)"

definition OneBlock :: block where
  "OneBlock = mk_block 0 1"

section \<open>Cells\<close>

definition computeBlock :: "block \<Rightarrow> u64 \<Rightarrow> block" where
  "computeBlock input mDelta =
     (let delta_val = ucast mDelta
      in if 2 * delta_val = 0 then 0
         else if input \<ge> delta_val then (input - delta_val) div (2 * delta_val) else 0)"

definition computeCell :: "block \<Rightarrow> u64 \<Rightarrow> block" where
  "computeCell input mDelta =
     (let delta_val = ucast mDelta in if 2 * delta_val = 0 then 0 else input div (2 * delta_val))"

definition leftEndPoint :: "block \<Rightarrow> u64 \<Rightarrow> block" where
  "leftEndPoint input mDelta =
     (let delta_val = ucast mDelta in if 2 * delta_val = 0 then 0 else input * (2 * delta_val))"

definition blockSub :: "block \<Rightarrow> block \<Rightarrow> block" where
  "blockSub input0 input1 = input0 - input1"

section \<open>Labels of the blocks\<close>

type_synonym labels = "(block \<times> block) list"

text \<open>\<open>emplace\<close> and \<open>insert\<close> keep an element that is there.\<close>
definition emplace :: "block \<Rightarrow> block \<Rightarrow> labels \<Rightarrow> labels" where
  "emplace k v m = (case map_of m k of Some _ \<Rightarrow> m | None \<Rightarrow> m @ [(k, v)])"

text \<open>The loop that gives the blocks from \<open>tmp\<close> on the label \<open>random\<close>.\<close>
function relabel :: "block \<Rightarrow> block \<Rightarrow> labels \<Rightarrow> labels" where
  "relabel random tmp m =
     (case map_of m tmp of
        None \<Rightarrow> m
      | Some v \<Rightarrow> if v \<noteq> random then relabel random (add_epi64 tmp OneBlock) (AList.update tmp random m) else m)"
  by pat_completeness auto

lemma update_filter_less:
  "map_of m k = Some v \<Longrightarrow> v \<noteq> r \<Longrightarrow>
   length (filter (\<lambda>x. snd x \<noteq> r) (AList.update k r m)) < length (filter (\<lambda>x. snd x \<noteq> r) m)"
  by (induction m) auto

termination relabel
  by (relation "measure (\<lambda>(r, _, m). length (filter (\<lambda>x. snd x \<noteq> r) m))") (auto dest: update_filter_less)

declare relabel.simps [simp del]

text \<open>\<open>block0\<close>: the block before the cell, or the cell 0.\<close>
definition prev_block :: "block \<Rightarrow> block" where
  "prev_block block1 = (if block1 \<noteq> 0 then sub_epi64 block1 OneBlock else 0)"

text \<open>One point of a dimension: the new labels and the label of the point.\<close>
definition id_step :: "u64 \<Rightarrow> block \<Rightarrow> block \<Rightarrow> labels \<Rightarrow> labels \<times> block" where
  "id_step mDelta rnd input blocks_check =
     (let block1 = computeCell input mDelta; block0 = prev_block block1
      in case map_of blocks_check block0 of
           Some r0 \<Rightarrow>
             (case map_of blocks_check block1 of
                Some _ \<Rightarrow> (relabel r0 block1 blocks_check, r0)
              | None \<Rightarrow> (emplace block1 r0 blocks_check, r0))
         | None \<Rightarrow>
             (case map_of blocks_check block1 of
                Some r1 \<Rightarrow> (emplace block0 r1 blocks_check, r1)
              | None \<Rightarrow> (emplace block1 rnd (emplace block0 rnd blocks_check), rnd)))"

text \<open>The points of a dimension in order; \<open>rnd j\<close> is what point \<open>j\<close> draws.\<close>
fun id_loop :: "u64 \<Rightarrow> (nat \<Rightarrow> block) \<Rightarrow> nat \<Rightarrow> block list \<Rightarrow> labels \<Rightarrow> labels \<times> block list" where
  "id_loop mDelta rnd j [] m = (m, [])"
| "id_loop mDelta rnd j (x # xs) m =
     (let (m, r) = id_step mDelta (rnd j) x m; (m, rs) = id_loop mDelta rnd (Suc j) xs m in (m, r # rs))"

text \<open>
  \<open>oringins\<close>: walk down the labelled blocks from the cell; the origin is the left
  end of the last one.
\<close>
partial_function (option) origin_loop :: "labels \<Rightarrow> block \<Rightarrow> block option" where
  "origin_loop m tmp =
     (if map_of m tmp = None then Some tmp
      else if tmp = 0 then Some (sub_epi64 tmp OneBlock)
      else origin_loop m (sub_epi64 tmp OneBlock))"

definition origin_of :: "labels \<Rightarrow> u64 \<Rightarrow> block \<Rightarrow> block option" where
  "origin_of m mDelta input =
     map_option (\<lambda>tmp. leftEndPoint (add_epi64 tmp OneBlock) mDelta) (origin_loop m (computeCell input mDelta))"

section \<open>All dimensions\<close>

text \<open>Dimension \<open>i\<close> of the inputs: \<open>inputs[j * mDim + i]\<close>.\<close>
definition column :: "nat \<Rightarrow> nat \<Rightarrow> nat \<Rightarrow> block list \<Rightarrow> block list" where
  "column n mDim i inputs = map (\<lambda>j. inputs ! (j * mDim + i)) [0..<n]"

definition dim_labels :: "u64 \<Rightarrow> (nat \<Rightarrow> nat \<Rightarrow> block) \<Rightarrow> nat \<Rightarrow> nat \<Rightarrow> block list \<Rightarrow> nat \<Rightarrow> labels \<times> block list" where
  "dim_labels mDelta rnd n mDim inputs i = id_loop mDelta (rnd i) 0 (column n mDim i inputs) []"

text \<open>The key-value pairs of a dimension, in the order \<open>iter\<close> of the hash map.\<close>
definition fill_pairs :: "(block \<Rightarrow> block) \<Rightarrow> (nat \<Rightarrow> labels \<Rightarrow> labels) \<Rightarrow> nat \<Rightarrow> labels \<Rightarrow> (block \<times> block) list" where
  "fill_pairs prf iter i m =
     map (\<lambda>kv. let key = mk_block (of_nat i) 0 XOR fst kv in (key, snd kv XOR prf key)) (iter i m)"

record id_result =
  mIdentifiers :: "block list"
  blocksContainInputs :: "block list"
  mAssignments :: "block list"
  oringins :: "block option list"

text \<open>
  \<open>getID\<close> of both parties; only the sender computes the origins.  The two output
  arrays have \<open>2 * n * mDim\<close> random elements at the start.
\<close>
definition getID ::
  "(block \<Rightarrow> block) \<Rightarrow> (nat \<Rightarrow> labels \<Rightarrow> labels) \<Rightarrow> (nat \<Rightarrow> nat \<Rightarrow> block) \<Rightarrow> (nat \<Rightarrow> block) \<Rightarrow> (nat \<Rightarrow> block) \<Rightarrow>
   u64 \<Rightarrow> nat \<Rightarrow> nat \<Rightarrow> block list \<Rightarrow> id_result" where
  "getID prf iter rnd pad_keys pad_vals mDelta n mDim inputs =
     (let dims = map (dim_labels mDelta rnd n mDim inputs) [0..<mDim];
          pairs = concat (map (\<lambda>i. fill_pairs prf iter i (fst (dims ! i))) [0..<mDim])
      in \<lparr>mIdentifiers = map (\<lambda>j. fold (\<lambda>i s. s XOR snd (dims ! i) ! j) [0..<mDim] 0) [0..<n],
          blocksContainInputs = map fst pairs @ map pad_keys [length pairs..<2 * n * mDim],
          mAssignments = map snd pairs @ map pad_vals [length pairs..<2 * n * mDim],
          oringins = map (\<lambda>x. origin_of (fst (dims ! (x mod mDim))) mDelta (inputs ! x)) [0..<n * mDim]\<rparr>)"

section \<open>Arithmetic of the lanes and cells\<close>

lemma mk_block_low: "mk_block 0 lo = ucast lo"
  by (simp add: mk_block_def)

lemma lanes_of_nat:
  assumes "n < 2 ^ 64"
  shows "low64 (of_nat n) = of_nat n" "high64 (of_nat n) = 0" "mk_block 0 (of_nat n) = of_nat n"
proof -
  have u: "unat (of_nat n :: block) = n" using assms by (simp add: unat_of_nat)
  show "low64 (of_nat n) = of_nat n" unfolding low64_def by (rule bit_word_eqI) (auto simp: bit_simps)
  have "unat (drop_bit 64 (of_nat n :: block)) = 0" using assms by (simp only: unat_drop_bit_div u) simp
  then have "drop_bit 64 (of_nat n :: block) = 0" by (simp only: unat_eq_zero)
  then show "high64 (of_nat n) = 0" by (simp add: high64_def)
  have "unat (of_nat n :: u64) = n" using assms by (simp add: unat_of_nat)
  then have "unat (ucast (of_nat n :: u64) :: block) = n"
    using assms by (simp add: unsigned_ucast_eq take_bit_nat_eq_self)
  then show "mk_block 0 (of_nat n) = of_nat n" unfolding mk_block_low by (metis of_nat_unat ucast_id)
qed

lemma OneBlock_eq: "OneBlock = 1"
  by (simp add: OneBlock_def mk_block_low)

lemma low64_1: "low64 1 = 1" "high64 1 = 0"
  using lanes_of_nat [of 1] by simp_all

lemma sub_epi64_one: "0 < n \<Longrightarrow> n < 2 ^ 64 \<Longrightarrow> sub_epi64 (of_nat n) OneBlock = of_nat (n - 1)"
  using lanes_of_nat(3) [of "n - 1"] by (simp add: sub_epi64_def OneBlock_eq lanes_of_nat low64_1 of_nat_diff)

lemma add_epi64_one: "Suc n < 2 ^ 64 \<Longrightarrow> add_epi64 (of_nat n) OneBlock = of_nat (Suc n)"
  using lanes_of_nat(3) [of "Suc n"] by (simp add: add_epi64_def OneBlock_eq lanes_of_nat low64_1 add.commute)

lemma of_nat_block_inject: "m < 2 ^ 64 \<Longrightarrow> n < 2 ^ 64 \<Longrightarrow> (of_nat m :: block) = of_nat n \<longleftrightarrow> m = n"
proof -
  assume "m < 2 ^ 64" "n < 2 ^ 64"
  then have "unat (of_nat m :: block) = m" "unat (of_nat n :: block) = n" by (simp_all add: unat_of_nat)
  then show ?thesis by metis
qed

lemma prev_block_nat: "n < 2 ^ 64 \<Longrightarrow> prev_block (of_nat n) = of_nat (n - 1)"
  using sub_epi64_one [of n] of_nat_block_inject [of n 0] by (cases "n = 0") (auto simp: prev_block_def)

lemma width:
  fixes delta :: u64
  assumes "0 < unat delta"
  shows "unat (2 * ucast delta :: block) = 2 * unat delta" "2 * ucast delta \<noteq> (0 :: block)" "unat (ucast delta :: block) = unat delta"
proof -
  have d: "unat delta < 2 ^ 64" by (rule u64_bound)
  show u: "unat (ucast delta :: block) = unat delta" using d by (simp add: unsigned_ucast_eq take_bit_nat_eq_self)
  show w: "unat (2 * ucast delta :: block) = 2 * unat delta" using d u by (simp add: unat_word_ariths)
  then show "2 * ucast delta \<noteq> (0 :: block)" using assms by auto
qed

lemma block_eq_unat: "unat b = n \<Longrightarrow> b = of_nat n" for b :: block
  by (metis of_nat_unat ucast_id)

lemma computeCell_nat: "0 < unat delta \<Longrightarrow> computeCell x delta = of_nat (unat x div (2 * unat delta))"
  by (rule block_eq_unat) (simp add: computeCell_def Let_def width unat_div)

lemma computeBlock_nat: "0 < unat delta \<Longrightarrow> computeBlock x delta = of_nat ((unat x - unat delta) div (2 * unat delta))"
  by (rule block_eq_unat)
    (simp add: computeBlock_def Let_def width unat_div unat_sub_le word_le_nat_alt)

lemma near_cells:
  fixes x y d :: nat
  assumes "x \<le> y + d" "y \<le> x + d" "0 < d"
  shows "(x - d) div (2 * d) = y div (2 * d) \<or> (x - d) div (2 * d) = y div (2 * d) - 1"
proof -
  have le: "(x - d) div (2 * d) \<le> y div (2 * d)" using assms(1) by (intro div_le_mono) simp
  have "y div (2 * d) \<le> (x - d + 2 * d) div (2 * d)" using assms(2) by (intro div_le_mono) simp
  also have "\<dots> = (x - d) div (2 * d) + 1" using assms(3) div_add_self2 [of "2 * d" "x - d"] by simp
  finally show ?thesis using le by linarith
qed

lemma div_u64: "n < 2 ^ 64 \<Longrightarrow> n div d < (2 :: nat) ^ 64"
  by (rule le_less_trans [OF div_le_dividend])

text \<open>The block of a value near a point is the cell of the point or the block before.\<close>
lemma near_block:
  assumes d: "0 < unat delta" and y: "unat y < 2 ^ 64" and near: "unat x \<le> unat y + unat delta" "unat y \<le> unat x + unat delta"
  shows "computeBlock x delta = computeCell y delta \<or> computeBlock x delta = prev_block (computeCell y delta)"
  using near_cells [OF near d] div_u64 [OF y, of "2 * unat delta"] d
  by (auto simp: computeBlock_nat computeCell_nat prev_block_nat)

section \<open>What the labels are\<close>

lemma keys_update: "map_of m k = Some v \<Longrightarrow> map fst (AList.update k w m) = map fst m"
  by (induction m) auto

lemma keys_relabel: "map fst (relabel r t m) = map fst m"
proof (induction r t m rule: relabel.induct)
  case (1 r t m)
  then show ?case by (subst relabel.simps) (auto simp: keys_update split: option.split)
qed

lemma relabel_same: "map_of m t = Some r \<Longrightarrow> relabel r t m = m"
  by (subst relabel.simps) simp

lemma map_of_emplace: "map_of (emplace k v m) x = (if x = k \<and> map_of m k = None then Some v else map_of m x)"
  by (auto simp: emplace_def map_add_def split: option.splits)

lemma keys_emplace: "set (map fst (emplace k v m)) = insert k (set (map fst m))" "length (emplace k v m) \<le> Suc (length m)"
  by (auto simp: emplace_def split: option.splits) (metis map_of_SomeD rev_image_eqI fst_conv)

lemma distinct_emplace: "distinct (map fst m) \<Longrightarrow> distinct (map fst (emplace k v m))"
  by (auto simp: emplace_def map_of_eq_None_iff split: option.splits)

text \<open>No point finds its cell and the block before under different labels.\<close>
fun no_bridge :: "u64 \<Rightarrow> (nat \<Rightarrow> block) \<Rightarrow> nat \<Rightarrow> block list \<Rightarrow> labels \<Rightarrow> bool" where
  "no_bridge mDelta rnd j [] m \<longleftrightarrow> True"
| "no_bridge mDelta rnd j (x # xs) m \<longleftrightarrow>
     (case (map_of m (prev_block (computeCell x mDelta)), map_of m (computeCell x mDelta)) of
        (Some r0, Some r1) \<Rightarrow> r0 = r1 | _ \<Rightarrow> True) \<and>
     no_bridge mDelta rnd (Suc j) xs (fst (id_step mDelta (rnd j) x m))"

lemma id_step_ok:
  fixes x mDelta
  defines "c \<equiv> computeCell x mDelta"
  assumes "case (map_of m (prev_block c), map_of m c) of (Some r0, Some r1) \<Rightarrow> r0 = r1 | _ \<Rightarrow> True"
    and "id_step mDelta rnd x m = (m', r)"
  shows "map_of m \<subseteq>\<^sub>m map_of m'" "map_of m' c = Some r" "map_of m' (prev_block c) = Some r"
  using assms
  by (auto simp: id_step_def Let_def map_le_def map_of_emplace relabel_same dom_def split: option.splits if_splits)

lemma id_step_keys:
  assumes "id_step mDelta rnd x m = (m', r)"
  shows "length m' \<le> length m + 2" "distinct (map fst m) \<Longrightarrow> distinct (map fst m')"
    "set (map fst m') = insert (computeCell x mDelta) (insert (prev_block (computeCell x mDelta)) (set (map fst m)))"
proof -
  let ?c = "computeCell x mDelta" and ?k = "set (map fst m)"
  have k: "map_of m b = Some v \<Longrightarrow> b \<in> ?k" for b v by (metis domI dom_map_of_conv_image_fst set_map)
  have m': "m' = relabel r ?c m \<and> ?c \<in> ?k \<and> prev_block ?c \<in> ?k \<or> m' = emplace ?c r m \<and> prev_block ?c \<in> ?k \<or>
      m' = emplace (prev_block ?c) r m \<and> ?c \<in> ?k \<or> m' = emplace ?c r (emplace (prev_block ?c) r m)"
    using assms k by (auto simp: id_step_def Let_def simp del: set_map split: option.splits)
  moreover have "length (relabel r ?c m) = length m" using keys_relabel [of r ?c m] by (metis length_map)
  moreover have "length (emplace k r m) \<le> length m + 1" "length (emplace k r (emplace l r m)) \<le> length m + 2" for k l
    using keys_emplace(2) [of k r m] keys_emplace(2) [of k r "emplace l r m"] keys_emplace(2) [of l r m] by linarith+
  ultimately show "length m' \<le> length m + 2" "distinct (map fst m) \<Longrightarrow> distinct (map fst m')"
    "set (map fst m') = insert ?c (insert (prev_block ?c) ?k)"
    using m' by (auto simp only: keys_relabel keys_emplace(1) intro!: distinct_emplace) (auto intro: le_trans simp: le_SucI)
qed

text \<open>The labels of a dimension, and what they are at the cells of the points.\<close>
lemma id_loop_ok:
  assumes "no_bridge mDelta rnd j xs m" "id_loop mDelta rnd j xs m = (m', rs)"
  shows "map_of m \<subseteq>\<^sub>m map_of m' \<and> length rs = length xs \<and>
    (\<forall>k < length xs. map_of m' (computeCell (xs ! k) mDelta) = Some (rs ! k) \<and>
       map_of m' (prev_block (computeCell (xs ! k) mDelta)) = Some (rs ! k))"
  using assms
proof (induction xs arbitrary: j m rs)
  case (Cons x xs)
  obtain m1 r where st: "id_step mDelta (rnd j) x m = (m1, r)" by (cases "id_step mDelta (rnd j) x m")
  obtain rs' where run: "id_loop mDelta rnd (Suc j) xs m1 = (m', rs')" and rs: "rs = r # rs'"
    using Cons.prems(2) st by (auto simp: Let_def split: prod.splits)
  note head = id_step_ok [OF _ st]
  have bridge: "case (map_of m (prev_block (computeCell x mDelta)), map_of m (computeCell x mDelta)) of
      (Some r0, Some r1) \<Rightarrow> r0 = r1 | _ \<Rightarrow> True" "no_bridge mDelta rnd (Suc j) xs m1"
    using Cons.prems(1) st by simp_all
  note IH = Cons.IH [OF bridge(2) run]
  have mono: "map_of m1 \<subseteq>\<^sub>m map_of m'" using IH by simp
  have "map_of m \<subseteq>\<^sub>m map_of m'" using head(1) [OF bridge(1)] mono by (rule map_le_trans)
  moreover have "map_of m' b = Some r" if "map_of m1 b = Some r" for b
    using mono that by (auto simp: map_le_def dom_def)
  then have "map_of m' (computeCell x mDelta) = Some r" "map_of m' (prev_block (computeCell x mDelta)) = Some r"
    using head(2,3) [OF bridge(1)] by simp_all
  ultimately show ?case using IH rs by (auto simp: nth_Cons')
qed simp

lemma id_loop_keys:
  assumes "id_loop mDelta rnd j xs m = (m', rs)" "distinct (map fst m)"
  shows "length m' \<le> length m + 2 * length xs \<and> distinct (map fst m') \<and> length rs = length xs \<and>
    set (map fst m') = set (map fst m) \<union> (\<Union>x \<in> set xs. {computeCell x mDelta, prev_block (computeCell x mDelta)})"
  using assms
proof (induction xs arbitrary: j m rs)
  case (Cons x xs)
  obtain m1 r where st: "id_step mDelta (rnd j) x m = (m1, r)" by (cases "id_step mDelta (rnd j) x m")
  obtain rs' where run: "id_loop mDelta rnd (Suc j) xs m1 = (m', rs')" and rs: "rs = r # rs'"
    using Cons.prems(1) st by (auto simp: Let_def split: prod.splits)
  have h: "length m1 \<le> length m + 2" "distinct (map fst m1)"
    "set (map fst m1) = insert (computeCell x mDelta) (insert (prev_block (computeCell x mDelta)) (set (map fst m)))"
    using id_step_keys [OF st] Cons.prems(2) by simp_all
  note IH = Cons.IH [OF run h(2)]
  have "length m' \<le> length m + 2 * length (x # xs)" using IH h(1) by simp
  moreover have "set (map fst m') = set (map fst m) \<union> (\<Union>x \<in> set (x # xs). {computeCell x mDelta, prev_block (computeCell x mDelta)})"
  proof -
    have "set (map fst m') = set (map fst m1) \<union> (\<Union>x \<in> set xs. {computeCell x mDelta, prev_block (computeCell x mDelta)})"
      using IH by blast
    then show ?thesis using h(3) by (simp only: list.set(2) UN_insert) blast
  qed
  ultimately show ?case using IH rs by simp
qed simp

section \<open>What the pairs are\<close>

text \<open>The inputs are 64-bit numbers, the walk over the map meets every element once.\<close>
definition inputs_ok :: "nat \<Rightarrow> nat \<Rightarrow> block list \<Rightarrow> bool" where
  "inputs_ok n mDim inputs \<longleftrightarrow> length inputs = n * mDim \<and> (\<forall>x \<in> set inputs. unat x < 2 ^ 64)"

definition walk_ok :: "(nat \<Rightarrow> labels \<Rightarrow> labels) \<Rightarrow> bool" where
  "walk_ok iter \<longleftrightarrow> (\<forall>i m. length (iter i m) = length m \<and> set (iter i m) = set m)"

definition bridges_ok :: "u64 \<Rightarrow> (nat \<Rightarrow> nat \<Rightarrow> block) \<Rightarrow> nat \<Rightarrow> nat \<Rightarrow> block list \<Rightarrow> bool" where
  "bridges_ok mDelta rnd n mDim inputs \<longleftrightarrow> (\<forall>i < mDim. no_bridge mDelta (rnd i) 0 (column n mDim i inputs) [])"

lemma column_input:
  "i < mDim \<Longrightarrow> j < n \<Longrightarrow> inputs_ok n mDim inputs \<Longrightarrow> column n mDim i inputs ! j = inputs ! (j * mDim + i) \<and> unat (inputs ! (j * mDim + i)) < 2 ^ 64"
proof -
  assume a: "i < mDim" "j < n" "inputs_ok n mDim inputs"
  have "j * mDim + i < Suc j * mDim" using a(1) by simp
  also have "\<dots> \<le> n * mDim" using a(2) by (intro mult_le_mono1) simp
  finally show ?thesis using a by (simp add: column_def inputs_ok_def)
qed

lemma dim_labels_ok:
  assumes d: "0 < unat mDelta" and inp: "inputs_ok n mDim inputs" and br: "bridges_ok mDelta rnd n mDim inputs"
    and i: "i < mDim" and run: "dim_labels mDelta rnd n mDim inputs i = (m, rs)"
  shows "length m \<le> 2 * n" "length rs = n"
    and "j < n \<Longrightarrow> unat x \<le> unat (inputs ! (j * mDim + i)) + unat mDelta \<Longrightarrow>
      unat (inputs ! (j * mDim + i)) \<le> unat x + unat mDelta \<Longrightarrow> map_of m (computeBlock x mDelta) = Some (rs ! j)"
proof -
  have loop: "id_loop mDelta (rnd i) 0 (column n mDim i inputs) [] = (m, rs)" "no_bridge mDelta (rnd i) 0 (column n mDim i inputs) []"
    using run br i by (simp_all add: dim_labels_def bridges_ok_def)
  note ok = id_loop_ok [OF loop(2,1)] and keys = id_loop_keys [OF loop(1)]
  show "length m \<le> 2 * n" "length rs = n" using keys by (simp_all add: column_def)
  assume j: "j < n" and near: "unat x \<le> unat (inputs ! (j * mDim + i)) + unat mDelta" "unat (inputs ! (j * mDim + i)) \<le> unat x + unat mDelta"
  have c: "column n mDim i inputs ! j = inputs ! (j * mDim + i)" "unat (inputs ! (j * mDim + i)) < 2 ^ 64"
    using column_input [OF i j inp] by simp_all
  have "j < length (column n mDim i inputs)" using j by (simp add: column_def)
  then have "map_of m (computeCell (inputs ! (j * mDim + i)) mDelta) = Some (rs ! j)"
    "map_of m (prev_block (computeCell (inputs ! (j * mDim + i)) mDelta)) = Some (rs ! j)"
    using ok unfolding c(1) [symmetric] by blast+
  then show "map_of m (computeBlock x mDelta) = Some (rs ! j)"
    using near_block [OF d c(2) near] by auto
qed

text \<open>The label of point \<open>j\<close> in dimension \<open>i\<close>.\<close>
definition label_of :: "u64 \<Rightarrow> (nat \<Rightarrow> nat \<Rightarrow> block) \<Rightarrow> nat \<Rightarrow> nat \<Rightarrow> block list \<Rightarrow> nat \<Rightarrow> nat \<Rightarrow> block" where
  "label_of mDelta rnd n mDim inputs i j = snd (dim_labels mDelta rnd n mDim inputs i) ! j"

lemma getID_ok:
  fixes prfun iter rnd pk pv mDelta n mDim inputs
  defines "G \<equiv> getID prfun iter rnd pk pv mDelta n mDim inputs"
  assumes d: "0 < unat mDelta" and inp: "inputs_ok n mDim inputs" and br: "bridges_ok mDelta rnd n mDim inputs" and walk: "walk_ok iter"
  shows "length (blocksContainInputs G) = 2 * n * mDim" "length (mAssignments G) = 2 * n * mDim"
    and "mIdentifiers G = map (\<lambda>j. fold (\<lambda>i s. s XOR label_of mDelta rnd n mDim inputs i j) [0..<mDim] 0) [0..<n]"
    and "i < mDim \<Longrightarrow> j < n \<Longrightarrow> unat x \<le> unat (inputs ! (j * mDim + i)) + unat mDelta \<Longrightarrow>
      unat (inputs ! (j * mDim + i)) \<le> unat x + unat mDelta \<Longrightarrow>
      \<exists>t < 2 * n * mDim. blocksContainInputs G ! t = mk_block (of_nat i) 0 XOR computeBlock x mDelta \<and>
        mAssignments G ! t = label_of mDelta rnd n mDim inputs i j XOR prfun (mk_block (of_nat i) 0 XOR computeBlock x mDelta)"
proof -
  let ?L = "\<lambda>i. dim_labels mDelta rnd n mDim inputs i"
  define pairs where "pairs = concat (map (\<lambda>i. fill_pairs prfun iter i (fst (?L i))) [0..<mDim])"
  have len1: "length (fill_pairs prfun iter i (fst (?L i))) \<le> 2 * n" if "i < mDim" for i
    using dim_labels_ok(1) [OF d inp br that] walk by (cases "?L i") (auto simp: fill_pairs_def walk_ok_def)
  have "length pairs \<le> mDim * (2 * n)" unfolding pairs_def using len1 by (rule length_concat_upt)
  then have len: "length pairs \<le> 2 * n * mDim" by (simp add: mult.commute)
  have G: "mIdentifiers G = map (\<lambda>j. fold (\<lambda>i s. s XOR label_of mDelta rnd n mDim inputs i j) [0..<mDim] 0) [0..<n]"
    "blocksContainInputs G = map fst pairs @ map pk [length pairs..<2 * n * mDim]"
    "mAssignments G = map snd pairs @ map pv [length pairs..<2 * n * mDim]"
  proof -
    have p: "concat (map (\<lambda>i. fill_pairs prfun iter i (fst (map ?L [0..<mDim] ! i))) [0..<mDim]) = pairs"
      unfolding pairs_def by (rule arg_cong [where f = concat], rule map_cong) simp_all
    show "mIdentifiers G = map (\<lambda>j. fold (\<lambda>i s. s XOR label_of mDelta rnd n mDim inputs i j) [0..<mDim] 0) [0..<n]"
      unfolding G_def getID_def Let_def by (auto simp: label_of_def intro!: fold_cong)
    show "blocksContainInputs G = map fst pairs @ map pk [length pairs..<2 * n * mDim]"
      "mAssignments G = map snd pairs @ map pv [length pairs..<2 * n * mDim]"
      unfolding G_def getID_def Let_def p by simp_all
  qed
  show "mIdentifiers G = map (\<lambda>j. fold (\<lambda>i s. s XOR label_of mDelta rnd n mDim inputs i j) [0..<mDim] 0) [0..<n]" by (rule G(1))
  show "length (blocksContainInputs G) = 2 * n * mDim" "length (mAssignments G) = 2 * n * mDim"
    using len by (simp_all add: G)
  assume a: "i < mDim" "j < n" "unat x \<le> unat (inputs ! (j * mDim + i)) + unat mDelta" "unat (inputs ! (j * mDim + i)) \<le> unat x + unat mDelta"
  obtain m rs where run: "?L i = (m, rs)" by (cases "?L i")
  let ?key = "mk_block (of_nat i) 0 XOR computeBlock x mDelta"
  have "map_of m (computeBlock x mDelta) = Some (rs ! j)" using dim_labels_ok(3) [OF d inp br a(1) run a(2-4)] .
  then have "(computeBlock x mDelta, rs ! j) \<in> set (iter i m)" using walk map_of_SomeD by (fastforce simp: walk_ok_def)
  then have "(?key, rs ! j XOR prfun ?key) \<in> set (fill_pairs prfun iter i (fst (?L i)))"
    unfolding fill_pairs_def run by (force simp: Let_def)
  then have "(?key, rs ! j XOR prfun ?key) \<in> set pairs" unfolding pairs_def using a(1) by auto
  then obtain t where t: "t < length pairs" "pairs ! t = (?key, rs ! j XOR prfun ?key)" by (auto simp: in_set_conv_nth)
  then show "\<exists>t < 2 * n * mDim. blocksContainInputs G ! t = ?key \<and>
        mAssignments G ! t = label_of mDelta rnd n mDim inputs i j XOR prfun ?key"
    using len by (intro exI [of _ t]) (simp add: G nth_append label_of_def run)
qed

section \<open>Origins\<close>

lemma origin_loop_ok:
  assumes "Suc c < 2 ^ 64"
  shows "\<exists>t s. origin_loop m (of_nat c) = Some t \<and> add_epi64 t OneBlock = of_nat s \<and> s \<le> Suc c \<and>
    (\<forall>b. s \<le> b \<and> b \<le> c \<longrightarrow> map_of m (of_nat b) \<noteq> None) \<and> (s = 0 \<or> map_of m (of_nat (s - 1)) = None)"
  using assms
proof (induction c)
  case 0
  show ?case
  proof (cases "map_of m (0 :: block)")
    case None
    then have "origin_loop m 0 = Some 0" by (subst origin_loop.simps) simp
    then show ?thesis using add_epi64_one [of 0] None
      by (intro exI [of _ "0 :: block"] exI [of _ "1 :: nat"]) simp
  next
    case (Some v)
    have "add_epi64 (sub_epi64 0 OneBlock) OneBlock = 0"
    proof -
      have z: "low64 0 = 0" "high64 0 = 0" by (simp_all add: low64_def high64_def)
      have "low64 (mk_block 0 (- 1)) = - 1" "high64 (mk_block 0 (- 1)) = 0"
        unfolding low64_def high64_def mk_block_low by (rule bit_word_eqI, auto simp: bit_simps)+
      then show ?thesis by (simp add: sub_epi64_def OneBlock_eq low64_1 z add_epi64_def mk_block_low)
    qed
    moreover have "origin_loop m 0 = Some (sub_epi64 0 OneBlock)" using Some by (subst origin_loop.simps) simp
    ultimately show ?thesis using Some
      by (intro exI [of _ "sub_epi64 0 OneBlock"] exI [of _ "0 :: nat"]) simp
  qed
next
  case (Suc c)
  have nz: "(of_nat (Suc c) :: block) \<noteq> 0" using of_nat_block_inject [of "Suc c" 0] Suc.prems by simp
  show ?case
  proof (cases "map_of m (of_nat (Suc c) :: block)")
    case None
    then have "origin_loop m (of_nat (Suc c)) = Some (of_nat (Suc c))" by (subst origin_loop.simps) simp
    then show ?thesis using add_epi64_one [of "Suc c"] Suc.prems None
      by (intro exI [of _ "of_nat (Suc c) :: block"] exI [of _ "Suc (Suc c)"]) (auto simp del: of_nat_Suc)
  next
    case (Some v)
    have sub: "sub_epi64 (of_nat (Suc c)) OneBlock = of_nat c" using sub_epi64_one [of "Suc c"] Suc.prems by simp
    obtain t s where ts: "origin_loop m (of_nat c) = Some t" "add_epi64 t OneBlock = of_nat s" "s \<le> Suc c"
      "\<forall>b. s \<le> b \<and> b \<le> c \<longrightarrow> map_of m (of_nat b) \<noteq> None" "s = 0 \<or> map_of m (of_nat (s - 1)) = None"
      using Suc.IH Suc.prems by auto
    have "origin_loop m (of_nat (Suc c)) = Some t"
      by (subst origin_loop.simps) (simp only: Some nz sub ts(1) option.distinct if_False)
    moreover have "map_of m (of_nat b) \<noteq> None" if "s \<le> b" "b \<le> Suc c" for b
      using that ts(4) Some by (cases "b = Suc c") simp_all
    ultimately show ?thesis using ts(2,3,5) by (intro exI [of _ t] exI [of _ s]) simp
  qed
qed

section \<open>Properties\<close>

text \<open>C36. The origins: the walk down the labelled blocks always ends, whatever the labels, and for a
  point of the party the origin is the left end of the longest run of labelled blocks that ends at
  the cell of the point.\<close>
theorem origin_left_end:
  assumes "0 < unat mDelta" "inputs_ok n mDim inputs" "i < mDim" "j < n"
    and "dim_labels mDelta rnd n mDim inputs i = (m, rs)"
  shows "\<exists>origin s. origin_of m mDelta (inputs ! (j * mDim + i)) = Some origin \<and>
    unat origin = s * (2 * unat mDelta) \<and> unat origin \<le> unat (inputs ! (j * mDim + i)) \<and>
    (\<forall>b. s \<le> b \<and> b \<le> unat (inputs ! (j * mDim + i)) div (2 * unat mDelta) \<longrightarrow> map_of m (of_nat b) \<noteq> None) \<and>
    (s = 0 \<or> map_of m (of_nat (s - 1)) = None)"
proof -
  let ?x = "inputs ! (j * mDim + i)" and ?w = "2 * unat mDelta"
  let ?c = "unat ?x div ?w"
  have x: "column n mDim i inputs ! j = ?x" "unat ?x < 2 ^ 64" using column_input [OF assms(3,4,2)] by simp_all
  have "?c \<le> unat ?x div 2" using assms(1) by (intro div_le_mono2) simp_all
  then have c: "Suc ?c < 2 ^ 64" using x(2) by simp
  have cell: "computeCell ?x mDelta = of_nat ?c" by (rule computeCell_nat [OF assms(1)])
  obtain t s where ts: "origin_loop m (of_nat ?c) = Some t" "add_epi64 t OneBlock = of_nat s" "s \<le> Suc ?c"
    "\<forall>b. s \<le> b \<and> b \<le> ?c \<longrightarrow> map_of m (of_nat b) \<noteq> None" "s = 0 \<or> map_of m (of_nat (s - 1)) = None"
    using origin_loop_ok [OF c] by blast
  have "set (map fst m) = (\<Union>x \<in> set (column n mDim i inputs). {computeCell x mDelta, prev_block (computeCell x mDelta)})"
    using id_loop_keys [of mDelta "rnd i" 0 "column n mDim i inputs" "[]" m rs] assms(5) by (simp add: dim_labels_def)
  moreover have "?x \<in> set (column n mDim i inputs)" using x(1) assms(4) by (metis column_def length_map length_upt minus_nat.diff_0 nth_mem)
  ultimately have "computeCell ?x mDelta \<in> fst ` set m" by auto
  then have "map_of m (of_nat ?c) \<noteq> None" by (simp only: cell map_of_eq_None_iff simp_thms)
  then have "s \<noteq> Suc ?c" using ts(5) by auto
  then have sc: "s \<le> ?c" using ts(3) by simp
  have le: "s * ?w \<le> unat ?x" using sc by (metis div_times_less_eq_dividend le_trans mult_le_mono1)
  have su: "unat (of_nat s :: block) = s" using sc c by (simp add: unat_of_nat)
  have "unat (leftEndPoint (of_nat s) mDelta) = s * ?w"
    using le x(2) width [OF assms(1)] su by (simp add: leftEndPoint_def Let_def unat_mult_lem [THEN iffD1])
  moreover have "origin_of m mDelta ?x = Some (leftEndPoint (of_nat s) mDelta)"
    by (simp add: origin_of_def cell ts(1,2))
  ultimately show ?thesis using ts(4,5) le by auto
qed

lemma origin_left_end_witness:
  "\<exists>origin s. origin_of (fst (dim_labels 10 (\<lambda>_ _. 3) 1 1 [105] 0)) 10 105 = Some origin \<and> unat origin = s * 20"
proof -
  have "inputs_ok 1 1 [105]" by (simp add: inputs_ok_def)
  then show ?thesis
    using origin_left_end [of 10 1 1 "[105]" 0 0 "\<lambda>_ _. 3" "fst (dim_labels 10 (\<lambda>_ _. 3) 1 1 [105] 0)"
        "snd (dim_labels 10 (\<lambda>_ _. 3) 1 1 [105] 0)"] by auto
qed

text \<open>C35. The encoded set: when no point joins two runs of labelled blocks, every value within the
  radius of a point in a dimension has its block among the keys, with the label that went into the
  point's identifier, masked with the pseudo random function of the key.\<close>
theorem getID_programs_near:
  assumes "0 < unat mDelta" "inputs_ok n mDim inputs" "bridges_ok mDelta rnd n mDim inputs" "walk_ok iter"
    and "i < mDim" "j < n"
    and "unat x \<le> unat (inputs ! (j * mDim + i)) + unat mDelta" "unat (inputs ! (j * mDim + i)) \<le> unat x + unat mDelta"
  shows "\<exists>t < 2 * n * mDim.
    blocksContainInputs (getID F iter rnd pk pv mDelta n mDim inputs) ! t = mk_block (of_nat i) 0 XOR computeBlock x mDelta \<and>
    mAssignments (getID F iter rnd pk pv mDelta n mDim inputs) ! t =
      label_of mDelta rnd n mDim inputs i j XOR F (mk_block (of_nat i) 0 XOR computeBlock x mDelta)"
  using getID_ok(4) [OF assms(1-4)] assms(5-8) by blast

lemma getID_programs_near_witness:
  "\<exists>t < 4. blocksContainInputs (getID (\<lambda>x. x + 3) (\<lambda>_ m. m) (\<lambda>_ j. of_nat j) (\<lambda>_. 0) (\<lambda>_. 0) 10 2 1 [105, 300]) ! t = mk_block 0 0 XOR computeBlock 96 10"
proof -
  have c: "computeCell 105 10 = 5" "computeCell 300 10 = 15" by (simp_all add: computeCell_def)
  have p: "prev_block 5 = 4" "prev_block 15 = 14" using prev_block_nat [of 5] prev_block_nat [of 15] by simp_all
  have "column 2 1 0 [105, 300] = [105, 300]" by (simp add: column_def numeral_2_eq_2)
  then have "bridges_ok 10 (\<lambda>_ j. of_nat j) 2 1 [105, 300]"
    by (simp add: bridges_ok_def id_step_def Let_def c p emplace_def)
  moreover have "inputs_ok 2 1 [105, 300]" by (simp add: inputs_ok_def)
  ultimately show ?thesis
    using getID_programs_near [of 10 2 1 "[105, 300]" "\<lambda>_ j. of_nat j" "\<lambda>_ m. m" 0 0 96 "\<lambda>x. x + 3" "\<lambda>_. 0" "\<lambda>_. 0"]
    by (auto simp: walk_ok_def)
qed

text \<open>C37. When the third of three points falls between the runs of the first two, the code gives the
  run of the second point the label of the first, but the second point's identifier keeps the label
  it was given before: its cell is then labelled with another element than its identifier contains,
  so a value near it is mapped to a different identifier.\<close>
theorem bridge_keeps_stale_label:
  assumes "0 < unat mDelta" "1 \<le> c" "c + 3 < 2 ^ 64" "rnd 0 \<noteq> rnd (1 :: nat)"
    and "unat x0 div (2 * unat mDelta) = c" "unat x1 div (2 * unat mDelta) = c + 2" "unat x2 div (2 * unat mDelta) = c + 1"
  shows "\<exists>m. id_loop mDelta rnd 0 [x0, x1, x2] [] = (m, [rnd 0, rnd 1, rnd 0]) \<and>
    map_of m (computeCell x1 mDelta) = Some (rnd 0)"
proof -
  define b :: "nat \<Rightarrow> block" where "b = of_nat"
  define b0 b1 b2 b3 b4 where B: "b0 = b (c - 1)" "b1 = b c" "b2 = b (c + 1)" "b3 = b (c + 2)" "b4 = b (c + 3)"
  have cells: "computeCell x0 mDelta = b1" "computeCell x1 mDelta = b3" "computeCell x2 mDelta = b2"
    using assms(1,5-7) by (simp_all add: computeCell_nat b_def B)
  have prevs: "prev_block b1 = b0" "prev_block b3 = b2" "prev_block b2 = b1"
    using assms(3) prev_block_nat [of "c + 1"] prev_block_nat [of "c + 2"] prev_block_nat [of c]
    by (simp_all only: b_def B, simp_all)
  have n: "c + 2 = Suc (c + 1)" "c + 3 = Suc (c + 2)" by simp_all
  have nexts: "add_epi64 b2 OneBlock = b3" "add_epi64 b3 OneBlock = b4"
    unfolding b_def B n(2) unfolding n(1) by (rule add_epi64_one, use assms(3) in simp)+
  have neq: "b k = b l \<longleftrightarrow> k = l" if "k \<le> c + 3" "l \<le> c + 3" for k l
    using that assms(3) of_nat_block_inject [of k l] by (simp add: b_def)
  have d: "b1 \<noteq> b0" "b2 \<noteq> b0" "b3 \<noteq> b0" "b4 \<noteq> b0" "b2 \<noteq> b1" "b3 \<noteq> b1" "b4 \<noteq> b1" "b3 \<noteq> b2" "b4 \<noteq> b2" "b4 \<noteq> b3"
    using assms(2) by (simp_all add: neq B)
  let ?r0 = "rnd 0" and ?r1 = "rnd (1 :: nat)"
  have s0: "id_step mDelta ?r0 x0 [] = ([(b0, ?r0), (b1, ?r0)], ?r0)"
    using d by (simp add: id_step_def Let_def cells prevs emplace_def)
  have s1: "id_step mDelta ?r1 x1 [(b0, ?r0), (b1, ?r0)] = ([(b0, ?r0), (b1, ?r0), (b2, ?r1), (b3, ?r1)], ?r1)"
    using d by (simp add: id_step_def Let_def cells prevs emplace_def d [symmetric])
  have s2: "id_step mDelta (rnd 2) x2 [(b0, ?r0), (b1, ?r0), (b2, ?r1), (b3, ?r1)] =
      (relabel ?r0 b2 [(b0, ?r0), (b1, ?r0), (b2, ?r1), (b3, ?r1)], ?r0)"
    using d by (simp add: id_step_def Let_def cells prevs)
  have r: "relabel ?r0 b2 [(b0, ?r0), (b1, ?r0), (b2, ?r1), (b3, ?r1)] = [(b0, ?r0), (b1, ?r0), (b2, ?r0), (b3, ?r0)]"
  proof -
    have "relabel ?r0 b2 [(b0, ?r0), (b1, ?r0), (b2, ?r1), (b3, ?r1)] = relabel ?r0 b3 [(b0, ?r0), (b1, ?r0), (b2, ?r0), (b3, ?r1)]"
      using d assms(4) by (subst relabel.simps) (simp add: nexts d [symmetric])
    also have "\<dots> = relabel ?r0 b4 [(b0, ?r0), (b1, ?r0), (b2, ?r0), (b3, ?r0)]"
      using d assms(4) by (subst relabel.simps) (simp add: nexts d [symmetric])
    also have "\<dots> = [(b0, ?r0), (b1, ?r0), (b2, ?r0), (b3, ?r0)]"
      using d by (subst relabel.simps) (simp add: d [symmetric])
    finally show ?thesis .
  qed
  have "id_loop mDelta rnd 0 [x0, x1, x2] [] = ([(b0, ?r0), (b1, ?r0), (b2, ?r0), (b3, ?r0)], [?r0, ?r1, ?r0])"
    using s0 s1 s2 r by (simp add: numeral_2_eq_2)
  moreover have "map_of [(b0, ?r0), (b1, ?r0), (b2, ?r0), (b3, ?r0)] (computeCell x1 mDelta) = Some ?r0"
    using d by (simp add: cells)
  ultimately show ?thesis by blast
qed

lemma bridge_keeps_stale_label_witness:
  "\<exists>m. id_loop 10 of_nat 0 [100, 140, 120] [] = (m, [0, 1, 0]) \<and> map_of m (computeCell 140 10) = Some 0"
  using bridge_keeps_stale_label [of 10 5 of_nat 100 140 120] by simp

end
