(* ===== verification/Fmap.thy ===== *)
theory Fmap
  imports Oprf Fmap_Id
begin

text \<open>
  The fuzzy mapping of fpsi/cmp_fmap/fmap.cpp: both parties encode the labels of
  their blocks in a key-value store, look up the blocks of their points in the
  store of the other, and turn the sums of labels into identifiers under the
  product of their two scalars.  The shares of the pseudo random function and of
  the vector OLE come from the crypto library and are arguments.
\<close>

section \<open>State of the parties\<close>

text \<open>
  What \<open>setUp\<close> leaves: the scalar, the own mask with its share, the share of the
  other party's mask, the pseudo random function of the own key and the seed of
  the own store.  \<open>fp_iter\<close>, \<open>fp_rnd\<close> and the padding belong to \<open>getID\<close>.
\<close>
record fmap_party =
  fp_scalar :: block
  fp_mask :: "block list"
  fp_mask_share :: "block list"
  fp_other_share :: "block list"
  fp_prf :: "block \<Rightarrow> block"
  fp_seed :: block
  fp_iter :: "nat \<Rightarrow> labels \<Rightarrow> labels"
  fp_rnd :: "nat \<Rightarrow> nat \<Rightarrow> block"
  fp_pad_keys :: "nat \<Rightarrow> block"
  fp_pad_vals :: "nat \<Rightarrow> block"

record fmap_env =
  fm_crypto :: crypto
  fm_init :: "nat \<Rightarrow> block \<Rightarrow> baxos"
  fm_solve :: "baxos \<Rightarrow> block list \<Rightarrow> block list \<Rightarrow> block list result"

text \<open>\<open>setUp\<close>: the parties keep what the two vector OLEs give them.\<close>
definition fmap_setUp ::
  "block \<Rightarrow> block list \<Rightarrow> block list \<Rightarrow> block list \<Rightarrow> (block \<Rightarrow> block) \<Rightarrow> block \<Rightarrow>
   (nat \<Rightarrow> labels \<Rightarrow> labels) \<Rightarrow> (nat \<Rightarrow> nat \<Rightarrow> block) \<Rightarrow> (nat \<Rightarrow> block) \<Rightarrow> (nat \<Rightarrow> block) \<Rightarrow> fmap_party" where
  "fmap_setUp B_DELTA A C D prfKey hashingSeed iter rnd pad_keys pad_vals =
     \<lparr>fp_scalar = B_DELTA, fp_mask = A, fp_mask_share = C, fp_other_share = D, fp_prf = prfKey, fp_seed = hashingSeed,
      fp_iter = iter, fp_rnd = rnd, fp_pad_keys = pad_keys, fp_pad_vals = pad_vals\<rparr>"

section \<open>The steps of one direction\<close>

text \<open>The owner has encoded its labels; the querier obtains its identifiers.\<close>

definition blocksOfInputs :: "u64 \<Rightarrow> nat \<Rightarrow> nat \<Rightarrow> block list \<Rightarrow> block list" where
  "blocksOfInputs mDelta n mDim inputs =
     map (\<lambda>i. mk_block (of_nat (i mod mDim)) 0 XOR computeBlock (inputs ! i) mDelta) [0..<n * mDim]"

text \<open>The owner's message: the sums of its shares under its mask.\<close>
definition share_sums :: "nat \<Rightarrow> nat \<Rightarrow> nat \<Rightarrow> block list \<Rightarrow> block list \<Rightarrow> block list" where
  "share_sums mDim n off oprfShare mask' =
     map (\<lambda>i. fold (\<lambda>j s. s XOR oprfShare ! (i * mDim + j)) [0..<mDim] 0 XOR mask' ! (i + off)) [0..<n]"

definition encryptID ::
  "(block \<Rightarrow> block \<Rightarrow> block) \<Rightarrow> fmap_party \<Rightarrow> nat \<Rightarrow> nat \<Rightarrow> block list \<Rightarrow> block list \<Rightarrow> block list \<Rightarrow> block list \<Rightarrow> block list" where
  "encryptID mul q mDim off ids decodeVal oprfShare oprfShare_sum =
     map (\<lambda>i.
       let sum = fold (\<lambda>j s. s XOR mul (fp_scalar q) (oprfShare ! (i * mDim + j))) [0..<mDim]
                   (mul (fp_scalar q) (oprfShare_sum ! i) XOR fp_other_share q ! (i + off));
           encryID = fold (\<lambda>j s. s XOR decodeVal ! (i * mDim + j)) [0..<mDim] 0
       in mul (fp_scalar q) (encryID XOR ids ! i) XOR sum XOR fp_mask q ! (i + off)) [0..<length ids]"

text \<open>The owner's answer and what the querier makes of it.\<close>
definition reply_ids :: "(block \<Rightarrow> block \<Rightarrow> block) \<Rightarrow> fmap_party \<Rightarrow> nat \<Rightarrow> block list \<Rightarrow> block list" where
  "reply_ids mul owner off encryID_rec =
     map (\<lambda>i. mul (fp_scalar owner) (encryID_rec ! i XOR fp_mask_share owner ! (i + off)) XOR fp_other_share owner ! (i + off))
       [0..<length encryID_rec]"

definition unmask_ids :: "fmap_party \<Rightarrow> nat \<Rightarrow> block list \<Rightarrow> block list" where
  "unmask_ids q off maskedID = map (\<lambda>i. maskedID ! i XOR fp_mask_share q ! (i + off)) [0..<length maskedID]"

definition id_round ::
  "fmap_env \<Rightarrow> u64 \<Rightarrow> nat \<Rightarrow> fmap_party \<Rightarrow> fmap_party \<Rightarrow> nat \<Rightarrow> nat \<Rightarrow> id_result \<Rightarrow> block list \<Rightarrow> block list \<Rightarrow>
   block list \<Rightarrow> block list \<Rightarrow> block list result" where
  "id_round env mDelta mDim owner q n off encoded ids inputs share_owner share_q =
     (let mul = gfMul (fm_crypto env);
          paxos = fm_init env (2 * n * mDim) (fp_seed owner);
          blocks = blocksOfInputs mDelta n mDim inputs
      in rbind (fm_solve env paxos (blocksContainInputs encoded) (mAssignments encoded)) (\<lambda>mOKVS.
         rbind (baxos_decode (fm_crypto env) paxos True 1 blocks (replicate (n * mDim) 0) mOKVS) (\<lambda>decodeVal.
         Inr (unmask_ids q off (reply_ids mul owner off
           (encryptID mul q mDim off ids decodeVal share_q (share_sums mDim n off share_owner (fp_mask owner))))))))"

section \<open>Both parties\<close>

definition party_ids :: "fmap_party \<Rightarrow> u64 \<Rightarrow> nat \<Rightarrow> nat \<Rightarrow> block list \<Rightarrow> id_result" where
  "party_ids p mDelta n mDim inputs =
     getID (fp_prf p) (fp_iter p) (fp_rnd p) (fp_pad_keys p) (fp_pad_vals p) mDelta n mDim inputs"

text \<open>
  Direction 0 gives the receiver its identifiers, with the first masks; direction
  1 the sender, with the masks after those.  The result is the receiver's and the
  sender's identifiers.
\<close>
definition fuzzyMap ::
  "fmap_env \<Rightarrow> u64 \<Rightarrow> nat \<Rightarrow> fmap_party \<Rightarrow> fmap_party \<Rightarrow> nat \<Rightarrow> nat \<Rightarrow> block list \<Rightarrow> block list \<Rightarrow>
   block list \<times> block list \<Rightarrow> block list \<times> block list \<Rightarrow> (block list \<times> block list) result" where
  "fuzzyMap env mDelta mDim S R mSenderSize mRecverSize send_inputs recv_inputs shares_0 shares_1 =
     (let GS = party_ids S mDelta mSenderSize mDim send_inputs;
          GR = party_ids R mDelta mRecverSize mDim recv_inputs
      in rbind (id_round env mDelta mDim S R mRecverSize 0 GS (mIdentifiers GR) recv_inputs (fst shares_0) (snd shares_0)) (\<lambda>recv_ids.
         rbind (id_round env mDelta mDim R S mSenderSize mRecverSize GR (mIdentifiers GS) send_inputs (fst shares_1) (snd shares_1)) (\<lambda>send_ids.
         Inr (recv_ids, send_ids))))"

section \<open>Sums of blocks\<close>

abbreviation xsum :: "(nat \<Rightarrow> block) \<Rightarrow> nat \<Rightarrow> block" where
  "xsum f n \<equiv> fold (\<lambda>j s. s XOR f j) [0..<n] 0"

lemma fold_xor_start: "fold (\<lambda>j s. s XOR f j) [0..<n] a = a XOR xsum f n" for f :: "nat \<Rightarrow> block"
  by (induction n) (simp_all add: xor_ac)

lemma xsum_xor: "xsum f n XOR xsum g n = xsum (\<lambda>j. f j XOR g j) n"
  by (induction n) (simp_all add: xor_ac)

lemma mul_xsum: "gf_laws mul \<Longrightarrow> mul c (xsum f n) = xsum (\<lambda>j. mul c (f j)) n"
proof (induction n)
  case 0
  have "mul c (0 XOR 0) = mul c 0 XOR mul c 0" using 0 unfolding gf_laws_def by blast
  then show ?case by simp
next
  case (Suc n)
  have "mul c (xsum f n XOR f n) = mul c (xsum f n) XOR mul c (f n)" using Suc.prems unfolding gf_laws_def by blast
  then show ?case using Suc by simp
qed

lemma xsum_cong: "(\<And>j. j < n \<Longrightarrow> f j = g j) \<Longrightarrow> xsum f n = xsum g n"
  by (rule fold_cong) simp_all

section \<open>One direction\<close>

text \<open>The shares of the mask of \<open>p\<close>: \<open>C = D + scalar * A\<close>.\<close>
definition mask_shares_ok :: "(block \<Rightarrow> block \<Rightarrow> block) \<Rightarrow> fmap_party \<Rightarrow> fmap_party \<Rightarrow> nat \<Rightarrow> bool" where
  "mask_shares_ok mul p other n \<longleftrightarrow>
     (\<forall>i < n. fp_mask_share p ! i = fp_other_share other ! i XOR mul (fp_scalar other) (fp_mask p ! i))"

text \<open>The shares of the pseudo random function of the owner at the querier's blocks.\<close>
definition prf_shares_ok :: "fmap_party \<Rightarrow> block list \<Rightarrow> block list \<Rightarrow> block list \<Rightarrow> bool" where
  "prf_shares_ok owner blocks share_owner share_q \<longleftrightarrow>
     (\<forall>i < length blocks. share_owner ! i XOR share_q ! i = fp_prf owner (blocks ! i))"

text \<open>The store is set up: the solver succeeds and its table is right.\<close>
definition store_ok :: "fmap_env \<Rightarrow> baxos \<Rightarrow> block list \<Rightarrow> block list \<Rightarrow> bool" where
  "store_ok env bx keys vals \<longleftrightarrow> baxos_ok (fm_crypto env) bx \<and>
     (\<exists>P. fm_solve env bx keys vals = Inr P \<and> solves (fm_crypto env) bx keys vals P)"

lemma point_index: "i < n \<Longrightarrow> j < m \<Longrightarrow> i * m + j < n * m" for i j n m :: nat
proof -
  assume a: "i < n" "j < m"
  have "i * m + j < Suc i * m" using a by simp
  also have "\<dots> \<le> n * m" using a by (intro mult_le_mono1) simp
  finally show ?thesis .
qed

lemma round_algebra:
  fixes f g :: "nat \<Rightarrow> block"
  assumes mul: "gf_laws mul"
    and ms: "mq = oo XOR mul so aq" "mo = oq XOR mul sq ao"
  shows "(mul so (mul sq (xsum d m XOR x) XOR (mul sq (xsum f m XOR ao) XOR oq XOR xsum (\<lambda>j. mul sq (g j)) m) XOR aq XOR mo) XOR oo) XOR mq =
    mul so (mul sq (xsum (\<lambda>j. d j XOR (f j XOR g j)) m XOR x))"
proof -
  have dist: "mul c (a XOR b) = mul c a XOR mul c b" for a b c using mul unfolding gf_laws_def by blast
  have "xsum (\<lambda>j. d j XOR (f j XOR g j)) m = xsum d m XOR (xsum f m XOR xsum g m)" by (simp add: xsum_xor)
  then show ?thesis unfolding ms by (simp add: dist mul_xsum [OF mul, symmetric] xor_ac)
qed

lemma id_round_ok:
  fixes env owner q n mDim mDelta encoded inputs
  defines "mul \<equiv> gfMul (fm_crypto env)" and "blocks \<equiv> blocksOfInputs mDelta n mDim inputs"
    and "bx \<equiv> fm_init env (2 * n * mDim) (fp_seed owner)"
  assumes store: "store_ok env bx (blocksContainInputs encoded) (mAssignments encoded)"
    and masks: "mask_shares_ok mul q owner (n + off)" "mask_shares_ok mul owner q (n + off)"
    and prfs: "prf_shares_ok owner blocks share_owner share_q" and ids: "length ids = n"
  shows "\<exists>out dec. id_round env mDelta mDim owner q n off encoded ids inputs share_owner share_q = Inr out \<and> length out = n \<and>
    (\<forall>t < length (blocksContainInputs encoded). dec (blocksContainInputs encoded ! t) = mAssignments encoded ! t) \<and>
    (\<forall>i < n. out ! i = mul (fp_scalar owner) (mul (fp_scalar q)
       (xsum (\<lambda>j. dec (blocks ! (i * mDim + j)) XOR fp_prf owner (blocks ! (i * mDim + j))) mDim XOR ids ! i)))"
proof -
  obtain P where P: "fm_solve env bx (blocksContainInputs encoded) (mAssignments encoded) = Inr P"
    "solves (fm_crypto env) bx (blocksContainInputs encoded) (mAssignments encoded) P" and bx: "baxos_ok (fm_crypto env) bx"
    using store by (auto simp: store_ok_def)
  define dec where "dec = key_decode (fm_crypto env) bx P"
  have mul: "gf_laws mul" using bx by (simp add: baxos_ok_def mul_def)
  have len: "length blocks = n * mDim" by (simp add: blocks_def blocksOfInputs_def)
  have dv: "baxos_decode (fm_crypto env) bx True 1 blocks (replicate (n * mDim) 0) P = Inr (map dec blocks)"
    using baxos_decode_eq [OF bx, of P "replicate (n * mDim) 0" blocks True 1] P(2) len
    by (simp add: solves_def put_value_def dec_def list_eq_iff_nth_eq)
  let ?enc = "encryptID mul q mDim off ids (map dec blocks) share_q (share_sums mDim n off share_owner (fp_mask owner))"
  let ?out = "unmask_ids q off (reply_ids mul owner off ?enc)"
  have run: "id_round env mDelta mDim owner q n off encoded ids inputs share_owner share_q = Inr ?out"
    using P(1) dv unfolding id_round_def Let_def blocks_def bx_def mul_def by simp
  have out: "?out ! i = mul (fp_scalar owner) (mul (fp_scalar q)
       (xsum (\<lambda>j. dec (blocks ! (i * mDim + j)) XOR fp_prf owner (blocks ! (i * mDim + j))) mDim XOR ids ! i))" if i: "i < n" for i
  proof -
    have x: "i * mDim + j < n * mDim" if "j < mDim" for j using point_index [OF i that] .
    have "xsum (\<lambda>j. map dec blocks ! (i * mDim + j) XOR (share_owner ! (i * mDim + j) XOR share_q ! (i * mDim + j))) mDim =
        xsum (\<lambda>j. dec (blocks ! (i * mDim + j)) XOR fp_prf owner (blocks ! (i * mDim + j))) mDim"
      using prfs x len by (intro xsum_cong) (simp add: prf_shares_ok_def)
    moreover have "?out ! i = (mul (fp_scalar owner) (mul (fp_scalar q) (xsum (\<lambda>j. map dec blocks ! (i * mDim + j)) mDim XOR ids ! i) XOR
        (mul (fp_scalar q) (xsum (\<lambda>j. share_owner ! (i * mDim + j)) mDim XOR fp_mask owner ! (i + off)) XOR fp_other_share q ! (i + off) XOR
         xsum (\<lambda>j. mul (fp_scalar q) (share_q ! (i * mDim + j))) mDim) XOR fp_mask q ! (i + off) XOR fp_mask_share owner ! (i + off)) XOR
        fp_other_share owner ! (i + off)) XOR fp_mask_share q ! (i + off)"
      using i ids fold_xor_start [of "\<lambda>j. mul (fp_scalar q) (share_q ! (i * mDim + j))" mDim
        "mul (fp_scalar q) (xsum (\<lambda>j. share_owner ! (i * mDim + j)) mDim XOR fp_mask owner ! (i + off)) XOR fp_other_share q ! (i + off)"]
      by (simp add: unmask_ids_def reply_ids_def encryptID_def share_sums_def Let_def xor.assoc)
    moreover have ms: "fp_mask_share q ! (i + off) = fp_other_share owner ! (i + off) XOR mul (fp_scalar owner) (fp_mask q ! (i + off))"
      "fp_mask_share owner ! (i + off) = fp_other_share q ! (i + off) XOR mul (fp_scalar q) (fp_mask owner ! (i + off))"
      using masks i by (simp_all add: mask_shares_ok_def)
    ultimately show ?thesis
      using round_algebra [OF mul ms, where m = mDim and x = "ids ! i" and d = "\<lambda>j. map dec blocks ! (i * mDim + j)" and
          f = "\<lambda>j. share_owner ! (i * mDim + j)" and g = "\<lambda>j. share_q ! (i * mDim + j)"]
      by (simp only:)
  qed
  have "length ?out = n" using ids by (simp add: unmask_ids_def reply_ids_def encryptID_def)
  moreover have "\<forall>t < length (blocksContainInputs encoded). dec (blocksContainInputs encoded ! t) = mAssignments encoded ! t"
    using P(2) unfolding solves_def dec_def by (metis nth_map)
  ultimately show ?thesis using run out by blast
qed

section \<open>Near points\<close>

text \<open>What a party and its inputs have to satisfy.\<close>
definition party_ok :: "fmap_party \<Rightarrow> u64 \<Rightarrow> nat \<Rightarrow> nat \<Rightarrow> block list \<Rightarrow> bool" where
  "party_ok p mDelta n mDim inputs \<longleftrightarrow>
     inputs_ok n mDim inputs \<and> bridges_ok mDelta (fp_rnd p) n mDim inputs \<and> walk_ok (fp_iter p)"

text \<open>Points within the radius in every dimension.\<close>
definition near_points :: "u64 \<Rightarrow> nat \<Rightarrow> block list \<Rightarrow> nat \<Rightarrow> block list \<Rightarrow> nat \<Rightarrow> bool" where
  "near_points mDelta mDim xs i ys j \<longleftrightarrow>
     (\<forall>d < mDim. unat (xs ! (i * mDim + d)) \<le> unat (ys ! (j * mDim + d)) + unat mDelta \<and>
        unat (ys ! (j * mDim + d)) \<le> unat (xs ! (i * mDim + d)) + unat mDelta)"

lemma near_points_sym: "near_points mDelta mDim xs i ys j \<Longrightarrow> near_points mDelta mDim ys j xs i"
  by (auto simp: near_points_def)

text \<open>The labels a querier finds for a near point add up to the identifier of the owner's point.\<close>
lemma labels_of_near:
  fixes p mDelta n mDim inputs
  defines "G \<equiv> party_ids p mDelta n mDim inputs"
  assumes d: "0 < unat mDelta" and ok: "party_ok p mDelta n mDim inputs"
    and dec: "\<forall>t < length (blocksContainInputs G). dec (blocksContainInputs G ! t) = mAssignments G ! t"
    and i: "i < m" "j < n" "near_points mDelta mDim xs i inputs j"
  shows "xsum (\<lambda>k. dec (blocksOfInputs mDelta m mDim xs ! (i * mDim + k)) XOR fp_prf p (blocksOfInputs mDelta m mDim xs ! (i * mDim + k))) mDim =
    mIdentifiers G ! j"
proof -
  have pk: "inputs_ok n mDim inputs" "bridges_ok mDelta (fp_rnd p) n mDim inputs" "walk_ok (fp_iter p)"
    using ok by (simp_all add: party_ok_def)
  note G = getID_ok [OF d pk, where prfun = "fp_prf p" and pk = "fp_pad_keys p" and pv = "fp_pad_vals p", folded party_ids_def G_def]
  let ?b = "blocksOfInputs mDelta m mDim xs"
  have "dec (?b ! (i * mDim + k)) XOR fp_prf p (?b ! (i * mDim + k)) = label_of mDelta (fp_rnd p) n mDim inputs k j" if k: "k < mDim" for k
  proof -
    have b: "?b ! (i * mDim + k) = mk_block (of_nat k) 0 XOR computeBlock (xs ! (i * mDim + k)) mDelta"
      using point_index [OF i(1) k] k by (simp add: blocksOfInputs_def)
    obtain t where t: "t < 2 * n * mDim" "blocksContainInputs G ! t = ?b ! (i * mDim + k)"
      "mAssignments G ! t = label_of mDelta (fp_rnd p) n mDim inputs k j XOR fp_prf p (?b ! (i * mDim + k))"
      using G(4) [OF k i(2), of "xs ! (i * mDim + k)"] i(3) k b by (auto simp: near_points_def)
    then have "dec (?b ! (i * mDim + k)) = label_of mDelta (fp_rnd p) n mDim inputs k j XOR fp_prf p (?b ! (i * mDim + k))"
      using dec G(1) by metis
    then show ?thesis by (simp add: xor_ac)
  qed
  then have "xsum (\<lambda>k. dec (?b ! (i * mDim + k)) XOR fp_prf p (?b ! (i * mDim + k))) mDim =
      xsum (\<lambda>k. label_of mDelta (fp_rnd p) n mDim inputs k j) mDim" by (rule xsum_cong)
  then show ?thesis using G(3) i(2) by simp
qed

section \<open>Properties\<close>

text \<open>C34. The fuzzy mapping: when the parties' labels have no point between two runs, the key-value
  stores are solved and the shares satisfy their relations, the run succeeds and a point of the
  receiver and a point of the sender that are within the radius in every dimension get the same
  identifier.\<close>
theorem fuzzyMap_near:
  assumes "0 < unat mDelta" "party_ok S mDelta nS mDim send_inputs" "party_ok R mDelta nR mDim recv_inputs"
    and "store_ok env (fm_init env (2 * nR * mDim) (fp_seed S))
      (blocksContainInputs (party_ids S mDelta nS mDim send_inputs)) (mAssignments (party_ids S mDelta nS mDim send_inputs))"
    and "store_ok env (fm_init env (2 * nS * mDim) (fp_seed R))
      (blocksContainInputs (party_ids R mDelta nR mDim recv_inputs)) (mAssignments (party_ids R mDelta nR mDim recv_inputs))"
    and "mask_shares_ok (gfMul (fm_crypto env)) R S (nS + nR)" "mask_shares_ok (gfMul (fm_crypto env)) S R (nS + nR)"
    and "prf_shares_ok S (blocksOfInputs mDelta nR mDim recv_inputs) (fst shares_0) (snd shares_0)"
      "prf_shares_ok R (blocksOfInputs mDelta nS mDim send_inputs) (fst shares_1) (snd shares_1)"
  shows "\<exists>recv_ids send_ids.
    fuzzyMap env mDelta mDim S R nS nR send_inputs recv_inputs shares_0 shares_1 = Inr (recv_ids, send_ids) \<and>
    length recv_ids = nR \<and> length send_ids = nS \<and>
    (\<forall>i < nR. \<forall>j < nS. near_points mDelta mDim recv_inputs i send_inputs j \<longrightarrow> recv_ids ! i = send_ids ! j)"
proof -
  let ?mul = "gfMul (fm_crypto env)"
  let ?GS = "party_ids S mDelta nS mDim send_inputs" and ?GR = "party_ids R mDelta nR mDim recv_inputs"
  have len: "length (mIdentifiers ?GS) = nS" "length (mIdentifiers ?GR) = nR"
    by (simp_all add: party_ids_def getID_def Let_def)
  have less: "mask_shares_ok ?mul R S (nR + 0)" "mask_shares_ok ?mul S R (nR + 0)"
    using assms(6,7) by (auto simp: mask_shares_ok_def)
  obtain recv_ids dec0 where r0:
    "id_round env mDelta mDim S R nR 0 ?GS (mIdentifiers ?GR) recv_inputs (fst shares_0) (snd shares_0) = Inr recv_ids" "length recv_ids = nR"
    and dec0: "\<forall>t < length (blocksContainInputs ?GS). dec0 (blocksContainInputs ?GS ! t) = mAssignments ?GS ! t"
    and v0: "\<forall>i < nR. recv_ids ! i = ?mul (fp_scalar S) (?mul (fp_scalar R)
       (xsum (\<lambda>j. dec0 (blocksOfInputs mDelta nR mDim recv_inputs ! (i * mDim + j)) XOR
          fp_prf S (blocksOfInputs mDelta nR mDim recv_inputs ! (i * mDim + j))) mDim XOR mIdentifiers ?GR ! i))"
    using id_round_ok [OF assms(4) less assms(8) len(2)] by blast
  obtain send_ids dec1 where r1:
    "id_round env mDelta mDim R S nS nR ?GR (mIdentifiers ?GS) send_inputs (fst shares_1) (snd shares_1) = Inr send_ids" "length send_ids = nS"
    and dec1: "\<forall>t < length (blocksContainInputs ?GR). dec1 (blocksContainInputs ?GR ! t) = mAssignments ?GR ! t"
    and v1: "\<forall>i < nS. send_ids ! i = ?mul (fp_scalar R) (?mul (fp_scalar S)
       (xsum (\<lambda>j. dec1 (blocksOfInputs mDelta nS mDim send_inputs ! (i * mDim + j)) XOR
          fp_prf R (blocksOfInputs mDelta nS mDim send_inputs ! (i * mDim + j))) mDim XOR mIdentifiers ?GS ! i))"
    using id_round_ok [OF assms(5,7,6,9) len(1)] by blast
  have mul: "gf_laws ?mul" using assms(4) by (simp add: store_ok_def baxos_ok_def)
  have "recv_ids ! i = send_ids ! j" if h: "i < nR" "j < nS" "near_points mDelta mDim recv_inputs i send_inputs j" for i j
  proof -
    have "recv_ids ! i = ?mul (fp_scalar S) (?mul (fp_scalar R) (mIdentifiers ?GS ! j XOR mIdentifiers ?GR ! i))"
      using v0 h(1) labels_of_near [OF assms(1,2) dec0 h] by simp
    moreover have "send_ids ! j = ?mul (fp_scalar R) (?mul (fp_scalar S) (mIdentifiers ?GR ! i XOR mIdentifiers ?GS ! j))"
      using v1 h(2) labels_of_near [OF assms(1,3) dec1 h(2,1) near_points_sym [OF h(3)]] by simp
    moreover have "?mul a (?mul b c) = ?mul b (?mul a c)" for a b c using mul unfolding gf_laws_def by metis
    ultimately show ?thesis by (simp add: xor.commute)
  qed
  moreover have "fuzzyMap env mDelta mDim S R nS nR send_inputs recv_inputs shares_0 shares_1 = Inr (recv_ids, send_ids)"
    using r0(1) r1(1) by (simp add: fuzzyMap_def)
  ultimately show ?thesis using r0(2) r1(2) by blast
qed

end
