(* ===== verification/Fmap_Demo.thy ===== *)
theory Fmap_Demo
  imports Fmap Ideal_Session
begin

text \<open>
  A run of the fuzzy mapping with one point on each side and stores whose keys
  have places of their own, which shows that the hypotheses of its property can
  hold.
\<close>

definition fmd_env :: fmap_env where
  "fmd_env = \<lparr>fm_crypto = ideal_crypto, fm_init = (\<lambda>n. ideal_init n GF128),
     fm_solve = (\<lambda>_ X v. Inr (slot_table (slot_lookup X v)))\<rparr>"

definition fmd_S :: fmap_party where
  "fmd_S = fmap_setUp 6 [1, 5] [9 XOR (3 AND 1), 7 XOR (3 AND 5)] [8, 4] (\<lambda>x. x + 3) 0 (\<lambda>_ m. m) (\<lambda>_ _. 77) (\<lambda>_. 0) (\<lambda>_. 0)"

definition fmd_R :: fmap_party where
  "fmd_R = fmap_setUp 3 [2, 12] [8 XOR (6 AND 2), 4 XOR (6 AND 12)] [9, 7] (\<lambda>x. x + 5) 0 (\<lambda>_ m. m) (\<lambda>_ _. 33) (\<lambda>_. 0) (\<lambda>_. 0)"

lemma fmd_cells:
  "computeCell 105 10 = 5" "prev_block 5 = 4" "computeCell 96 10 = 4" "prev_block 4 = 3" "mk_block 0 0 = 0"
  using prev_block_nat [of 5] prev_block_nat [of 4] by (simp_all add: computeCell_def mk_block_def)

lemma fmd_column: "column (Suc 0) (Suc 0) 0 [x] = [x]"
  by (simp add: column_def)

lemma fmd_keys:
  "blocksContainInputs (party_ids fmd_S 10 1 1 [105]) = [4, 5]" "length (mAssignments (party_ids fmd_S 10 1 1 [105])) = 2"
  "blocksContainInputs (party_ids fmd_R 10 1 1 [96]) = [3, 4]" "length (mAssignments (party_ids fmd_R 10 1 1 [96])) = 2"
  by (simp_all add: party_ids_def getID_def fmd_S_def fmd_R_def fmap_setUp_def Let_def dim_labels_def fmd_column
      id_step_def fmd_cells emplace_def fill_pairs_def)

lemma fmd_store:
  assumes "distinct (map slot X)" "length v = length X"
  shows "store_ok fmd_env (fm_init fmd_env n seed) X v"
  using ideal_ok ideal_solves [OF assms] by (simp add: store_ok_def fmd_env_def)

lemma fmd_slots: "distinct (map slot [4, 5])" "distinct (map slot [3, 4])"
  by (simp_all add: slot_def slots_def)

lemma fmd_parties: "party_ok fmd_S 10 1 1 [105]" "party_ok fmd_R 10 1 1 [96]"
  by (simp_all add: party_ok_def inputs_ok_def bridges_ok_def walk_ok_def fmd_S_def fmd_R_def fmap_setUp_def fmd_column)

lemma fmd_masks: "mask_shares_ok (gfMul (fm_crypto fmd_env)) fmd_R fmd_S (1 + 1)"
  "mask_shares_ok (gfMul (fm_crypto fmd_env)) fmd_S fmd_R (1 + 1)"
  by (auto simp: mask_shares_ok_def fmd_env_def ideal_crypto_def fmd_S_def fmd_R_def fmap_setUp_def less_Suc_eq numeral_2_eq_2)

definition fmd_shares :: "fmap_party \<Rightarrow> block \<Rightarrow> block list \<times> block list" where
  "fmd_shares owner x = ([9], [fp_prf owner (blocksOfInputs 10 1 1 [x] ! 0) XOR 9])"

lemma fmd_prf: "prf_shares_ok p (blocksOfInputs 10 1 1 [x]) (fst (fmd_shares p x)) (snd (fmd_shares p x))"
  by (simp add: prf_shares_ok_def fmd_shares_def blocksOfInputs_def xor_ac)

text \<open>The points 96 and 105 are within the radius 10, in different cells, and get the same identifier.\<close>
theorem fuzzyMap_near_witness:
  "\<exists>recv_ids send_ids.
    fuzzyMap fmd_env 10 1 fmd_S fmd_R 1 1 [105] [96] (fmd_shares fmd_S 96) (fmd_shares fmd_R 105) = Inr (recv_ids, send_ids) \<and>
    recv_ids ! 0 = send_ids ! 0"
proof -
  have st: "store_ok fmd_env (fm_init fmd_env (2 * 1 * 1) seed)
      (blocksContainInputs (party_ids fmd_S 10 1 1 [105])) (mAssignments (party_ids fmd_S 10 1 1 [105]))"
    "store_ok fmd_env (fm_init fmd_env (2 * 1 * 1) seed)
      (blocksContainInputs (party_ids fmd_R 10 1 1 [96])) (mAssignments (party_ids fmd_R 10 1 1 [96]))" for seed
    using fmd_slots fmd_keys by (auto intro!: fmd_store)
  have "near_points 10 1 [96] 0 [105] 0" by (simp add: near_points_def)
  then show ?thesis
    using fuzzyMap_near [OF _ fmd_parties st fmd_masks fmd_prf fmd_prf] by fastforce
qed

end
