(* ===== verification/Ufmap_Id.thy ===== *)
theory Ufmap_Id
  imports Fmap_Id
begin

text \<open>
  fpsi/ufmap/ufmap.cpp, the local part of the unique fuzzy mapping: the block that a
  coordinate is labelled under, the two blocks a query may be labelled under, and
  \<open>getID\<close>, which gives every block a random 64-bit label and fills the store of
  every dimension up to the number of points.
\<close>

section \<open>Blocks of a coordinate\<close>

definition fromLow64 :: "u64 \<Rightarrow> block" where
  "fromLow64 value = mk_block 0 value"

definition cell2Delta :: "block \<Rightarrow> u64 \<Rightarrow> u64" where
  "cell2Delta input delta = (let width = 2 * delta in if width \<noteq> 0 then low64 input div width else 0)"

definition canonicalBlock4Delta :: "block \<Rightarrow> u64 \<Rightarrow> u64" where
  "canonicalBlock4Delta input delta =
     (let value = low64 input; width = 2 * delta
      in if width \<noteq> 0 then (if value \<ge> delta then (value - delta) div width else 0) else 0)"

definition coordinateBlock :: "u64 \<Rightarrow> u64 \<Rightarrow> block" where
  "coordinateBlock coordinate cell = mk_block coordinate 0 XOR fromLow64 cell"

text \<open>\<open>left\<close>: the cell of the value two radii below.\<close>
definition left2Delta :: "block \<Rightarrow> u64 \<Rightarrow> u64" where
  "left2Delta input delta =
     (let value = low64 input; width = 2 * delta
      in if width \<noteq> 0 \<and> value \<ge> width then (value - width) div width else 0)"

definition candidateBlocks :: "block \<Rightarrow> u64 \<Rightarrow> u64 \<Rightarrow> block \<times> block" where
  "candidateBlocks input coordinate delta =
     (coordinateBlock coordinate (cell2Delta input delta), coordinateBlock coordinate (left2Delta input delta))"

text \<open>\<open>computeBlock2\<close>, the origin that the sender keeps.\<close>
definition computeBlock2 :: "block \<Rightarrow> u64 \<Rightarrow> block" where
  "computeBlock2 input delta = fromLow64 (canonicalBlock4Delta input delta)"

section \<open>Labels\<close>

text \<open>One point of dimension \<open>i\<close>: \<open>rnd\<close> is the label it draws if its block is new.\<close>
definition uid_step :: "u64 \<Rightarrow> u64 \<Rightarrow> u64 \<Rightarrow> block \<Rightarrow> labels \<Rightarrow> labels \<times> block" where
  "uid_step i delta rnd input labels =
     (let label = coordinateBlock i (canonicalBlock4Delta input delta)
      in case map_of labels label of
           Some v \<Rightarrow> (labels, v)
         | None \<Rightarrow> (emplace label (fromLow64 rnd) labels, fromLow64 rnd))"

fun uid_loop :: "u64 \<Rightarrow> u64 \<Rightarrow> (nat \<Rightarrow> u64) \<Rightarrow> nat \<Rightarrow> block list \<Rightarrow> labels \<Rightarrow> labels \<times> block list" where
  "uid_loop i delta rnd k [] m = (m, [])"
| "uid_loop i delta rnd k (x # xs) m =
     (let (m, v) = uid_step i delta (rnd k) x m; (m, vs) = uid_loop i delta rnd (Suc k) xs m in (m, v # vs))"

text \<open>
  The loop that adds dummies; \<open>draw c\<close> is the \<open>c\<close>-th block it draws, a taken
  dummy costs one draw and a new one two.  It runs as long as the draws repeat.
\<close>
partial_function (option) pad_loop ::
  "block \<Rightarrow> nat \<Rightarrow> (nat \<Rightarrow> block) \<Rightarrow> nat \<Rightarrow> labels \<Rightarrow> block list \<Rightarrow> block list \<Rightarrow> (block list \<times> block list) option" where
  "pad_loop coord size' draw c labels keys vals =
     (if length keys < size' then
        (let dummy = draw c XOR coord
         in if map_of labels dummy \<noteq> None then pad_loop coord size' draw (c + 1) labels keys vals
            else pad_loop coord size' draw (c + 2) (emplace dummy 0 labels) (keys @ [dummy]) (vals @ [draw (c + 1)]))
      else Some (keys, vals))"

record encoded_set =
  es_ids :: "block list"
  es_keys :: "block list list"
  es_values :: "block list list"

definition uid_dim :: "u64 \<Rightarrow> (nat \<Rightarrow> nat \<Rightarrow> u64) \<Rightarrow> nat \<Rightarrow> nat \<Rightarrow> block list \<Rightarrow> nat \<Rightarrow> labels \<times> block list" where
  "uid_dim delta rnd n dim inputs i = uid_loop (of_nat i) delta (rnd i) 0 (column n dim i inputs) []"

text \<open>The keys and masked values of a dimension: the labels in the order of the hash map, then dummies.\<close>
definition uid_pairs ::
  "(block \<Rightarrow> block) \<Rightarrow> (nat \<Rightarrow> labels \<Rightarrow> labels) \<Rightarrow> (nat \<Rightarrow> nat \<Rightarrow> block) \<Rightarrow> nat \<Rightarrow> nat \<Rightarrow> labels \<Rightarrow> (block list \<times> block list) option" where
  "uid_pairs prf iter draw n i labels =
     pad_loop (mk_block (of_nat i) 0) n (draw i) 0 labels
       (map fst (iter i labels)) (map (\<lambda>kv. snd kv XOR prf (fst kv)) (iter i labels))"

fun mapO :: "('a \<Rightarrow> 'b option) \<Rightarrow> 'a list \<Rightarrow> 'b list option" where
  "mapO f [] = Some []"
| "mapO f (x # xs) = (case f x of None \<Rightarrow> None | Some y \<Rightarrow> map_option ((#) y) (mapO f xs))"

definition u_getID ::
  "(block \<Rightarrow> block) \<Rightarrow> (nat \<Rightarrow> labels \<Rightarrow> labels) \<Rightarrow> (nat \<Rightarrow> nat \<Rightarrow> u64) \<Rightarrow> (nat \<Rightarrow> nat \<Rightarrow> block) \<Rightarrow>
   u64 \<Rightarrow> nat \<Rightarrow> nat \<Rightarrow> block list \<Rightarrow> encoded_set option" where
  "u_getID prf iter rnd draw delta n dim inputs =
     (let dims = map (uid_dim delta rnd n dim inputs) [0..<dim]
      in map_option (\<lambda>pairs.
           \<lparr>es_ids = map (\<lambda>k. fold (\<lambda>i s. s XOR snd (dims ! i) ! k) [0..<dim] 0) [0..<n],
            es_keys = map fst pairs, es_values = map snd pairs\<rparr>)
         (mapO (\<lambda>i. uid_pairs prf iter draw n i (fst (dims ! i))) [0..<dim]))"

section \<open>Blocks as numbers\<close>

lemma canonical_nat:
  assumes "0 < unat delta" "unat delta < 2 ^ 63"
  shows "unat (canonicalBlock4Delta x delta) = (unat (low64 x) - unat delta) div (2 * unat delta)"
proof -
  have w: "unat (2 * delta) = 2 * unat delta" using assms by (simp add: unat_word_ariths)
  then have "2 * delta \<noteq> 0" using assms(1) by (metis nat_0_less_mult_iff unat_0 zero_less_numeral less_irrefl)
  then show ?thesis
    by (auto simp: canonicalBlock4Delta_def Let_def unat_div unat_sub_le word_le_nat_alt w)
qed

lemma cell_nat:
  assumes "0 < unat delta" "unat delta < 2 ^ 63"
  shows "unat (cell2Delta x delta) = unat (low64 x) div (2 * unat delta)"
proof -
  have w: "unat (2 * delta) = 2 * unat delta" using assms by (simp add: unat_word_ariths)
  then have "2 * delta \<noteq> 0" using assms(1) by (metis nat_0_less_mult_iff unat_0 zero_less_numeral less_irrefl)
  then show ?thesis by (simp add: cell2Delta_def Let_def unat_div w)
qed

lemma left_nat:
  assumes "0 < unat delta" "unat delta < 2 ^ 63"
  shows "unat (left2Delta x delta) = unat (low64 x) div (2 * unat delta) - 1"
proof -
  have w: "unat (2 * delta) = 2 * unat delta" using assms by (simp add: unat_word_ariths)
  then have nz: "2 * delta \<noteq> 0" using assms(1) by (metis nat_0_less_mult_iff unat_0 zero_less_numeral less_irrefl)
  show ?thesis
  proof (cases "low64 x \<ge> 2 * delta")
    case True
    then have "2 * unat delta \<le> unat (low64 x)" by (simp add: word_le_nat_alt w)
    then have "(unat (low64 x) - 2 * unat delta) div (2 * unat delta) = unat (low64 x) div (2 * unat delta) - 1"
      using assms(1) by (simp add: le_div_geq)
    then show ?thesis using True nz by (simp add: left2Delta_def Let_def unat_div unat_sub_le w)
  next
    case False
    then have "unat (low64 x) < 2 * unat delta" by (simp add: word_le_nat_alt w)
    then have "unat (low64 x) div (2 * unat delta) = 0" by simp
    then show ?thesis using False by (simp add: left2Delta_def)
  qed
qed

text \<open>The block of a value near a point is one of the point's candidates.\<close>
lemma canonical_candidate:
  assumes d: "0 < unat delta" "unat delta < 2 ^ 63"
    and near: "unat (low64 x) \<le> unat (low64 y) + unat delta" "unat (low64 y) \<le> unat (low64 x) + unat delta"
  shows "coordinateBlock c (canonicalBlock4Delta x delta) = fst (candidateBlocks y c delta) \<or>
    coordinateBlock c (canonicalBlock4Delta x delta) = snd (candidateBlocks y c delta)"
proof -
  have "unat (canonicalBlock4Delta x delta) = unat (cell2Delta y delta) \<or>
      unat (canonicalBlock4Delta x delta) = unat (left2Delta y delta)"
    using near_cells [OF near d(1)] by (simp only: left_nat [OF d] cell_nat [OF d] canonical_nat [OF d])
  then have "canonicalBlock4Delta x delta = cell2Delta y delta \<or> canonicalBlock4Delta x delta = left2Delta y delta"
    by (simp only: word_unat_eq_iff)
  then show ?thesis by (auto simp: candidateBlocks_def)
qed

text \<open>Below two radii the candidates are the same block.\<close>
lemma small_candidates:
  assumes "0 < unat delta" "unat delta < 2 ^ 63" "unat (low64 x) < 2 * unat delta"
  shows "fst (candidateBlocks x c delta) = snd (candidateBlocks x c delta)"
proof -
  have "unat (cell2Delta x delta) = unat (left2Delta x delta)"
    using assms(3) by (simp add: left_nat [OF assms(1,2)] cell_nat [OF assms(1,2)])
  then have "cell2Delta x delta = left2Delta x delta" by (simp only: word_unat_eq_iff)
  then show ?thesis by (simp add: candidateBlocks_def)
qed

section \<open>What the labels are\<close>

text \<open>A label has nothing in its upper half.\<close>
definition low_values :: "labels \<Rightarrow> bool" where
  "low_values m \<longleftrightarrow> (\<forall>kv \<in> set m. \<exists>r. snd kv = fromLow64 r)"

lemma uid_step_ok:
  assumes "uid_step i delta r x m = (m', v)"
  shows "map_of m' (coordinateBlock i (canonicalBlock4Delta x delta)) = Some v"
    and "map_of m k = Some w \<Longrightarrow> map_of m' k = Some w"
    and "distinct (map fst m) \<Longrightarrow> distinct (map fst m')" "low_values m \<Longrightarrow> low_values m'" "length m' \<le> Suc (length m)"
  using assms
  by (auto simp: uid_step_def Let_def map_of_emplace distinct_emplace keys_emplace split: option.splits)
    (auto simp: low_values_def emplace_def split: option.splits)

lemma uid_loop_Cons:
  assumes "uid_loop i delta rnd k (x # xs) m = (m', vs)"
  obtains m1 v vs1 where "uid_step i delta (rnd k) x m = (m1, v)" "uid_loop i delta rnd (Suc k) xs m1 = (m', vs1)" "vs = v # vs1"
  using assms by (auto split: prod.splits)

lemma uid_loop_keeps:
  "uid_loop i delta rnd k xs m = (m', vs) \<Longrightarrow> length vs = length xs \<and> length m' \<le> length m + length xs \<and>
    (\<forall>b w. map_of m b = Some w \<longrightarrow> map_of m' b = Some w) \<and>
    (distinct (map fst m) \<longrightarrow> distinct (map fst m')) \<and> (low_values m \<longrightarrow> low_values m')"
proof (induction xs arbitrary: k m vs)
  case (Cons x xs)
  from uid_loop_Cons [OF Cons.prems] obtain m1 v vs1 where run:
    "uid_step i delta (rnd k) x m = (m1, v)" "uid_loop i delta rnd (Suc k) xs m1 = (m', vs1)" "vs = v # vs1" .
  note st = uid_step_ok [OF run(1)] and IH = Cons.IH [OF run(2)]
  have "\<forall>b w. map_of m b = Some w \<longrightarrow> map_of m' b = Some w" using st(2) IH by blast
  moreover have "length m' \<le> length m + length (x # xs)" using st(5) IH by simp
  ultimately show ?case using st(3,4) IH run(3) by auto
qed simp

lemma uid_loop_labels:
  "uid_loop i delta rnd k xs m = (m', vs) \<Longrightarrow> j < length xs \<Longrightarrow>
    map_of m' (coordinateBlock i (canonicalBlock4Delta (xs ! j) delta)) = Some (vs ! j)"
proof (induction xs arbitrary: k m vs j)
  case (Cons x xs)
  from uid_loop_Cons [OF Cons.prems(1)] obtain m1 v vs1 where run:
    "uid_step i delta (rnd k) x m = (m1, v)" "uid_loop i delta rnd (Suc k) xs m1 = (m', vs1)" "vs = v # vs1" .
  show ?case
  proof (cases j)
    case 0
    then show ?thesis using uid_step_ok(1) [OF run(1)] uid_loop_keeps [OF run(2)] run(3) by simp
  next
    case (Suc t)
    then show ?thesis using Cons.IH [OF run(2), of t] Cons.prems(2) run(3) by simp
  qed
qed simp

section \<open>The padding\<close>

text \<open>What the padding keeps: the pairs that are there stay in front, the keys stay different.\<close>
definition pad_inv :: "nat \<Rightarrow> block list \<Rightarrow> block list \<Rightarrow> block list \<times> block list \<Rightarrow> bool" where
  "pad_inv n keys vals res \<longleftrightarrow>
     length (fst res) = n \<and> length (snd res) = n \<and> distinct (fst res) \<and>
     take (length keys) (fst res) = keys \<and> take (length vals) (snd res) = vals"

lemma pad_inv_snoc: "length keys < n \<Longrightarrow> length keys = length vals \<Longrightarrow> pad_inv n (keys @ [k]) (vals @ [v]) res \<Longrightarrow> pad_inv n keys vals res"
proof -
  assume a: "length keys < n" "length keys = length vals" "pad_inv n (keys @ [k]) (vals @ [v]) res"
  have "take (length ys) xs = ys" if "take (length (ys @ [y])) xs = ys @ [y]" for xs ys and y :: block
    using arg_cong [OF that, of "take (length ys)"] by simp
  then show ?thesis using a(3) unfolding pad_inv_def by blast
qed

lemma pad_loop_ok:
  "pad_loop coord n draw c labels keys vals = Some res \<Longrightarrow> length keys = length vals \<longrightarrow> length keys \<le> n \<longrightarrow>
    distinct keys \<longrightarrow> set keys = set (map fst labels) \<longrightarrow> pad_inv n keys vals res"
proof (induction rule: pad_loop.raw_induct [rotated, consumes 1])
  case (1 pad coord n draw c labels keys vals res)
  show ?case
  proof (intro impI)
    assume a: "length keys = length vals" "length keys \<le> n" "distinct keys" "set keys = set (map fst labels)"
    consider (stop) "length keys = n" | (skip) "length keys < n" "map_of labels (draw c XOR coord) \<noteq> None"
      | (new) "length keys < n" "map_of labels (draw c XOR coord) = None"
      using a(2) by fastforce
    then show "pad_inv n keys vals res"
    proof cases
      case stop
      then have "res = (keys, vals)" using 1(2) by simp
      then show ?thesis using stop a by (simp add: pad_inv_def)
    next
      case skip
      then have "pad coord n draw (c + 1) labels keys vals = Some res" using 1(2) by (simp add: Let_def)
      from 1(1) [OF this] show ?thesis using a by blast
    next
      case new
      then have run: "pad coord n draw (c + 2) (emplace (draw c XOR coord) 0 labels) (keys @ [draw c XOR coord]) (vals @ [draw (c + 1)]) = Some res"
        using 1(2) by (simp add: Let_def)
      have nk: "draw c XOR coord \<notin> set keys" using new(2) a(4) by (simp add: map_of_eq_None_iff)
      have "pad_inv n (keys @ [draw c XOR coord]) (vals @ [draw (c + 1)]) res"
        using 1(1) [OF run] a new(1) nk by (simp del: set_map add: keys_emplace(1))
      then show ?thesis by (rule pad_inv_snoc [OF new(1) a(1)])
    qed
  qed
qed

text \<open>The draws leave every list of at most \<open>n\<close> blocks again and again.\<close>
definition fresh_draws :: "nat \<Rightarrow> (nat \<Rightarrow> block) \<Rightarrow> bool" where
  "fresh_draws n draw \<longleftrightarrow> (\<forall>L c. length L \<le> n \<longrightarrow> (\<exists>d \<ge> c. draw d \<notin> set L))"

lemma pad_loop_skip:
  assumes "length keys < n" "c \<le> d" "draw d XOR coord \<notin> set (map fst labels)"
  shows "\<exists>d. draw d XOR coord \<notin> set (map fst labels) \<and>
    pad_loop coord n draw c labels keys vals = pad_loop coord n draw d labels keys vals"
  using assms(2,3)
proof (induction "d - c" arbitrary: c)
  case 0
  then show ?case by auto
next
  case (Suc k)
  show ?case
  proof (cases "draw c XOR coord \<in> set (map fst labels)")
    case True
    then have "map_of labels (draw c XOR coord) \<noteq> None" by (auto simp: map_of_eq_None_iff)
    then have "pad_loop coord n draw c labels keys vals = pad_loop coord n draw (c + 1) labels keys vals"
      using assms(1) by (subst pad_loop.simps) (simp add: Let_def)
    then show ?thesis using Suc(1) [of "c + 1"] Suc(2-) by auto
  qed blast
qed

lemma pad_loop_returns:
  assumes fresh: "fresh_draws n draw"
  shows "length labels \<le> n \<Longrightarrow> length keys = length labels \<Longrightarrow> \<exists>res. pad_loop coord n draw c labels keys vals = Some res"
proof (induction "n - length keys" arbitrary: c labels keys vals)
  case 0
  then show ?case by (subst pad_loop.simps) simp
next
  case (Suc k)
  then have less: "length keys < n" by simp
  obtain d where "c \<le> d" "draw d \<notin> set (map (\<lambda>x. x XOR coord) (map fst labels))"
    using fresh Suc.prems unfolding fresh_draws_def by (metis length_map)
  then have "draw d XOR coord \<notin> set (map fst labels)" by (force simp: image_iff xor.assoc)
  then obtain d where new: "draw d XOR coord \<notin> set (map fst labels)"
    and eq: "pad_loop coord n draw c labels keys vals = pad_loop coord n draw d labels keys vals"
    using pad_loop_skip [where draw = draw and labels = labels, OF less \<open>c \<le> d\<close>] by blast
  have none: "map_of labels (draw d XOR coord) = None" using new by (simp add: map_of_eq_None_iff)
  then have "length (emplace (draw d XOR coord) 0 labels) = Suc (length labels)" by (simp add: emplace_def)
  then have "\<exists>res. pad_loop coord n draw (d + 2) (emplace (draw d XOR coord) 0 labels)
      (keys @ [draw d XOR coord]) (vals @ [draw (d + 1)]) = Some res"
    using Suc(2-) by (intro Suc(1)) auto
  then show ?case unfolding eq using less none by (subst pad_loop.simps) (simp add: Let_def)
qed

section \<open>What \<open>getID\<close> gives\<close>

lemma mapO_Some:
  "\<forall>x \<in> set xs. f x \<noteq> None \<Longrightarrow> \<exists>ys. mapO f xs = Some ys \<and> length ys = length xs \<and> (\<forall>i < length xs. f (xs ! i) = Some (ys ! i))"
proof (induction xs)
  case (Cons x xs)
  then obtain y ys where "f x = Some y" "mapO f xs = Some ys" "length ys = length xs" "\<forall>i < length xs. f (xs ! i) = Some (ys ! i)"
    by fastforce
  then show ?case by (auto simp: less_Suc_eq_0_disj)
qed simp

text \<open>The label of point \<open>j\<close> in dimension \<open>i\<close>.\<close>
definition u_label :: "u64 \<Rightarrow> (nat \<Rightarrow> nat \<Rightarrow> u64) \<Rightarrow> nat \<Rightarrow> nat \<Rightarrow> block list \<Rightarrow> nat \<Rightarrow> nat \<Rightarrow> block" where
  "u_label delta rnd n dim inputs i j = snd (uid_dim delta rnd n dim inputs i) ! j"

lemma distinct_walk:
  assumes "walk_ok iter" "distinct (map fst m)"
  shows "distinct (map fst (iter i m))"
proof -
  have w: "length (iter i m) = length m" "set (iter i m) = set m" using assms(1) by (auto simp: walk_ok_def)
  have m: "distinct m" "inj_on fst (set m)" using assms(2) by (simp_all add: distinct_map)
  then have "distinct (iter i m)" using w by (metis card_distinct distinct_card)
  then show ?thesis using m(2) w(2) by (simp add: distinct_map)
qed

lemma uid_pairs_ok:
  assumes walk: "walk_ok iter" and fresh: "fresh_draws n draw_i" and draw: "draw i = draw_i"
    and m: "distinct (map fst m)" "length m \<le> n"
  shows "\<exists>ks vs. uid_pairs prf iter draw n i m = Some (ks, vs) \<and> length ks = n \<and> length vs = n \<and> distinct ks \<and>
    (\<forall>k v. map_of m k = Some v \<longrightarrow> (\<exists>t < n. ks ! t = k \<and> vs ! t = v XOR prf k))"
proof -
  let ?ks = "map fst (iter i m)" and ?vs = "map (\<lambda>kv. snd kv XOR prf (fst kv)) (iter i m)"
  have w: "length (iter i m) = length m" "set (iter i m) = set m" using walk by (auto simp: walk_ok_def)
  obtain ks vs where run: "uid_pairs prf iter draw n i m = Some (ks, vs)"
    using pad_loop_returns [OF fresh m(2), of ?ks "mk_block (of_nat i) 0" 0 ?vs] w(1) draw by (auto simp: uid_pairs_def)
  have inv: "pad_inv n ?ks ?vs (ks, vs)"
    using pad_loop_ok [OF run [unfolded uid_pairs_def draw]] w m(2) distinct_walk [OF walk m(1), of i] by simp
  have "\<exists>t < n. ks ! t = k \<and> vs ! t = v XOR prf k" if "map_of m k = Some v" for k v
  proof -
    have "(k, v) \<in> set (iter i m)" using that w(2) by (simp add: map_of_SomeD)
    then obtain t where t: "t < length m" "iter i m ! t = (k, v)" using w(1) by (auto simp: in_set_conv_nth)
    have "ks ! t = take (length ?ks) ks ! t" "vs ! t = take (length ?vs) vs ! t" using t(1) w(1) by simp_all
    then have "ks ! t = ?ks ! t" "vs ! t = ?vs ! t" using inv by (simp_all add: pad_inv_def)
    then have "ks ! t = k" "vs ! t = v XOR prf k" using t w(1) by simp_all
    moreover have "t < n" using t(1) m(2) by simp
    ultimately show ?thesis by blast
  qed
  then show ?thesis using run inv by (auto simp: pad_inv_def)
qed

lemma uid_dim_ok:
  fixes delta rnd n dim inputs i
  defines "m \<equiv> fst (uid_dim delta rnd n dim inputs i)"
  shows "distinct (map fst m)" "length m \<le> n"
    and "j < n \<Longrightarrow> map_of m (coordinateBlock (of_nat i) (canonicalBlock4Delta (inputs ! (j * dim + i)) delta)) =
      Some (u_label delta rnd n dim inputs i j)"
    and "j < n \<Longrightarrow> \<exists>r. u_label delta rnd n dim inputs i j = fromLow64 r"
proof -
  obtain m' vs where run: "uid_dim delta rnd n dim inputs i = (m', vs)" by fastforce
  then have m: "m = m'" and lab: "u_label delta rnd n dim inputs i j = vs ! j" by (simp_all add: m_def u_label_def)
  have len: "length (column n dim i inputs) = n" by (simp add: column_def)
  note keeps = uid_loop_keeps [OF run [unfolded uid_dim_def]] and labels = uid_loop_labels [OF run [unfolded uid_dim_def]]
  show "distinct (map fst m)" "length m \<le> n" using keeps len m by simp_all
  assume j: "j < n"
  then have c: "column n dim i inputs ! j = inputs ! (j * dim + i)" by (simp add: column_def)
  show at: "map_of m (coordinateBlock (of_nat i) (canonicalBlock4Delta (inputs ! (j * dim + i)) delta)) =
      Some (u_label delta rnd n dim inputs i j)"
    using labels [of j] j len by (simp only: m lab c)
  have "low_values m" using keeps m by (simp add: low_values_def)
  then show "\<exists>r. u_label delta rnd n dim inputs i j = fromLow64 r"
    using map_of_SomeD [OF at] unfolding low_values_def by force
qed

lemma u_getID_ok:
  assumes d: "0 < unat delta" "unat delta < 2 ^ 63" and walk: "walk_ok iter" and fresh: "\<forall>i < dim. fresh_draws n (draw i)"
  shows "\<exists>G. u_getID prf iter rnd draw delta n dim inputs = Some G \<and>
    length (es_keys G) = dim \<and> length (es_values G) = dim \<and>
    es_ids G = map (\<lambda>k. fold (\<lambda>i s. s XOR u_label delta rnd n dim inputs i k) [0..<dim] 0) [0..<n] \<and>
    (\<forall>i < dim. length (es_keys G ! i) = n \<and> length (es_values G ! i) = n \<and> distinct (es_keys G ! i) \<and>
      (\<forall>j < n. (\<exists>r. u_label delta rnd n dim inputs i j = fromLow64 r) \<and>
        (\<exists>t < n. es_keys G ! i ! t = coordinateBlock (of_nat i) (canonicalBlock4Delta (inputs ! (j * dim + i)) delta) \<and>
          es_values G ! i ! t = u_label delta rnd n dim inputs i j XOR prf (es_keys G ! i ! t))))"
proof -
  let ?dims = "map (uid_dim delta rnd n dim inputs) [0..<dim]"
  let ?f = "\<lambda>i. uid_pairs prf iter draw n i (fst (?dims ! i))"
  have pairs: "\<exists>ks vs. ?f i = Some (ks, vs) \<and> length ks = n \<and> length vs = n \<and> distinct ks \<and>
    (\<forall>k v. map_of (fst (uid_dim delta rnd n dim inputs i)) k = Some v \<longrightarrow> (\<exists>t < n. ks ! t = k \<and> vs ! t = v XOR prf k))"
    if "i < dim" for i
    using uid_pairs_ok [where draw = draw and i = i, OF walk fresh [rule_format, OF that] refl uid_dim_ok(1,2)] that by simp
  have "\<forall>i \<in> set [0..<dim]. ?f i \<noteq> None"
  proof
    fix i assume "i \<in> set [0..<dim]"
    then show "?f i \<noteq> None" using pairs [of i] by auto
  qed
  then obtain ps where ps: "mapO ?f [0..<dim] = Some ps" "length ps = dim" "\<forall>i < dim. ?f i = Some (ps ! i)"
    using mapO_Some [of "[0..<dim]" ?f] by auto
  have each: "length (fst (ps ! i)) = n \<and> length (snd (ps ! i)) = n \<and> distinct (fst (ps ! i)) \<and>
    (\<forall>k v. map_of (fst (uid_dim delta rnd n dim inputs i)) k = Some v \<longrightarrow> (\<exists>t < n. fst (ps ! i) ! t = k \<and> snd (ps ! i) ! t = v XOR prf k))"
    if i: "i < dim" for i
  proof -
    obtain ks vs where kv: "?f i = Some (ks, vs)" "length ks = n" "length vs = n" "distinct ks"
      "\<forall>k v. map_of (fst (uid_dim delta rnd n dim inputs i)) k = Some v \<longrightarrow> (\<exists>t < n. ks ! t = k \<and> vs ! t = v XOR prf k)"
      using pairs [OF i] by blast
    then have "ps ! i = (ks, vs)" using ps(3) i by simp
    then show ?thesis using kv by simp
  qed
  let ?G = "\<lparr>es_ids = map (\<lambda>k. fold (\<lambda>i s. s XOR snd (?dims ! i) ! k) [0..<dim] 0) [0..<n], es_keys = map fst ps, es_values = map snd ps\<rparr>"
  have "u_getID prf iter rnd draw delta n dim inputs = Some ?G" unfolding u_getID_def Let_def ps(1) by simp
  moreover have "es_ids ?G = map (\<lambda>k. fold (\<lambda>i s. s XOR u_label delta rnd n dim inputs i k) [0..<dim] 0) [0..<n]"
    by (auto simp: u_label_def intro!: fold_cong)
  moreover have "\<exists>t < n. es_keys ?G ! i ! t = coordinateBlock (of_nat i) (canonicalBlock4Delta (inputs ! (j * dim + i)) delta) \<and>
      es_values ?G ! i ! t = u_label delta rnd n dim inputs i j XOR prf (es_keys ?G ! i ! t)" if ij: "i < dim" "j < n" for i j
  proof -
    obtain t where "t < n" "fst (ps ! i) ! t = coordinateBlock (of_nat i) (canonicalBlock4Delta (inputs ! (j * dim + i)) delta)"
      "snd (ps ! i) ! t = u_label delta rnd n dim inputs i j XOR prf (coordinateBlock (of_nat i) (canonicalBlock4Delta (inputs ! (j * dim + i)) delta))"
      using each [OF ij(1)] uid_dim_ok(3) [where delta = delta and rnd = rnd and dim = dim and inputs = inputs and i = i, OF ij(2)] by blast
    then show ?thesis using ij(1) ps(2) by auto
  qed
  ultimately show ?thesis using each ps(2) uid_dim_ok(4) by (intro exI [of _ ?G] conjI allI impI) simp_all
qed

section \<open>Properties\<close>

text \<open>C39. \<open>getID\<close> of the unique fuzzy mapping ends when its draws keep leaving any list of at most as many
  blocks as the party has points; then every dimension has as many keys, all different, and values as
  points, the identifiers are the sums of the labels, labels have nothing in their upper half, and for
  a value within the radius of a point one of the two candidates of the value is a key whose entry is the
  label of the point under the pseudo random function.\<close>
theorem u_getID_encodes:
  assumes "0 < unat delta" "unat delta < 2 ^ 63" "walk_ok iter" "\<forall>i < dim. fresh_draws n (draw i)"
  shows "\<exists>G. u_getID prfun iter rnd draw delta n dim inputs = Some G \<and>
    length (es_keys G) = dim \<and> length (es_values G) = dim \<and>
    es_ids G = map (\<lambda>k. fold (\<lambda>i s. s XOR u_label delta rnd n dim inputs i k) [0..<dim] 0) [0..<n] \<and>
    (\<forall>i < dim. length (es_keys G ! i) = n \<and> length (es_values G ! i) = n \<and> distinct (es_keys G ! i) \<and>
      (\<forall>j < n. (\<exists>r. u_label delta rnd n dim inputs i j = fromLow64 r) \<and>
        (\<forall>x. unat (low64 x) \<le> unat (low64 (inputs ! (j * dim + i))) + unat delta \<longrightarrow>
          unat (low64 (inputs ! (j * dim + i))) \<le> unat (low64 x) + unat delta \<longrightarrow>
          (\<exists>t < n. es_keys G ! i ! t \<in> {fst (candidateBlocks x (of_nat i) delta), snd (candidateBlocks x (of_nat i) delta)} \<and>
            es_values G ! i ! t = u_label delta rnd n dim inputs i j XOR prfun (es_keys G ! i ! t)))))"
proof -
  obtain G where G: "u_getID prfun iter rnd draw delta n dim inputs = Some G" "length (es_keys G) = dim" "length (es_values G) = dim"
    "es_ids G = map (\<lambda>k. fold (\<lambda>i s. s XOR u_label delta rnd n dim inputs i k) [0..<dim] 0) [0..<n]"
    "\<forall>i < dim. length (es_keys G ! i) = n \<and> length (es_values G ! i) = n \<and> distinct (es_keys G ! i) \<and>
      (\<forall>j < n. (\<exists>r. u_label delta rnd n dim inputs i j = fromLow64 r) \<and>
        (\<exists>t < n. es_keys G ! i ! t = coordinateBlock (of_nat i) (canonicalBlock4Delta (inputs ! (j * dim + i)) delta) \<and>
          es_values G ! i ! t = u_label delta rnd n dim inputs i j XOR prfun (es_keys G ! i ! t)))"
    using u_getID_ok [OF assms, of prfun rnd inputs] by blast
  have "\<exists>t < n. es_keys G ! i ! t \<in> {fst (candidateBlocks x (of_nat i) delta), snd (candidateBlocks x (of_nat i) delta)} \<and>
      es_values G ! i ! t = u_label delta rnd n dim inputs i j XOR prfun (es_keys G ! i ! t)"
    if h: "i < dim" "j < n" and near: "unat (low64 x) \<le> unat (low64 (inputs ! (j * dim + i))) + unat delta"
      "unat (low64 (inputs ! (j * dim + i))) \<le> unat (low64 x) + unat delta" for i j x
  proof -
    obtain t where "t < n" "es_keys G ! i ! t = coordinateBlock (of_nat i) (canonicalBlock4Delta (inputs ! (j * dim + i)) delta)"
      "es_values G ! i ! t = u_label delta rnd n dim inputs i j XOR prfun (es_keys G ! i ! t)" using G(5) h by blast
    then show ?thesis using canonical_candidate [OF assms(1,2) near(2,1), of "of_nat i"] by auto
  qed
  then show ?thesis using G by (intro exI [of _ G]) simp
qed

text \<open>Two points of one block: one label and one dummy.\<close>
lemma fresh_of_nat: "fresh_draws 2 of_nat"
  unfolding fresh_draws_def
proof (intro allI impI)
  fix L :: "block list" and c :: nat
  assume L: "length L \<le> 2"
  have "card {of_nat c, of_nat c + 1, of_nat c + 2 :: block} = 3" by simp
  moreover have "card {of_nat c, of_nat c + 1, of_nat c + 2 :: block} \<le> 2" if sub: "{of_nat c, of_nat c + 1, of_nat c + 2} \<subseteq> set L"
  proof -
    have "card {of_nat c, of_nat c + 1, of_nat c + 2 :: block} \<le> card (set L)" using sub by (rule card_mono [OF List.finite_set])
    also have "\<dots> \<le> length L" by (rule card_length)
    finally show ?thesis using L by linarith
  qed
  ultimately have "\<not> {of_nat c, of_nat c + 1, of_nat c + 2} \<subseteq> set L" by fastforce
  then have "\<exists>d \<in> {c, c + 1, c + 2}. (of_nat d :: block) \<notin> set L" by (auto simp: add.commute)
  then obtain d where d: "d \<in> {c, c + 1, c + 2}" "(of_nat d :: block) \<notin> set L" by blast
  then have "c \<le> d" by auto
  then show "\<exists>d \<ge> c. of_nat d \<notin> set L" using d(2) by blast
qed

lemma u_getID_encodes_witness:
  "\<exists>G. u_getID (\<lambda>x. x) (\<lambda>_ m. m) (\<lambda>i k. of_nat k) (\<lambda>_. of_nat) 10 2 1 [105, 96] = Some G \<and> length (es_keys G ! 0) = 2 \<and>
    (\<exists>t < 2. es_keys G ! 0 ! t \<in> {fst (candidateBlocks 100 0 10), snd (candidateBlocks 100 0 10)})"
proof -
  have l: "low64 100 = 100" "low64 105 = 105" using lanes_of_nat(1) [of 100] lanes_of_nat(1) [of 105] by simp_all
  obtain G where G: "u_getID (\<lambda>x. x) (\<lambda>_ m. m) (\<lambda>i k. of_nat k) (\<lambda>_. of_nat) 10 2 1 [105, 96] = Some G"
    and each: "\<forall>i < 1. length (es_keys G ! i) = 2 \<and> length (es_values G ! i) = 2 \<and> distinct (es_keys G ! i) \<and>
      (\<forall>j < 2. (\<exists>r. u_label 10 (\<lambda>i k. of_nat k) 2 1 [105, 96] i j = fromLow64 r) \<and>
        (\<forall>x. unat (low64 x) \<le> unat (low64 ([105, 96] ! (j * 1 + i))) + unat (10 :: u64) \<longrightarrow>
          unat (low64 ([105, 96] ! (j * 1 + i))) \<le> unat (low64 x) + unat (10 :: u64) \<longrightarrow>
          (\<exists>t < 2. es_keys G ! i ! t \<in> {fst (candidateBlocks x (of_nat i) 10), snd (candidateBlocks x (of_nat i) 10)} \<and>
            es_values G ! i ! t = u_label 10 (\<lambda>i k. of_nat k) 2 1 [105, 96] i j XOR es_keys G ! i ! t)))"
    using u_getID_encodes [of 10 "\<lambda>_ m. m" 1 2 "\<lambda>_. of_nat" "\<lambda>x. x" "\<lambda>i k. of_nat k" "[105, 96]"] fresh_of_nat
    unfolding walk_ok_def by fastforce
  have "length (es_keys G ! 0) = 2" using each by simp
  moreover have "\<exists>t < 2. es_keys G ! 0 ! t \<in> {fst (candidateBlocks 100 0 10), snd (candidateBlocks 100 0 10)}"
    using each [rule_format, of 0, THEN conjunct2, THEN conjunct2, THEN conjunct2, rule_format, of 0, THEN conjunct2, rule_format, of 100] l
    by auto
  ultimately show ?thesis using G by blast
qed

end
