(* ===== verification/Gf_Matrix.thy ===== *)
theory Gf_Matrix
  imports Paxos_Decode
begin

text \<open>
  fpsi/opprf/PaxosImpl.h: the inverse of an element and of a matrix over GF(2^128),
  \<open>gf128Inv\<close>.  The product is a function of the crypto library and an argument; the
  unit is \<open>oc::OneBlock\<close>, the block 1.  A matrix is the list of its rows.
\<close>

section \<open>The code\<close>

text \<open>The addition chain for \<open>x ^ (2 ^ 128 - 2)\<close>: round \<open>i\<close> squares \<open>2 ^ i\<close> times.\<close>
definition inv_round :: "(block \<Rightarrow> block \<Rightarrow> block) \<Rightarrow> nat \<Rightarrow> block \<times> block \<Rightarrow> block \<times> block" where
  "inv_round mul i st =
     (let (a, result) = st; b = ((\<lambda>b. mul b b) ^^ (2 ^ i)) a
      in (mul a b, if i = 0 then b else mul result b))"

definition gf128Inv :: "(block \<Rightarrow> block \<Rightarrow> block) \<Rightarrow> block \<Rightarrow> block" where
  "gf128Inv mul x = snd (fold (inv_round mul) [0..<7] (x, 0))"

definition swap_rows :: "nat \<Rightarrow> nat \<Rightarrow> block list list \<Rightarrow> block list list" where
  "swap_rows i j M = M[i := M ! j, j := M ! i]"

text \<open>If the diagonal entry is zero, swap with the first lower row whose entry is \<open>OneBlock\<close>.\<close>
definition find_pivot :: "nat \<Rightarrow> nat \<Rightarrow> block list list \<times> block list list \<Rightarrow> block list list \<times> block list list" where
  "find_pivot n i st =
     (let (mtx, Inv) = st
      in if mtx ! i ! i = 0
         then (case find (\<lambda>j. mtx ! j ! i = 1) [i + 1..<n] of
                 Some j \<Rightarrow> (swap_rows i j mtx, swap_rows i j Inv)
               | None \<Rightarrow> (mtx, Inv))
         else (mtx, Inv))"

definition scale_row :: "(block \<Rightarrow> block \<Rightarrow> block) \<Rightarrow> nat \<Rightarrow> block \<Rightarrow> block list list \<Rightarrow> block list list" where
  "scale_row mul i v M = M[i := map (\<lambda>x. mul x v) (M ! i)]"

definition add_row :: "(block \<Rightarrow> block \<Rightarrow> block) \<Rightarrow> nat \<Rightarrow> nat \<Rightarrow> block \<Rightarrow> block list list \<Rightarrow> block list list" where
  "add_row mul i j f M = M[j := map2 (\<lambda>a b. a XOR mul b f) (M ! j) (M ! i)]"

definition clear_row ::
  "(block \<Rightarrow> block \<Rightarrow> block) \<Rightarrow> nat \<Rightarrow> nat \<Rightarrow> block list list \<times> block list list \<Rightarrow> block list list \<times> block list list" where
  "clear_row mul i j st =
     (let (mtx, Inv) = st; mtx_ji = mtx ! j ! i
      in if j \<noteq> i then (add_row mul i j mtx_ji mtx, add_row mul i j mtx_ji Inv) else (mtx, Inv))"

text \<open>Row \<open>i\<close> of the elimination; \<open>None\<close> is the empty matrix the code returns.\<close>
definition inv_step ::
  "(block \<Rightarrow> block \<Rightarrow> block) \<Rightarrow> nat \<Rightarrow> nat \<Rightarrow> block list list \<times> block list list \<Rightarrow> (block list list \<times> block list list) option" where
  "inv_step mul n i st =
     (let (mtx, Inv) = find_pivot n i st
      in if mtx ! i ! i = 0 then None
         else let v = gf128Inv mul (mtx ! i ! i)
              in Some (fold (clear_row mul i) [0..<n] (scale_row mul i v mtx, scale_row mul i v Inv)))"

fun inv_loop ::
  "(block \<Rightarrow> block \<Rightarrow> block) \<Rightarrow> nat \<Rightarrow> nat list \<Rightarrow> block list list \<times> block list list \<Rightarrow> (block list list \<times> block list list) option" where
  "inv_loop mul n [] st = Some st"
| "inv_loop mul n (i # is) st = (case inv_step mul n i st of None \<Rightarrow> None | Some st \<Rightarrow> inv_loop mul n is st)"

definition unit_mtx :: "nat \<Rightarrow> block list list" where
  "unit_mtx n = map (\<lambda>i. map (\<lambda>j. if i = j then 1 else 0) [0..<n]) [0..<n]"

definition gf128Inv_mtx :: "(block \<Rightarrow> block \<Rightarrow> block) \<Rightarrow> block list list \<Rightarrow> block list list option" where
  "gf128Inv_mtx mul mtx = map_option snd (inv_loop mul (length mtx) [0..<length mtx] (mtx, unit_mtx (length mtx)))"

text \<open>\<open>gf128Mul\<close>, the product of two matrices.\<close>
definition gf128Mul_mtx :: "(block \<Rightarrow> block \<Rightarrow> block) \<Rightarrow> nat \<Rightarrow> block list list \<Rightarrow> block list list \<Rightarrow> block list list" where
  "gf128Mul_mtx mul cols m0 m1 =
     map (\<lambda>r. map (\<lambda>j. fold (\<lambda>k v. v XOR mul (r ! k) (m1 ! k ! j)) [0..<length r] 0) [0..<cols]) m0"

section \<open>The inverse of an element\<close>

fun gpow :: "(block \<Rightarrow> block \<Rightarrow> block) \<Rightarrow> block \<Rightarrow> nat \<Rightarrow> block" where
  "gpow mul x 0 = 1"
| "gpow mul x (Suc n) = mul x (gpow mul x n)"

text \<open>A subfield of the product's ring, in which the powers are those of a field of \<open>2 ^ 128\<close> elements.\<close>
definition gf_field :: "(block \<Rightarrow> block \<Rightarrow> block) \<Rightarrow> block set \<Rightarrow> bool" where
  "gf_field mul K \<longleftrightarrow> gf_laws mul \<and> (\<forall>x. mul x 1 = x) \<and> 0 \<in> K \<and> 1 \<in> K \<and>
     (\<forall>x \<in> K. \<forall>y \<in> K. x XOR y \<in> K \<and> mul x y \<in> K) \<and> (\<forall>x \<in> K. x \<noteq> 0 \<longrightarrow> gpow mul x (2 ^ 128 - 1) = 1)"

lemma gf_field_laws:
  assumes "gf_field mul K"
  shows "mul a (b XOR c) = mul a b XOR mul a c" "mul (b XOR c) a = mul b a XOR mul c a" "mul a b = mul b a"
    "mul a (mul b c) = mul (mul a b) c" "mul a 1 = a" "mul 1 a = a" "mul a 0 = 0" "mul 0 a = 0"
proof -
  have l: "mul a (b XOR c) = mul a b XOR mul a c" "mul a b = mul b a" "mul a (mul b c) = mul (mul a b) c" "mul a 1 = a" for a b c
    using assms unfolding gf_field_def gf_laws_def by blast+
  then show "mul a (b XOR c) = mul a b XOR mul a c" "mul (b XOR c) a = mul b a XOR mul c a" "mul a b = mul b a"
    "mul a (mul b c) = mul (mul a b) c" "mul a 1 = a" "mul 1 a = a" by metis+
  have "mul a 0 = 0" for a using l(1) [of a 0 0] by simp
  then show "mul a 0 = 0" "mul 0 a = 0" using l(2) by metis+
qed

lemma gpow_add: "gf_field mul K \<Longrightarrow> gpow mul x (m + n) = mul (gpow mul x m) (gpow mul x n)"
  by (induction m) (simp_all add: gf_field_laws(4,6))

lemma gpow_square: "gf_field mul K \<Longrightarrow> ((\<lambda>b. mul b b) ^^ k) (gpow mul x n) = gpow mul x (n * 2 ^ k)"
proof (induction k)
  case (Suc k)
  have e: "n * 2 ^ Suc k = n * 2 ^ k + n * 2 ^ k" by simp
  show ?case unfolding e gpow_add [OF Suc.prems] using Suc by simp
qed simp

lemma gpow_mult: "gf_field mul K \<Longrightarrow> mul (gpow mul x m) (gpow mul x n) = gpow mul x (m + n)"
  by (simp add: gpow_add)

text \<open>The chain computes the power that inverts.\<close>
lemma gf128Inv_pow:
  assumes "gf_field mul K"
  shows "gf128Inv mul x = gpow mul x (2 ^ 128 - 2)"
proof -
  have rounds: "k \<le> 7 \<Longrightarrow> 0 < k \<Longrightarrow>
    fold (inv_round mul) [0..<k] (x, 0) = (gpow mul x (2 ^ 2 ^ k - 1), gpow mul x (2 ^ 2 ^ k - 2))" for k
  proof (induction k)
    case (Suc k)
    have x: "gpow mul x 1 = x" using gf_field_laws(5) [OF assms] by simp
    show ?case
    proof (cases "k = 0")
      case True
      have "((\<lambda>b. mul b b) ^^ 1) x = gpow mul x 2" using gpow_square [OF assms, of 1 x 1] x by simp
      moreover have "mul x (gpow mul x 2) = gpow mul x 3" by (simp only: numeral_3_eq_3 gpow.simps(2) numeral_2_eq_2)
      ultimately show ?thesis using True by (simp add: inv_round_def Let_def)
    next
      case False
      define N :: nat where "N = 2 ^ 2 ^ k"
      have N: "2 \<le> N" "(2 :: nat) ^ 2 ^ Suc k = N * N"
        using power_increasing [of 1 "2 ^ k" "2 :: nat"] by (simp_all add: N_def power_add [symmetric] mult_2)
      have IH: "fold (inv_round mul) [0..<k] (x, 0) = (gpow mul x (N - 1), gpow mul x (N - 2))"
        using Suc False by (simp add: N_def)
      have sq: "((\<lambda>b. mul b b) ^^ 2 ^ k) (gpow mul x (N - 1)) = gpow mul x ((N - 1) * N)"
        using gpow_square [OF assms] by (simp add: N_def)
      have "N - 1 + (N - 1) * N = N * N - 1" "N - 2 + (N - 1) * N = N * N - 2"
        using N(1) by (auto simp: diff_mult_distrib le_iff_add)
      then have "inv_round mul k (gpow mul x (N - 1), gpow mul x (N - 2)) = (gpow mul x (N * N - 1), gpow mul x (N * N - 2))"
        using False sq by (simp add: inv_round_def gpow_mult [OF assms])
      moreover have "fold (inv_round mul) [0..<Suc k] (x, 0) = inv_round mul k (fold (inv_round mul) [0..<k] (x, 0))" by simp
      ultimately show ?thesis unfolding N(2) using IH by simp
    qed
  qed simp
  have "(2 :: nat) ^ 2 ^ (7 :: nat) = 2 ^ 128" by simp
  then show ?thesis unfolding gf128Inv_def using rounds [of 7] by (metis le_refl snd_conv zero_less_numeral)
qed

lemma gf128Inv_inverse:
  assumes "gf_field mul K" "x \<in> K" "x \<noteq> 0"
  shows "mul x (gf128Inv mul x) = 1"
proof -
  define N :: nat where "N = 2 ^ 128 - 2"
  have "mul x (gpow mul x N) = gpow mul x (Suc N)" by simp
  also have "Suc N = 2 ^ 128 - 1" by (simp add: N_def)
  finally have "mul x (gpow mul x (2 ^ 128 - 2)) = gpow mul x (2 ^ 128 - 1)" by (simp only: N_def)
  then show ?thesis using assms unfolding gf128Inv_pow [OF assms(1)] gf_field_def by metis
qed

lemma gpow_in: "gf_field mul K \<Longrightarrow> x \<in> K \<Longrightarrow> gpow mul x n \<in> K"
  by (induction n) (auto simp: gf_field_def)

section \<open>The inverse of a matrix\<close>

definition row_dot :: "(block \<Rightarrow> block \<Rightarrow> block) \<Rightarrow> block list \<Rightarrow> block list \<Rightarrow> block" where
  "row_dot mul r p = xor_list (map2 mul r p)"

definition mtx_ok :: "nat \<Rightarrow> block list list \<Rightarrow> bool" where
  "mtx_ok n M \<longleftrightarrow> length M = n \<and> (\<forall>j < n. length (M ! j) = n)"

text \<open>Both sides of the elimination as equations in \<open>p\<close>.\<close>
definition lin_sys :: "(block \<Rightarrow> block \<Rightarrow> block) \<Rightarrow> nat \<Rightarrow> block list list \<Rightarrow> block list list \<Rightarrow> block list \<Rightarrow> block list \<Rightarrow> bool" where
  "lin_sys mul n M N p x \<longleftrightarrow> (\<forall>j < n. row_dot mul (M ! j) p = row_dot mul (N ! j) x)"

lemma row_dot_scale:
  assumes "gf_field mul K" "length r = length p"
  shows "row_dot mul (map (\<lambda>x. mul x v) r) p = mul (row_dot mul r p) v"
  using assms(2)
proof (induction r p rule: list_induct2)
  case (Cons a r b p)
  have "mul (mul a v) b = mul (mul a b) v" using gf_field_laws(3,4) [OF assms(1)] by metis
  then show ?case using Cons by (simp add: row_dot_def gf_field_laws(2) [OF assms(1)])
qed (simp add: row_dot_def gf_field_laws(8) [OF assms(1)])

lemma row_dot_add:
  assumes "gf_field mul K" "length r = length p" "length s = length p"
  shows "row_dot mul (map2 (\<lambda>a b. a XOR mul b f) r s) p = row_dot mul r p XOR mul (row_dot mul s p) f"
  using assms(2,3)
proof (induction r s arbitrary: p rule: list_induct2')
  case (4 a r b s)
  then obtain c q where p: "p = c # q" by (cases p) auto
  have "mul (a XOR mul b f) c = mul a c XOR mul (mul b c) f" using gf_field_laws(2-4) [OF assms(1)] by metis
  moreover have "mul (mul b c XOR row_dot mul s q) f = mul (mul b c) f XOR mul (row_dot mul s q) f" by (rule gf_field_laws(2) [OF assms(1)])
  ultimately show ?case using 4 p by (simp add: row_dot_def) (simp only: xor_ac)
qed (simp_all add: row_dot_def gf_field_laws(8) [OF assms(1)])

lemma row_dot_unit:
  assumes f: "gf_field mul K" and i: "i < n" "length p = n"
  shows "row_dot mul (map (\<lambda>j. if i = j then 1 else 0) [0..<n]) p = p ! i"
proof -
  have "row_dot mul (map (\<lambda>j. if i = j then 1 else 0) [0..<m]) (take m p) = (if i < m then p ! i else 0)" if "m \<le> n" for m
    using that
  proof (induction m)
    case (Suc m)
    have "take (Suc m) p = take m p @ [p ! m]" using Suc.prems i(2) by (simp add: take_Suc_conv_app_nth)
    then show ?case using Suc i(2)
      by (simp add: row_dot_def gf_field_laws(6,8) [OF f] less_Suc_eq)
  qed (simp add: row_dot_def)
  from this [of n] show ?thesis using i by simp
qed

text \<open>What row \<open>i\<close> of the elimination finds.\<close>
definition inv_ok :: "(block \<Rightarrow> block \<Rightarrow> block) \<Rightarrow> block set \<Rightarrow> nat \<Rightarrow> block list list \<Rightarrow> nat \<Rightarrow> block list list \<times> block list list \<Rightarrow> bool" where
  "inv_ok mul K n M0 i st \<longleftrightarrow>
     mtx_ok n (fst st) \<and> mtx_ok n (snd st) \<and> (\<forall>j < n. \<forall>k < n. fst st ! j ! k \<in> K) \<and>
     (\<forall>p x. length p = n \<longrightarrow> length x = n \<longrightarrow>
        (lin_sys mul n (fst st) (snd st) p x \<longleftrightarrow> (\<forall>j < n. row_dot mul (M0 ! j) p = x ! j))) \<and>
     (\<forall>a < i. \<forall>j < n. fst st ! j ! a = (if j = a then 1 else 0))"

lemma swap_ok:
  assumes "inv_ok mul K n M0 i (M, N)" "i < j" "j < n"
  shows "inv_ok mul K n M0 i (swap_rows i j M, swap_rows i j N)"
proof -
  have n: "length M = n" "length N = n" using assms(1) by (simp_all add: inv_ok_def mtx_ok_def)
  have nth: "swap_rows i j A ! k = A ! (if k = i then j else if k = j then i else k)" if "length A = n" "k < n" for A k
    using that assms(2,3) by (auto simp: swap_rows_def nth_list_update)
  have "lin_sys mul n (swap_rows i j M) (swap_rows i j N) p x \<longleftrightarrow> lin_sys mul n M N p x" for p x
    unfolding lin_sys_def using nth n assms(2,3) by (smt (verit, ccfv_SIG) less_trans)
  moreover have "mtx_ok n (swap_rows i j A)" if "mtx_ok n A" for A
    using that assms(2,3) nth unfolding mtx_ok_def by (auto simp: swap_rows_def nth_list_update)
  ultimately show ?thesis
    using assms nth n unfolding inv_ok_def by auto
qed

lemma find_pivot_ok:
  assumes "inv_ok mul K n M0 i st" "i < n"
  shows "inv_ok mul K n M0 i (find_pivot n i st)"
proof -
  obtain M N where st: "st = (M, N)" by (cases st)
  show ?thesis
    using assms swap_ok [of mul K n M0 i M N]
    by (auto simp: find_pivot_def st Let_def find_Some_iff split: option.splits)
qed

lemma scale_ok:
  assumes f: "gf_field mul K" and ok: "inv_ok mul K n M0 i (M, N)" and i: "i < n" "M ! i ! i \<noteq> 0"
  defines "v \<equiv> gf128Inv mul (M ! i ! i)"
  shows "inv_ok mul K n M0 i (scale_row mul i v M, scale_row mul i v N)" "scale_row mul i v M ! i ! i = 1"
proof -
  note l = gf_field_laws [OF f]
  have dims: "mtx_ok n M" "mtx_ok n N" and K: "\<forall>j < n. \<forall>k < n. M ! j ! k \<in> K" using ok by (simp_all add: inv_ok_def)
  have len: "length M = n" "length N = n" "j < n \<Longrightarrow> length (M ! j) = n" "j < n \<Longrightarrow> length (N ! j) = n" for j
    using dims by (simp_all add: mtx_ok_def)
  have one: "mul (M ! i ! i) v = 1" unfolding v_def by (rule gf128Inv_inverse [OF f]) (use K i in auto)
  have vK: "v \<in> K" unfolding v_def gf128Inv_pow [OF f] by (rule gpow_in [OF f]) (use K i in auto)
  have inj: "mul a v = mul b v \<longleftrightarrow> a = b" for a b using one l(3-5) by metis
  have "lin_sys mul n (scale_row mul i v M) (scale_row mul i v N) p x \<longleftrightarrow> lin_sys mul n M N p x"
    if "length p = n" "length x = n" for p x
  proof -
    have "row_dot mul (scale_row mul i v M ! j) p = row_dot mul (scale_row mul i v N ! j) x \<longleftrightarrow>
        row_dot mul (M ! j) p = row_dot mul (N ! j) x" if "j < n" for j
      using that i len \<open>length p = n\<close> \<open>length x = n\<close>
      by (cases "j = i") (simp_all add: scale_row_def row_dot_scale [OF f] inj)
    then show ?thesis by (simp add: lin_sys_def)
  qed
  moreover have "mtx_ok n (scale_row mul i v A)" if "mtx_ok n A" for A
    using that i by (auto simp: mtx_ok_def scale_row_def nth_list_update)
  moreover have "scale_row mul i v M ! j ! k \<in> K" if "j < n" "k < n" for j k
    using that i len K vK f by (cases "j = i") (auto simp: scale_row_def gf_field_def)
  moreover have "scale_row mul i v M ! j ! a = (if j = a then 1 else 0)" if "a < i" "j < n" for a j
    using that i len ok l(8) by (cases "j = i") (auto simp: scale_row_def inv_ok_def)
  ultimately show "inv_ok mul K n M0 i (scale_row mul i v M, scale_row mul i v N)"
    using ok dims unfolding inv_ok_def by simp
  show "scale_row mul i v M ! i ! i = 1" using i len one by (simp add: scale_row_def)
qed

lemma clear_ok:
  assumes f: "gf_field mul K" and ok: "inv_ok mul K n M0 i st" and i: "i < n" "fst st ! i ! i = 1" and j: "j < n"
  shows "inv_ok mul K n M0 i (clear_row mul i j st) \<and> fst (clear_row mul i j st) ! i = fst st ! i \<and>
    (\<forall>k < n. fst (clear_row mul i j st) ! k ! i = (if k = j \<and> j \<noteq> i then 0 else fst st ! k ! i))"
proof (cases "j = i")
  case True
  then show ?thesis using ok by (simp add: clear_row_def split: prod.splits)
next
  case False
  obtain M N where st: "st = (M, N)" by (cases st)
  define t where "t = M ! j ! i"
  have r: "clear_row mul i j st = (add_row mul i j t M, add_row mul i j t N)" using False by (simp add: clear_row_def st t_def Let_def)
  note l = gf_field_laws [OF f]
  have dims: "mtx_ok n M" "mtx_ok n N" and K: "\<forall>j < n. \<forall>k < n. M ! j ! k \<in> K" using ok by (simp_all add: inv_ok_def st)
  have len: "length M = n" "length N = n" "k < n \<Longrightarrow> length (M ! k) = n" "k < n \<Longrightarrow> length (N ! k) = n" for k
    using dims by (simp_all add: mtx_ok_def)
  have nth: "add_row mul i j t A ! k = (if k = j then map2 (\<lambda>a b. a XOR mul b t) (A ! j) (A ! i) else A ! k)"
    if "length A = n" "k < n" for A k using that by (simp add: add_row_def nth_list_update)
  have ent: "add_row mul i j t M ! j ! a = M ! j ! a XOR mul (M ! i ! a) t" if "a < n" for a
    using that i j len by (simp add: nth)
  have "lin_sys mul n (add_row mul i j t M) (add_row mul i j t N) p x \<longleftrightarrow> lin_sys mul n M N p x"
    if px: "length p = n" "length x = n" for p x
  proof
    have dM: "row_dot mul (add_row mul i j t M ! j) p = row_dot mul (M ! j) p XOR mul (row_dot mul (M ! i) p) t"
      and dN: "row_dot mul (add_row mul i j t N ! j) x = row_dot mul (N ! j) x XOR mul (row_dot mul (N ! i) x) t"
      using i j len px by (simp_all add: nth row_dot_add [OF f])
    assume "lin_sys mul n (add_row mul i j t M) (add_row mul i j t N) p x"
    then have all: "\<forall>k < n. row_dot mul (add_row mul i j t M ! k) p = row_dot mul (add_row mul i j t N ! k) x" by (simp add: lin_sys_def)
    then have "row_dot mul (M ! k) p = row_dot mul (N ! k) x" if "k < n" "k \<noteq> j" for k using that len by (metis nth)
    moreover from this have "row_dot mul (M ! j) p = row_dot mul (N ! j) x"
      using all j i False dM dN by (metis xor_self_right)
    ultimately show "lin_sys mul n M N p x" unfolding lin_sys_def by blast
  next
    assume "lin_sys mul n M N p x"
    then show "lin_sys mul n (add_row mul i j t M) (add_row mul i j t N) p x"
      using i j len px by (auto simp: lin_sys_def nth row_dot_add [OF f])
  qed
  moreover have "mtx_ok n (add_row mul i j t A)" if "mtx_ok n A" for A
    using that i j by (auto simp: mtx_ok_def add_row_def nth_list_update)
  moreover have "add_row mul i j t M ! k ! a \<in> K" if "k < n" "a < n" for k a
  proof -
    have cl: "x XOR y \<in> K" "mul x y \<in> K" if "x \<in> K" "y \<in> K" for x y using f that unfolding gf_field_def by blast+
    have "t \<in> K" using K i j by (simp add: t_def)
    then show ?thesis using that i j len K ent [of a] by (cases "k = j") (simp_all add: nth cl)
  qed
  moreover have "add_row mul i j t M ! k ! a = (if k = a then 1 else 0)" if "a < i" "k < n" for a k
    using that i j len ok ent [of a] l(8) False by (cases "k = j") (auto simp: nth inv_ok_def st)
  ultimately have "inv_ok mul K n M0 i (add_row mul i j t M, add_row mul i j t N)"
    using ok dims unfolding inv_ok_def st by simp
  moreover have "add_row mul i j t M ! j ! i = 0" using ent [OF i(1)] i(2) l(6) by (simp add: st t_def)
  ultimately show ?thesis unfolding r using False len i j by (simp add: nth st)
qed

lemma inv_step_ok:
  assumes f: "gf_field mul K" and ok: "inv_ok mul K n M0 i st" and i: "i < n" and run: "inv_step mul n i st = Some st'"
  shows "inv_ok mul K n M0 (Suc i) st'"
proof -
  obtain M N where piv: "find_pivot n i st = (M, N)" by fastforce
  have ok1: "inv_ok mul K n M0 i (M, N)" using find_pivot_ok [OF ok i] piv by simp
  let ?v = "gf128Inv mul (M ! i ! i)"
  have nz: "M ! i ! i \<noteq> 0" and st': "st' = fold (clear_row mul i) [0..<n] (scale_row mul i ?v M, scale_row mul i ?v N)"
    using run by (auto simp: inv_step_def piv Let_def split: if_splits)
  note sc = scale_ok [OF f ok1 i nz]
  have "inv_ok mul K n M0 i (fold (clear_row mul i) [0..<m] (scale_row mul i ?v M, scale_row mul i ?v N)) \<and>
      fst (fold (clear_row mul i) [0..<m] (scale_row mul i ?v M, scale_row mul i ?v N)) ! i ! i = 1 \<and>
      (\<forall>k < m. k \<noteq> i \<longrightarrow> fst (fold (clear_row mul i) [0..<m] (scale_row mul i ?v M, scale_row mul i ?v N)) ! k ! i = 0)"
    (is "?P m") if "m \<le> n" for m
    using that
  proof (induction m)
    case (Suc m)
    define s where "s = fold (clear_row mul i) [0..<m] (scale_row mul i ?v M, scale_row mul i ?v N)"
    have IH: "inv_ok mul K n M0 i s" "fst s ! i ! i = 1" "\<forall>k < m. k \<noteq> i \<longrightarrow> fst s ! k ! i = 0"
      using Suc unfolding s_def by simp_all
    have m: "m < n" using Suc.prems by simp
    have step: "fold (clear_row mul i) [0..<Suc m] (scale_row mul i ?v M, scale_row mul i ?v N) = clear_row mul i m s"
      by (simp add: s_def)
    show ?case unfolding step using clear_ok [OF f IH(1) i IH(2) m] IH m by (auto simp: less_Suc_eq)
  qed (use sc in simp)
  from this [of n] have "inv_ok mul K n M0 i st'" "fst st' ! i ! i = 1" "\<forall>k < n. k \<noteq> i \<longrightarrow> fst st' ! k ! i = 0"
    unfolding st' by simp_all
  then show ?thesis using i unfolding inv_ok_def by (auto simp: less_Suc_eq)
qed

lemma inv_loop_ok:
  assumes "gf_field mul K" "inv_ok mul K n M0 i st" "inv_loop mul n [i..<m] st = Some st'" "i \<le> m" "m \<le> n"
  shows "inv_ok mul K n M0 m st'"
  using assms(2-)
proof (induction "m - i" arbitrary: i st)
  case (Suc d)
  then have "i < m" by simp
  then have "[i..<m] = i # [Suc i..<m]" by (rule upt_conv_Cons)
  then obtain st1 where "inv_step mul n i st = Some st1" "inv_loop mul n [Suc i..<m] st1 = Some st'"
    using Suc.prems(2) by (auto split: option.splits)
  then show ?case using Suc inv_step_ok [OF assms(1) Suc.prems(1)] \<open>i < m\<close> by (intro Suc(1) [of "Suc i" st1]) auto
qed simp

text \<open>An inverse that the code returns solves every system of the matrix.\<close>
lemma gf128Inv_mtx_ok:
  assumes f: "gf_field mul K" and M: "mtx_ok n M" "\<forall>j < n. \<forall>k < n. M ! j ! k \<in> K"
    and run: "gf128Inv_mtx mul M = Some N" and x: "length x = n"
  shows "mtx_ok n N" "\<forall>j < n. row_dot mul (M ! j) (map (\<lambda>i. row_dot mul (N ! i) x) [0..<n]) = x ! j"
proof -
  have n: "length M = n" using M(1) by (simp add: mtx_ok_def)
  have unit: "row_dot mul (unit_mtx n ! j) y = y ! j" if "j < n" "length y = n" for j y
    using that row_dot_unit [OF f that] by (simp add: unit_mtx_def)
  have "inv_ok mul K n M 0 (M, unit_mtx n)"
    using M unit by (auto simp: inv_ok_def lin_sys_def mtx_ok_def unit_mtx_def)
  moreover obtain M' where "inv_loop mul n [0..<n] (M, unit_mtx n) = Some (M', N)"
    using run by (auto simp: gf128Inv_mtx_def n)
  ultimately have ok: "inv_ok mul K n M n (M', N)" using inv_loop_ok [OF f] by blast
  then show "mtx_ok n N" by (simp add: inv_ok_def)
  let ?p = "map (\<lambda>i. row_dot mul (N ! i) x) [0..<n]"
  have M': "M' ! j = map (\<lambda>a. if j = a then 1 else 0) [0..<n]" if "j < n" for j
    using ok that by (intro nth_equalityI) (simp_all add: inv_ok_def mtx_ok_def)
  have "lin_sys mul n M' N ?p x" using M' row_dot_unit [OF f, of _ n ?p] by (simp add: lin_sys_def)
  then show "\<forall>j < n. row_dot mul (M ! j) ?p = x ! j" using ok x by (simp add: inv_ok_def)
qed

section \<open>What the inverse is good for\<close>

text \<open>A matrix inverse that the code returns solves every system of the matrix: over
  a field, in which \<open>x ^ (2 ^ 128 - 1)\<close> is 1 for every \<open>x\<close> but 0, the matrix times the
  inverse times a right side gives the right side back.
\<close>
lemma gf128Inv_mtx_solves:
  assumes "gf_field mul K" "mtx_ok n M" "\<forall>j < n. \<forall>k < n. M ! j ! k \<in> K"
    and "gf128Inv_mtx mul M = Some N" "length x = n"
  shows "mtx_ok n N \<and> (\<forall>j < n. row_dot mul (M ! j) (map (\<lambda>i. row_dot mul (N ! i) x) [0..<n]) = x ! j)"
  using gf128Inv_mtx_ok [OF assms] by blast

text \<open>A product with unit 1 for concrete runs: the block is a bit and a part that squares to zero.\<close>
definition dual_mul :: "block \<Rightarrow> block \<Rightarrow> block" where
  "dual_mul a b = (if bit a 0 then b else 0) XOR (if bit b 0 then a else 0) XOR (if bit a 0 \<and> bit b 0 then 1 else 0)"

lemma bit_dual_mul: "bit (dual_mul a b) n \<longleftrightarrow> (if n = 0 then bit a 0 \<and> bit b 0 else (bit a 0 \<and> bit b n) \<noteq> (bit b 0 \<and> bit a n))"
  by (auto simp: dual_mul_def bit_xor_iff bit_1_iff)

lemma dual_mul_laws: "gf_laws dual_mul"
  unfolding gf_laws_def by (auto intro!: bit_word_eqI simp: bit_dual_mul bit_xor_iff)

lemma dual_mul_1: "dual_mul x 1 = x"
  by (rule bit_word_eqI) (auto simp: bit_dual_mul bit_1_iff)

lemma gf_field_dual: "gf_field dual_mul {0, 1}"
proof -
  have "dual_mul x 0 = 0" for x by (rule bit_word_eqI) (simp add: bit_dual_mul)
  moreover have "dual_mul 0 1 = 0" "dual_mul 1 1 = 1" using dual_mul_1 by blast+
  moreover have "gpow dual_mul 1 n = 1" for n by (induction n) (simp_all add: dual_mul_1)
  ultimately show ?thesis using dual_mul_laws dual_mul_1 by (simp add: gf_field_def)
qed

lemma gf128Inv_dual: "gf128Inv dual_mul 1 = 1"
proof -
  have "gpow dual_mul 1 n = 1" for n by (induction n) (simp_all add: dual_mul_1)
  then show ?thesis using gf128Inv_pow [OF gf_field_dual, of 1] by simp
qed

lemma gf128Inv_mtx_demo: "gf128Inv_mtx dual_mul [[0, 1], [1, 1]] = Some [[1, 1], [1, 0]]"
proof -
  have m: "dual_mul 1 1 = 1" "dual_mul 0 1 = 0" "dual_mul x 0 = 0" for x
    using dual_mul_1 by (simp_all add: dual_mul_def)
  show ?thesis
    by (simp add: gf128Inv_mtx_def unit_mtx_def upt_rec inv_step_def find_pivot_def swap_rows_def scale_row_def clear_row_def add_row_def
        gf128Inv_dual m Let_def)
qed

lemma gf128Inv_mtx_solves_witness:
  "row_dot dual_mul [0, 1] (map (\<lambda>i. row_dot dual_mul ([[1, 1], [1, 0]] ! i) [5, 9]) [0..<2]) = 5"
  using gf128Inv_mtx_solves [OF gf_field_dual, of 2 "[[0, 1], [1, 1]]" "[[1, 1], [1, 0]]" "[5, 9]"] gf128Inv_mtx_demo
  by (simp add: mtx_ok_def All_less_Suc2 numeral_2_eq_2)

text \<open>
  The search for a pivot wants an entry that is 1, not one that is not 0: a matrix that
  can be inverted is given up when the only entry below is another element.
\<close>
lemma gf128Inv_needs_one:
  assumes "v \<noteq> 1"
  shows "gf128Inv_mtx mul [[0, v], [v, 0]] = None"
  using assms by (simp add: gf128Inv_mtx_def inv_step_def find_pivot_def upt_rec)

end
