(* ===== verification/Paxos_Solve.thy ===== *)
theory Paxos_Solve
  imports Gf_Matrix
begin

text \<open>
  fpsi/opprf/Paxos.h, PaxosImpl.h and PxUtil.h, the first half of the solver: the
  columns of the sparse matrix (\<open>rebuildColumns\<close>), the columns sorted by weight
  (\<open>WeightData\<close>) and \<open>triangulate\<close>, which picks a column of least weight, makes one
  of its rows the row of the diagonal and puts the others in the gap.  The linked
  list of the columns of a weight is a list whose head is the first node.
\<close>

section \<open>Columns by weight\<close>

text \<open>\<open>mWeightSets\<close> and the weights of \<open>mNodes\<close>.\<close>
record weight_data =
  mWeightSets :: "nat list list"
  mNodes :: "nat list"

text \<open>\<open>back\<close> of a vector that is empty.\<close>
abbreviation empty_back :: error where
  "empty_back \<equiv> Undefined_behaviour ''back of an empty vector''"

text \<open>
  \<open>while (mWeightSets.back() == nullptr) mWeightSets.pop_back()\<close>, on the vector from its
  end.  When no column is left in any set, the loop runs off the vector.
\<close>
fun pop_back_empty :: "nat list list \<Rightarrow> nat list list result" where
  "pop_back_empty [] = Inl empty_back"
| "pop_back_empty (s # sets) = (if s = [] then pop_back_empty sets else Inr (s # sets))"

definition drop_empty :: "nat list list \<Rightarrow> nat list list result" where
  "drop_empty sets = rmap rev (pop_back_empty (rev sets))"

text \<open>The loop of \<open>init\<close>, which looks for the last set that is not empty.\<close>
definition trim_sets :: "nat list list \<Rightarrow> nat list list" where
  "trim_sets sets = rev (dropWhile (\<lambda>s. s = []) (rev sets))"

definition pushNode :: "nat \<Rightarrow> weight_data \<Rightarrow> weight_data" where
  "pushNode node wd =
     (let w = mNodes wd ! node;
          sets = mWeightSets wd @ replicate (w + 1 - length (mWeightSets wd)) []
      in wd\<lparr>mWeightSets := sets[w := node # sets ! w]\<rparr>)"

definition popNode :: "nat \<Rightarrow> weight_data \<Rightarrow> weight_data result" where
  "popNode node wd =
     (let w = mNodes wd ! node;
          rest = remove1 node (mWeightSets wd ! w);
          sets = (mWeightSets wd)[w := rest]
      in rbind (if rest = [] then drop_empty sets else Inr sets) (\<lambda>sets. Inr (wd\<lparr>mWeightSets := sets\<rparr>)))"

definition getMinWeightNode :: "weight_data \<Rightarrow> nat result" where
  "getMinWeightNode wd =
     (case find (\<lambda>i. mWeightSets wd ! i \<noteq> []) [1..<length (mWeightSets wd)] of
        Some i \<Rightarrow> Inr (hd (mWeightSets wd ! i))
      | None \<Rightarrow> Inl (Runtime_error ''RTE_LOC''))"

text \<open>\<open>init\<close>: 200 sets, of which the empty ones at the end go; a larger weight is written out of range.\<close>
definition weight_init :: "nat list \<Rightarrow> weight_data result" where
  "weight_init weights =
     (if \<exists>w \<in> set weights. 200 \<le> w then Inl (Undefined_behaviour ''mWeightSets'')
      else
        let sets = fold (\<lambda>i sets. sets[weights ! i := i # sets ! (weights ! i)]) [0..<length weights] (replicate 200 [])
        in Inr \<lparr>mWeightSets = if weights = [] then sets else trim_sets sets, mNodes = weights\<rparr>)"

section \<open>Triangulation\<close>

text \<open>What \<open>setInput\<close> leaves: \<open>mRows\<close>, \<open>mDense\<close> and \<open>mCols\<close>.\<close>
record paxos_sys =
  mRows :: "nat list list"
  mDense :: "block list"
  mCols :: "nat list list"

definition rebuildColumns :: "nat \<Rightarrow> nat list list \<Rightarrow> nat list list" where
  "rebuildColumns sparse rows =
     fold (\<lambda>i cols. fold (\<lambda>c cols. cols[c := cols ! c @ [i]]) (rows ! i) cols) [0..<length rows] (replicate sparse [])"

definition set_input :: "nat \<Rightarrow> nat list list \<Rightarrow> block list \<Rightarrow> paxos_sys" where
  "set_input sparse rows dense = \<lparr>mRows = rows, mDense = dense, mCols = rebuildColumns sparse rows\<rparr>"

record tri_state =
  ts_wd :: weight_data
  rowSet :: "bool list"
  mainRows :: "nat list"
  mainCols :: "nat list"
  gapRows :: "(nat \<times> nat) list"

text \<open>One of the other columns of a row that is taken: a column that is not fixed loses one.\<close>
definition dec_col :: "nat \<Rightarrow> weight_data \<Rightarrow> weight_data result" where
  "dec_col colIdx2 wd =
     (if mNodes wd ! colIdx2 \<noteq> 0
      then rbind (popNode colIdx2 wd) (\<lambda>wd.
             Inr (pushNode colIdx2 (wd\<lparr>mNodes := (mNodes wd)[colIdx2 := mNodes wd ! colIdx2 - 1]\<rparr>)))
      else Inr wd)"

text \<open>One row of the column \<open>colIdx\<close>.\<close>
definition take_row :: "paxos_sys \<Rightarrow> nat \<Rightarrow> nat \<Rightarrow> bool \<times> tri_state \<Rightarrow> (bool \<times> tri_state) result" where
  "take_row sys colIdx rowIdx st =
     (let (first, ts) = st
      in if rowSet ts ! rowIdx then Inr (first, ts)
         else
           rbind (foldR dec_col (mRows sys ! rowIdx) (ts_wd ts)) (\<lambda>wd.
           let ts = ts\<lparr>rowSet := (rowSet ts)[rowIdx := True], ts_wd := wd\<rparr>
           in if first then Inr (False, ts\<lparr>mainCols := mainCols ts @ [colIdx], mainRows := mainRows ts @ [rowIdx]\<rparr>)
              else if mDense sys ! last (mainRows ts) = mDense sys ! rowIdx then Inl (Runtime_error ''RTE_LOC'')
              else Inr (False, ts\<lparr>gapRows := gapRows ts @ [(rowIdx, last (mainRows ts))]\<rparr>)))"

text \<open>One round: a column of least weight with all its rows.\<close>
definition tri_step :: "paxos_sys \<Rightarrow> tri_state \<Rightarrow> tri_state result" where
  "tri_step sys ts =
     rbind (getMinWeightNode (ts_wd ts)) (\<lambda>colIdx.
     rbind (popNode colIdx (ts_wd ts)) (\<lambda>wd.
       let wd = wd\<lparr>mNodes := (mNodes wd)[colIdx := 0]\<rparr>
       in rbind (foldR (take_row sys colIdx) (mCols sys ! colIdx) (True, ts\<lparr>ts_wd := wd\<rparr>)) (\<lambda>(first, ts).
          if first then Inl (Runtime_error ''RTE_LOC'') else Inr ts)))"

partial_function (option) tri_loop :: "paxos_sys \<Rightarrow> tri_state \<Rightarrow> tri_state result option" where
  "tri_loop sys ts =
     (if 1 < length (mWeightSets (ts_wd ts))
      then (case tri_step sys ts of Inl e \<Rightarrow> Some (Inl e) | Inr ts \<Rightarrow> tri_loop sys ts)
      else Some (Inr ts))"

declare tri_loop.simps [code]

text \<open>\<open>None\<close> when the loop does not end; the weights are those of the columns.\<close>
definition triangulate :: "paxos_sys \<Rightarrow> tri_state result option" where
  "triangulate sys =
     (case weight_init (map length (mCols sys)) of
        Inl e \<Rightarrow> Some (Inl e)
      | Inr wd \<Rightarrow> tri_loop sys \<lparr>ts_wd = wd, rowSet = replicate (length (mRows sys)) False, mainRows = [], mainCols = [], gapRows = []\<rparr>)"

section \<open>The sets of columns\<close>

text \<open>The columns of weight \<open>w\<close>.\<close>
definition bucket :: "nat list list \<Rightarrow> nat \<Rightarrow> nat list" where
  "bucket sets w = (if w < length sets then sets ! w else [])"

lemma trim_sets_snoc: "trim_sets (xs @ [x]) = (if x = [] then trim_sets xs else xs @ [x])"
  by (simp add: trim_sets_def)

lemma bucket_trim_sets: "bucket (trim_sets sets) w = bucket sets w"
proof (induction sets rule: rev_induct)
  case (snoc x xs)
  show ?case
  proof (cases "x = []")
    case True
    then have "bucket (trim_sets (xs @ [x])) w = bucket xs w" using snoc by (simp add: trim_sets_snoc)
    also have "\<dots> = bucket (xs @ [x]) w" using True by (simp add: bucket_def nth_append)
    finally show ?thesis .
  qed (simp add: trim_sets_snoc)
qed (simp add: trim_sets_def)

lemma last_trim_sets: "trim_sets sets \<noteq> [] \<Longrightarrow> last (trim_sets sets) \<noteq> []"
  by (induction sets rule: rev_induct) (auto simp: trim_sets_snoc trim_sets_def)

lemma drop_empty_eq: "drop_empty sets = (if trim_sets sets = [] then Inl empty_back else Inr (trim_sets sets))"
proof -
  have "pop_back_empty xs = (if dropWhile (\<lambda>s. s = []) xs = [] then Inl empty_back else Inr (dropWhile (\<lambda>s. s = []) xs))" for xs
    by (induction xs) simp_all
  then show ?thesis by (simp add: drop_empty_def trim_sets_def del: dropWhile_eq_Nil_conv)
qed

text \<open>What taking a column out and taking one off its weight leave, when a column is left.\<close>
definition pop_trim :: "nat \<Rightarrow> weight_data \<Rightarrow> weight_data" where
  "pop_trim node wd =
     (let w = mNodes wd ! node; rest = remove1 node (mWeightSets wd ! w); sets = (mWeightSets wd)[w := rest]
      in wd\<lparr>mWeightSets := if rest = [] then trim_sets sets else sets\<rparr>)"

definition dec_trim :: "nat \<Rightarrow> weight_data \<Rightarrow> weight_data" where
  "dec_trim c wd =
     (if mNodes wd ! c \<noteq> 0
      then pushNode c ((pop_trim c wd)\<lparr>mNodes := (mNodes (pop_trim c wd))[c := mNodes (pop_trim c wd) ! c - 1]\<rparr>) else wd)"

lemma bucket_pushNode:
  "bucket (mWeightSets (pushNode c wd)) w = (if w = mNodes wd ! c then c # bucket (mWeightSets wd) w else bucket (mWeightSets wd) w)"
  by (auto simp: pushNode_def bucket_def Let_def nth_append nth_list_update)

lemma pushNode_other: "mNodes (pushNode c wd) = mNodes wd"
  by (simp add: pushNode_def Let_def)

text \<open>Every column that is not in \<open>D\<close> sits in the set of its weight, the columns of \<open>D\<close> in none.\<close>
definition wd_ok :: "nat \<Rightarrow> nat set \<Rightarrow> weight_data \<Rightarrow> bool" where
  "wd_ok S D wd \<longleftrightarrow> length (mNodes wd) = S \<and>
     (\<forall>w. distinct (bucket (mWeightSets wd) w) \<and> (\<forall>c \<in> set (bucket (mWeightSets wd) w). c < S \<and> c \<notin> D \<and> mNodes wd ! c = w)) \<and>
     (\<forall>c < S. c \<notin> D \<longrightarrow> c \<in> set (bucket (mWeightSets wd) (mNodes wd ! c))) \<and>
     (\<forall>c \<in> D. c < S \<and> mNodes wd ! c = 0) \<and> (mWeightSets wd \<noteq> [] \<longrightarrow> last (mWeightSets wd) \<noteq> [])"

lemma wd_okD:
  assumes "wd_ok S D wd"
  shows "length (mNodes wd) = S" "distinct (bucket (mWeightSets wd) w)"
    "c \<in> set (bucket (mWeightSets wd) w) \<Longrightarrow> c < S \<and> c \<notin> D \<and> mNodes wd ! c = w"
    "c < S \<Longrightarrow> c \<notin> D \<Longrightarrow> c \<in> set (bucket (mWeightSets wd) (mNodes wd ! c))"
    "c \<in> D \<Longrightarrow> c < S \<and> mNodes wd ! c = 0" "mWeightSets wd \<noteq> [] \<Longrightarrow> last (mWeightSets wd) \<noteq> []"
  using assms unfolding wd_ok_def by blast+

lemma pop_trim_ok:
  assumes ok: "wd_ok S D wd" and c: "c < S" "c \<notin> D"
  shows "mNodes (pop_trim c wd) = mNodes wd"
    and "bucket (mWeightSets (pop_trim c wd)) w = (if w = mNodes wd ! c then remove1 c (bucket (mWeightSets wd) w) else bucket (mWeightSets wd) w)"
    and "mWeightSets (pop_trim c wd) \<noteq> [] \<Longrightarrow> last (mWeightSets (pop_trim c wd)) \<noteq> []"
proof -
  let ?w = "mNodes wd ! c"
  have lt: "?w < length (mWeightSets wd)" using wd_okD(4) [OF ok c] by (auto simp: bucket_def split: if_splits)
  let ?rest = "remove1 c (mWeightSets wd ! ?w)"
  show "mNodes (pop_trim c wd) = mNodes wd" by (simp add: pop_trim_def Let_def)
  show "bucket (mWeightSets (pop_trim c wd)) w = (if w = ?w then remove1 c (bucket (mWeightSets wd) w) else bucket (mWeightSets wd) w)"
    using lt by (simp add: pop_trim_def Let_def bucket_trim_sets) (auto simp: bucket_def)
  have sets: "mWeightSets wd \<noteq> []" using lt by auto
  show "last (mWeightSets (pop_trim c wd)) \<noteq> []" if ne: "mWeightSets (pop_trim c wd) \<noteq> []"
  proof (cases "?rest = []")
    case True
    then show ?thesis using ne last_trim_sets by (simp add: pop_trim_def Let_def)
  next
    case False
    have "last ((mWeightSets wd)[?w := ?rest]) \<noteq> []"
      using False wd_okD(6) [OF ok sets] lt by (cases "?w = length (mWeightSets wd) - 1") (simp_all add: last_conv_nth sets)
    then show ?thesis using False by (simp add: pop_trim_def Let_def)
  qed
qed

lemma last_pushNode:
  assumes "mWeightSets wd \<noteq> [] \<Longrightarrow> last (mWeightSets wd) \<noteq> []"
  shows "last (mWeightSets (pushNode c wd)) \<noteq> []"
proof -
  let ?w = "mNodes wd ! c"
  let ?sets = "mWeightSets wd @ replicate (?w + 1 - length (mWeightSets wd)) []"
  have len: "length ?sets = max (?w + 1) (length (mWeightSets wd))" by simp
  have "last (?sets[?w := c # ?sets ! ?w]) \<noteq> []"
  proof (cases "?w + 1 < length (mWeightSets wd)")
    case True
    then have ne: "mWeightSets wd \<noteq> []" by auto
    then have "last ((mWeightSets wd)[?w := c # mWeightSets wd ! ?w]) \<noteq> []"
      using True assms by (simp add: last_conv_nth nth_list_update)
    then show ?thesis using True by (simp add: nth_append)
  next
    case False
    then have "length ?sets - 1 = ?w" using len by auto
    moreover have "?sets \<noteq> []" using len by (metis list.size(3) max.cobounded1 not_one_le_zero add_leD2)
    ultimately show ?thesis by (simp add: last_conv_nth del: append_is_Nil_conv)
  qed
  then show ?thesis by (simp add: pushNode_def Let_def)
qed

text \<open>A column loses one.\<close>
lemma dec_trim_ok:
  assumes ok: "wd_ok S D wd" and c: "c < S" "c \<notin> D \<Longrightarrow> mNodes wd ! c \<noteq> 0"
  shows "wd_ok S D (dec_trim c wd)" "c' < S \<Longrightarrow> mNodes (dec_trim c wd) ! c' = (if c' = c \<and> c \<notin> D then mNodes wd ! c' - 1 else mNodes wd ! c')"
proof -
  have "wd_ok S D (dec_trim c wd) \<and> (c' < S \<longrightarrow> mNodes (dec_trim c wd) ! c' = (if c' = c \<and> c \<notin> D then mNodes wd ! c' - 1 else mNodes wd ! c'))" for c'
  proof (cases "c \<in> D")
    case True
    then show ?thesis using ok wd_okD(5) [OF ok True] by (simp add: dec_trim_def)
  next
    case False
    let ?w = "mNodes wd ! c"
    define wd1 where "wd1 = pop_trim c wd"
    define wd2 where "wd2 = wd1\<lparr>mNodes := (mNodes wd)[c := ?w - 1]\<rparr>"
    note pop = pop_trim_ok [OF ok c(1) False, folded wd1_def]
    have w: "?w \<noteq> 0" using c(2) False .
    have dec: "dec_trim c wd = pushNode c wd2" using w by (simp add: dec_trim_def wd2_def wd1_def [symmetric] pop(1) Let_def)
    have len: "length (mNodes wd) = S" by (rule wd_okD(1) [OF ok])
    have nodes: "mNodes (dec_trim c wd) = (mNodes wd)[c := ?w - 1]" by (simp add: dec pushNode_other wd2_def)
    define wm where "wm = ?w - 1"
    have wm: "wm \<noteq> ?w" using w by (simp add: wm_def)
    have bk: "bucket (mWeightSets (dec_trim c wd)) v =
        (if v = wm then c # bucket (mWeightSets wd) v else if v = ?w then remove1 c (bucket (mWeightSets wd) v) else bucket (mWeightSets wd) v)" for v
    proof -
      have "mNodes wd2 ! c = wm" using c(1) len by (simp add: wd2_def wm_def)
      moreover have "mWeightSets wd2 = mWeightSets wd1" by (simp add: wd2_def)
      ultimately show ?thesis using pop(2) [of v] wm by (cases "v = wm") (simp_all add: dec bucket_pushNode)
    qed
    have last: "mWeightSets (dec_trim c wd) \<noteq> [] \<longrightarrow> last (mWeightSets (dec_trim c wd)) \<noteq> []"
      using last_pushNode [of wd2 c] pop(3) by (simp add: dec wd2_def)
    have at: "c \<in> set (bucket (mWeightSets wd) v) \<longleftrightarrow> v = ?w" for v
      using wd_okD(4) [OF ok c(1) False] wd_okD(3) [OF ok, of c v] by auto
    have mem: "c' \<in> set (bucket (mWeightSets (dec_trim c wd)) v) \<longleftrightarrow>
        (if c' = c then v = wm else c' \<in> set (bucket (mWeightSets wd) v))" for c' v
      unfolding bk [of v] using wd_okD(2) [OF ok, of v] at [of v] wm by (cases "v = ?w") auto
    have "distinct (bucket (mWeightSets (dec_trim c wd)) v)" for v
      unfolding bk [of v] using wd_okD(2) [OF ok, of v] at [of v] wm by (cases "v = ?w") auto
    moreover have "x < S \<and> x \<notin> D \<and> mNodes (dec_trim c wd) ! x = v" if "x \<in> set (bucket (mWeightSets (dec_trim c wd)) v)" for x v
      using that wd_okD(3) [OF ok, of x v] c(1) False len by (cases "x = c") (auto simp: mem nodes wm_def)
    moreover have "x \<in> set (bucket (mWeightSets (dec_trim c wd)) (mNodes (dec_trim c wd) ! x))" if "x < S" "x \<notin> D" for x
      using wd_okD(4) [OF ok that] c(1) len by (cases "x = c") (simp_all add: mem nodes wm_def)
    moreover have "x < S \<and> mNodes (dec_trim c wd) ! x = 0" if "x \<in> D" for x
      using wd_okD(5) [OF ok that] that False by (cases "x = c") (simp_all add: nodes)
    ultimately have "wd_ok S D (dec_trim c wd)" using len nodes last unfolding wd_ok_def by simp
    then show ?thesis using False c(1) len by (simp add: nodes nth_list_update)
  qed
  then show "wd_ok S D (dec_trim c wd)" "c' < S \<Longrightarrow> mNodes (dec_trim c wd) ! c' = (if c' = c \<and> c \<notin> D then mNodes wd ! c' - 1 else mNodes wd ! c')"
    by blast+
qed

text \<open>The columns of a row lose one each.\<close>
lemma dec_trims_ok:
  assumes "wd_ok S D wd" "distinct cs" "\<forall>c \<in> set cs. c < S \<and> (c \<notin> D \<longrightarrow> mNodes wd ! c \<noteq> 0)"
  shows "wd_ok S D (fold dec_trim cs wd) \<and>
    (\<forall>c < S. mNodes (fold dec_trim cs wd) ! c = (if c \<in> set cs \<and> c \<notin> D then mNodes wd ! c - 1 else mNodes wd ! c))"
  using assms
proof (induction cs arbitrary: wd)
  case (Cons a cs)
  have a: "a < S" "a \<notin> D \<Longrightarrow> mNodes wd ! a \<noteq> 0" using Cons.prems(3) by auto
  note d = dec_trim_ok [OF Cons.prems(1) a]
  have "wd_ok S D (fold dec_trim cs (dec_trim a wd)) \<and>
    (\<forall>c < S. mNodes (fold dec_trim cs (dec_trim a wd)) ! c =
      (if c \<in> set cs \<and> c \<notin> D then mNodes (dec_trim a wd) ! c - 1 else mNodes (dec_trim a wd) ! c))"
    using Cons.prems d by (intro Cons.IH) auto
  then show ?case using d(2) Cons.prems(2) by auto
qed simp

text \<open>A column is fixed.\<close>
lemma fix_col_ok:
  assumes ok: "wd_ok S D wd" and c: "c < S" "c \<notin> D"
  defines "wd' \<equiv> (pop_trim c wd)\<lparr>mNodes := (mNodes wd)[c := 0]\<rparr>"
  shows "wd_ok S (insert c D) wd'"
proof -
  note pop = pop_trim_ok [OF ok c]
  have len: "length (mNodes wd) = S" by (rule wd_okD(1) [OF ok])
  have sets: "mWeightSets wd' = mWeightSets (pop_trim c wd)" "mNodes wd' = (mNodes wd)[c := 0]" by (simp_all add: wd'_def)
  have mem: "x \<in> set (bucket (mWeightSets wd') v) \<longleftrightarrow> x \<noteq> c \<and> x \<in> set (bucket (mWeightSets wd) v)" for x v
    using wd_okD(2) [OF ok, of v] wd_okD(3) [OF ok, of c v] by (auto simp: sets pop(2))
  have "distinct (bucket (mWeightSets wd') v)" for v using wd_okD(2) [OF ok, of v] by (auto simp: sets pop(2))
  moreover have "x < S \<and> x \<notin> insert c D \<and> mNodes wd' ! x = v" if "x \<in> set (bucket (mWeightSets wd') v)" for x v
    using that wd_okD(3) [OF ok, of x v] by (auto simp: mem sets(2))
  moreover have "x \<in> set (bucket (mWeightSets wd') (mNodes wd' ! x))" if "x < S" "x \<notin> insert c D" for x
    using wd_okD(4) [OF ok, of x] that by (auto simp: mem sets(2))
  moreover have "x < S \<and> mNodes wd' ! x = 0" if "x \<in> insert c D" for x
    using wd_okD(5) [OF ok, of x] that c len by (auto simp: sets(2) nth_list_update)
  ultimately show ?thesis using len pop(3) unfolding wd_ok_def sets by simp
qed

text \<open>
  The code does the same until its last column is taken out: then no set is left and it reads
  in front of the vector.
\<close>
lemma popNode_eq:
  assumes ok: "wd_ok S D wd" and c: "c < S" "c \<notin> D"
  shows "popNode c wd = (if insert c D = {..<S} then Inl empty_back else Inr (pop_trim c wd))"
proof -
  let ?w = "mNodes wd ! c" and ?new = "mWeightSets (pop_trim c wd)"
  let ?rest = "remove1 c (mWeightSets wd ! ?w)"
  note fixed = fix_col_ok [OF ok c]
  have all: "insert c D = {..<S} \<longleftrightarrow> ?new = []"
  proof
    assume full: "insert c D = {..<S}"
    have empty: "bucket ?new w = []" for w using wd_okD(3) [OF fixed, of _ w] full by (auto intro!: equals0I simp flip: set_empty)
    show "?new = []"
    proof (rule ccontr)
      assume "?new \<noteq> []"
      then have "last ?new \<noteq> []" "last ?new = bucket ?new (length ?new - 1)"
        using wd_okD(6) [OF fixed] by (simp_all add: bucket_def last_conv_nth)
      then show False using empty by simp
    qed
  next
    assume "?new = []"
    then have "x \<in> insert c D" if "x < S" for x
      using wd_okD(4) [OF fixed that] by (auto simp: bucket_def)
    then show "insert c D = {..<S}" using wd_okD(5) [OF fixed] by blast
  qed
  have lt: "?w < length (mWeightSets wd)" using wd_okD(4) [OF ok c] by (auto simp: bucket_def split: if_splits)
  show ?thesis
  proof (cases "?rest = []")
    case True
    then show ?thesis unfolding all by (simp add: popNode_def pop_trim_def Let_def drop_empty_eq)
  next
    case False
    then have "?new \<noteq> []" using lt by (auto simp: pop_trim_def Let_def)
    then show ?thesis unfolding all using False by (simp add: popNode_def pop_trim_def Let_def)
  qed
qed

lemma dec_col_eq:
  assumes ok: "wd_ok S D wd" and c: "c < S" "c \<notin> D \<Longrightarrow> mNodes wd ! c \<noteq> 0"
  shows "dec_col c wd = (if insert c D = {..<S} \<and> c \<notin> D then Inl empty_back else Inr (dec_trim c wd))"
proof (cases "c \<in> D")
  case True
  then show ?thesis using wd_okD(5) [OF ok True] by (simp add: dec_col_def dec_trim_def)
next
  case False
  then show ?thesis using c popNode_eq [OF ok c(1) False] by (simp add: dec_col_def dec_trim_def)
qed

lemma last_column: "insert c D = {..<S} \<Longrightarrow> S \<le> card D + 1"
  by (metis card_insert_le_m1 card_lessThan Suc_eq_plus1 card_insert_if finite_insert finite_lessThan le_Suc_eq order_refl)

lemma dec_cols_eq:
  assumes "wd_ok S D wd" "distinct cs" "\<forall>c \<in> set cs. c < S \<and> (c \<notin> D \<longrightarrow> mNodes wd ! c \<noteq> 0)"
  shows "foldR dec_col cs wd = Inr (fold dec_trim cs wd) \<or> foldR dec_col cs wd = Inl empty_back \<and> S \<le> card D + 1"
  using assms
proof (induction cs arbitrary: wd)
  case (Cons a cs)
  have a: "a < S" "a \<notin> D \<Longrightarrow> mNodes wd ! a \<noteq> 0" using Cons.prems(3) by auto
  note d = dec_trim_ok [OF Cons.prems(1) a] and e = dec_col_eq [OF Cons.prems(1) a]
  show ?case
  proof (cases "insert a D = {..<S} \<and> a \<notin> D")
    case True
    then show ?thesis using e last_column [of a D S] by simp
  next
    case False
    have "\<forall>c \<in> set cs. c < S \<and> (c \<notin> D \<longrightarrow> mNodes (dec_trim a wd) ! c \<noteq> 0)" using Cons.prems(2,3) d(2) by auto
    then show ?thesis using Cons.IH [OF d(1)] Cons.prems(2) e unfolding if_not_P [OF False] by simp
  qed
qed simp

text \<open>The node that is picked has least positive weight; there is one while a set of positive weight is left.\<close>
lemma getMinWeightNode_ok:
  assumes ok: "wd_ok S D wd" and more: "1 < length (mWeightSets wd)"
  shows "\<exists>c. getMinWeightNode wd = Inr c \<and> c < S \<and> c \<notin> D \<and> 0 < mNodes wd ! c \<and>
    (\<forall>c' < S. c' \<notin> D \<longrightarrow> 0 < mNodes wd ! c' \<longrightarrow> mNodes wd ! c \<le> mNodes wd ! c')"
proof -
  let ?sets = "mWeightSets wd"
  have "?sets \<noteq> []" using more by auto
  then have "last ?sets \<noteq> []" by (rule wd_okD(6) [OF ok])
  then have "?sets ! (length ?sets - 1) \<noteq> []" using \<open>?sets \<noteq> []\<close> by (simp add: last_conv_nth)
  then have "find (\<lambda>i. ?sets ! i \<noteq> []) [1..<length ?sets] \<noteq> None"
    unfolding find_None_iff using more by (intro notI) (auto dest!: bspec [of _ _ "length ?sets - 1"])
  then obtain i where i: "find (\<lambda>i. ?sets ! i \<noteq> []) [1..<length ?sets] = Some i" by auto
  then obtain k where k: "k < length ?sets - 1" "i = 1 + k" "?sets ! i \<noteq> []" "\<forall>j < k. ?sets ! (1 + j) = []"
    by (auto simp: find_Some_iff)
  have c: "hd (?sets ! i) \<in> set (bucket ?sets i)" using k(1-3) by (simp add: bucket_def)
  have "i \<le> mNodes wd ! c'" if "c' < S" "c' \<notin> D" "0 < mNodes wd ! c'" for c'
  proof (rule ccontr)
    assume "\<not> i \<le> mNodes wd ! c'"
    then have "bucket ?sets (mNodes wd ! c') = []" using k that(3) by (cases "mNodes wd ! c'") (auto simp: bucket_def)
    then show False using wd_okD(4) [OF ok that(1,2)] by simp
  qed
  then show ?thesis using wd_okD(3) [OF ok c] i k(2) by (auto simp: getMinWeightNode_def)
qed

section \<open>The columns\<close>

definition rows_ok :: "nat \<Rightarrow> nat list list \<Rightarrow> bool" where
  "rows_ok S rows \<longleftrightarrow> (\<forall>r \<in> set rows. r \<noteq> [] \<and> distinct r \<and> set r \<subseteq> {..<S})"

lemma add_row_cols:
  assumes "distinct cs" "set cs \<subseteq> {..<length cols}"
  shows "length (fold (\<lambda>c cols. cols[c := cols ! c @ [i]]) cs cols) = length cols \<and>
    (\<forall>c < length cols. fold (\<lambda>c cols. cols[c := cols ! c @ [i]]) cs cols ! c = (if c \<in> set cs then cols ! c @ [i] else cols ! c))"
  using assms
proof (induction cs arbitrary: cols)
  case (Cons a cs)
  have "length (fold (\<lambda>c cols. cols[c := cols ! c @ [i]]) cs (cols[a := cols ! a @ [i]])) = length (cols[a := cols ! a @ [i]]) \<and>
    (\<forall>c < length (cols[a := cols ! a @ [i]]). fold (\<lambda>c cols. cols[c := cols ! c @ [i]]) cs (cols[a := cols ! a @ [i]]) ! c =
      (if c \<in> set cs then cols[a := cols ! a @ [i]] ! c @ [i] else cols[a := cols ! a @ [i]] ! c))"
    using Cons.prems by (intro Cons.IH) simp_all
  then show ?case using Cons.prems by (auto simp: nth_list_update)
qed simp

lemma rebuildColumns_ok:
  assumes "rows_ok S rows"
  shows "length (rebuildColumns S rows) = S"
    "c < S \<Longrightarrow> rebuildColumns S rows ! c = filter (\<lambda>i. c \<in> set (rows ! i)) [0..<length rows]"
proof -
  let ?f = "\<lambda>m. fold (\<lambda>i cols. fold (\<lambda>c cols. cols[c := cols ! c @ [i]]) (rows ! i) cols) [0..<m] (replicate S [])"
  have "length (?f m) = S \<and> (\<forall>c < S. ?f m ! c = filter (\<lambda>i. c \<in> set (rows ! i)) [0..<m])" if "m \<le> length rows" for m
    using that
  proof (induction m)
    case (Suc m)
    then have "distinct (rows ! m)" "set (rows ! m) \<subseteq> {..<S}" using assms by (auto simp: rows_ok_def)
    then show ?case using Suc add_row_cols [of "rows ! m" "?f m" m] by simp
  qed simp
  then show "length (rebuildColumns S rows) = S"
    "c < S \<Longrightarrow> rebuildColumns S rows ! c = filter (\<lambda>i. c \<in> set (rows ! i)) [0..<length rows]"
    unfolding rebuildColumns_def by blast+
qed

section \<open>The invariant of the triangulation\<close>

text \<open>
  \<open>D\<close> are the columns that are fixed, \<open>E\<close> those of them whose rows are all taken.
  A column that is not fixed has the number of its rows that are left as its
  weight; the taken rows are the rows of the diagonal and of the gap; the row of
  a column has none of the columns before it.
\<close>
definition tri_inv :: "nat \<Rightarrow> paxos_sys \<Rightarrow> nat set \<Rightarrow> nat set \<Rightarrow> tri_state \<Rightarrow> bool" where
  "tri_inv S sys D E ts \<longleftrightarrow> wd_ok S D (ts_wd ts) \<and> length (rowSet ts) = length (mRows sys) \<and>
     (\<forall>c < S. c \<notin> D \<longrightarrow> mNodes (ts_wd ts) ! c = card {r. r < length (mRows sys) \<and> \<not> rowSet ts ! r \<and> c \<in> set (mRows sys ! r)}) \<and>
     set (mainRows ts) \<union> set (map fst (gapRows ts)) = {r. r < length (mRows sys) \<and> rowSet ts ! r} \<and>
     distinct (mainRows ts @ map fst (gapRows ts)) \<and>
     length (mainRows ts) = length (mainCols ts) \<and> distinct (mainCols ts) \<and> set (mainCols ts) \<subseteq> D \<and> E \<subseteq> D \<and>
     (\<forall>k < length (mainRows ts). mainCols ts ! k \<in> set (mRows sys ! (mainRows ts ! k)) \<and>
        (\<forall>j < k. mainCols ts ! j \<notin> set (mRows sys ! (mainRows ts ! k)))) \<and>
     (\<forall>c \<in> E. \<forall>r < length (mRows sys). \<not> rowSet ts ! r \<longrightarrow> c \<notin> set (mRows sys ! r)) \<and>
     snd ` set (gapRows ts) \<subseteq> set (mainRows ts)"

lemma tri_invD:
  assumes "tri_inv S sys D E ts"
  shows "wd_ok S D (ts_wd ts)" "length (rowSet ts) = length (mRows sys)"
    "c < S \<Longrightarrow> c \<notin> D \<Longrightarrow> mNodes (ts_wd ts) ! c = card {r. r < length (mRows sys) \<and> \<not> rowSet ts ! r \<and> c \<in> set (mRows sys ! r)}"
    "set (mainRows ts) \<union> set (map fst (gapRows ts)) = {r. r < length (mRows sys) \<and> rowSet ts ! r}"
    "distinct (mainRows ts @ map fst (gapRows ts))"
    "length (mainRows ts) = length (mainCols ts)" "distinct (mainCols ts)" "set (mainCols ts) \<subseteq> D" "E \<subseteq> D"
    "k < length (mainRows ts) \<Longrightarrow> mainCols ts ! k \<in> set (mRows sys ! (mainRows ts ! k))"
    "k < length (mainRows ts) \<Longrightarrow> j < k \<Longrightarrow> mainCols ts ! j \<notin> set (mRows sys ! (mainRows ts ! k))"
    "c \<in> E \<Longrightarrow> r < length (mRows sys) \<Longrightarrow> \<not> rowSet ts ! r \<Longrightarrow> c \<notin> set (mRows sys ! r)"
    "snd ` set (gapRows ts) \<subseteq> set (mainRows ts)"
  using assms by (simp_all add: tri_inv_def)

lemma tri_inv_clear:
  assumes "tri_inv S sys D E ts"
    and "\<And>c r. c \<in> D \<Longrightarrow> r < length (mRows sys) \<Longrightarrow> \<not> rowSet ts ! r \<Longrightarrow> c \<notin> set (mRows sys ! r)"
  shows "tri_inv S sys D D ts"
  unfolding tri_inv_def using assms(2) tri_invD [OF assms(1)] by (intro conjI) blast+

text \<open>A row that is left is taken out of its columns.\<close>
lemma mark_row_ok:
  assumes inv: "tri_inv S sys D E ts" and rows: "rows_ok S (mRows sys)"
    and r: "r < length (mRows sys)" "\<not> rowSet ts ! r"
  defines "wd \<equiv> fold dec_trim (mRows sys ! r) (ts_wd ts)" and "marks \<equiv> (rowSet ts)[r := True]"
  shows "foldR dec_col (mRows sys ! r) (ts_wd ts) = Inr wd \<or> foldR dec_col (mRows sys ! r) (ts_wd ts) = Inl empty_back \<and> S \<le> card D + 1"
    "wd_ok S D wd" "length marks = length (mRows sys)"
    "c < S \<Longrightarrow> c \<notin> D \<Longrightarrow> mNodes wd ! c = card {x. x < length (mRows sys) \<and> \<not> marks ! x \<and> c \<in> set (mRows sys ! x)}"
    "{x. x < length (mRows sys) \<and> marks ! x} = insert r {x. x < length (mRows sys) \<and> rowSet ts ! x}"
proof -
  note inv = tri_invD [OF inv]
  let ?R = "\<lambda>c. {x. x < length (mRows sys) \<and> \<not> rowSet ts ! x \<and> c \<in> set (mRows sys ! x)}"
  have row: "distinct (mRows sys ! r)" "set (mRows sys ! r) \<subseteq> {..<S}" using rows r(1) by (auto simp: rows_ok_def)
  have fin: "finite (?R c)" for c by simp
  have pos: "mNodes (ts_wd ts) ! c \<noteq> 0" if "c \<in> set (mRows sys ! r)" "c \<notin> D" for c
  proof -
    have "r \<in> ?R c" "c < S" using that r row(2) by auto
    then have "card (?R c) \<noteq> 0" using fin [of c] by (metis card_eq_0_iff empty_iff)
    then show ?thesis using inv(3) [OF \<open>c < S\<close> that(2)] by simp
  qed
  have cs: "\<forall>c \<in> set (mRows sys ! r). c < S \<and> (c \<notin> D \<longrightarrow> mNodes (ts_wd ts) ! c \<noteq> 0)" using pos row(2) by blast
  have dec: "wd_ok S D wd" "\<forall>c < S. mNodes wd ! c =
      (if c \<in> set (mRows sys ! r) \<and> c \<notin> D then mNodes (ts_wd ts) ! c - 1 else mNodes (ts_wd ts) ! c)"
    using dec_trims_ok [OF inv(1) row(1) cs] unfolding wd_def by blast+
  show "foldR dec_col (mRows sys ! r) (ts_wd ts) = Inr wd \<or> foldR dec_col (mRows sys ! r) (ts_wd ts) = Inl empty_back \<and> S \<le> card D + 1"
    unfolding wd_def by (rule dec_cols_eq [OF inv(1) row(1) cs])
  show "wd_ok S D wd" by (rule dec(1))
  show "length marks = length (mRows sys)" using inv(2) by (simp add: marks_def)
  show "{x. x < length (mRows sys) \<and> marks ! x} = insert r {x. x < length (mRows sys) \<and> rowSet ts ! x}"
    using r(1) inv(2) by (auto simp: marks_def nth_list_update split: if_splits)
  assume c: "c < S" "c \<notin> D"
  have "{x. x < length (mRows sys) \<and> \<not> marks ! x \<and> c \<in> set (mRows sys ! x)} = ?R c - {r}"
    using r(1) inv(2) by (auto simp: marks_def nth_list_update split: if_splits)
  moreover have "r \<in> ?R c \<longleftrightarrow> c \<in> set (mRows sys ! r)" using r by simp
  ultimately show "mNodes wd ! c = card {x. x < length (mRows sys) \<and> \<not> marks ! x \<and> c \<in> set (mRows sys ! x)}"
    using dec(2) c inv(3) [OF c] fin [of c] by (simp add: card_Diff_singleton_if)
qed

text \<open>What one row of the column \<open>col\<close> keeps: \<open>first\<close> tells whether its main row is still to come.\<close>
definition col_inv :: "nat \<Rightarrow> paxos_sys \<Rightarrow> nat set \<Rightarrow> nat \<Rightarrow> bool \<times> tri_state \<Rightarrow> bool" where
  "col_inv S sys E col st \<longleftrightarrow> tri_inv S sys (insert col E) E (snd st) \<and>
     (if fst st then set (mainCols (snd st)) = E
      else mainCols (snd st) \<noteq> [] \<and> set (mainCols (snd st)) = insert col E \<and> last (mainCols (snd st)) = col)"

lemma take_row_ok:
  assumes inv: "col_inv S sys E col st" and rows: "rows_ok S (mRows sys)" and col: "col \<notin> E"
    and r: "r < length (mRows sys)" "col \<in> set (mRows sys ! r)"
    and dense: "length (mDense sys) = length (mRows sys)"
  shows "(\<exists>st'. take_row sys col r st = Inr st' \<and> col_inv S sys E col st' \<and>
    (\<forall>x < length (mRows sys). rowSet (snd st') ! x \<longleftrightarrow> rowSet (snd st) ! x \<or> x = r) \<and>
    fst st' = (fst st \<and> rowSet (snd st) ! r)) \<or>
    take_row sys col r st = Inl (Runtime_error ''RTE_LOC'') \<and> \<not> distinct (mDense sys) \<or>
    take_row sys col r st = Inl empty_back \<and> S \<le> card E + 2"
proof (cases "rowSet (snd st) ! r")
  case True
  then show ?thesis using inv by (auto simp: take_row_def split: prod.splits)
next
  case False
  obtain first ts where st: "st = (first, ts)" by (cases st)
  have ti: "tri_inv S sys (insert col E) E ts" using inv by (simp add: col_inv_def st)
  have f: "\<not> rowSet ts ! r" using False by (simp add: st)
  note iv = tri_invD [OF ti] and dec = mark_row_ok(1) [OF ti rows r(1) f] and mk = mark_row_ok(2-) [OF ti rows r(1) f]
  define wd where "wd = fold dec_trim (mRows sys ! r) (ts_wd ts)"
  define ts1 where "ts1 = ts\<lparr>rowSet := (rowSet ts)[r := True], ts_wd := wd\<rparr>"
  have "E \<subseteq> {..<S}" using wd_okD(5) [OF iv(1)] by blast
  then have "card (insert col E) + 1 = card E + 2" using col finite_subset [of E "{..<S}"] by simp
  then consider (stop) "foldR dec_col (mRows sys ! r) (ts_wd ts) = Inl empty_back" "S \<le> card E + 2"
    | (go) "foldR dec_col (mRows sys ! r) (ts_wd ts) = Inr wd" using dec unfolding wd_def by linarith
  then show ?thesis
  proof cases
    case stop
    then show ?thesis using f by (simp add: take_row_def st)
  next
    case go
    have taken: "rowSet ts1 ! x \<longleftrightarrow> rowSet ts ! x \<or> x = r" if "x < length (mRows sys)" for x
      using that iv(2) by (cases "x = r") (simp_all add: ts1_def)
    have new: "r \<notin> set (mainRows ts)" "r \<notin> fst ` set (gapRows ts)" using iv(4) f by auto
    have clear: "c \<notin> set (mRows sys ! x)" if "c \<in> E" "x < length (mRows sys)" "\<not> rowSet ts1 ! x" for c x
      using iv(12) that taken by blast
    show ?thesis
    proof (cases first)
      case True
      let ?ts = "ts1\<lparr>mainCols := mainCols ts1 @ [col], mainRows := mainRows ts1 @ [r]\<rparr>"
      have mc: "set (mainCols ts) = E" using inv True by (simp add: col_inv_def st)
      have "mainCols ts ! j \<notin> set (mRows sys ! r)" if "j < length (mainCols ts)" for j
        using iv(12) [of "mainCols ts ! j" r] that mc r(1) f by auto
      then have tri: "(mainCols ts @ [col]) ! k \<in> set (mRows sys ! ((mainRows ts @ [r]) ! k)) \<and>
          (\<forall>j < k. (mainCols ts @ [col]) ! j \<notin> set (mRows sys ! ((mainRows ts @ [r]) ! k)))"
        if "k < length (mainRows ts @ [r])" for k
        using that iv(6,10,11) r(2) by (cases "k = length (mainRows ts)") (auto simp: nth_append)
      have "tri_inv S sys (insert col E) E ?ts"
        unfolding tri_inv_def using mk iv(4-9,13) new mc col tri clear by (auto simp: ts1_def wd_def)
      then show ?thesis using True f taken mc go by (auto simp: take_row_def st col_inv_def ts1_def Let_def)
    next
      case False
      have mc: "mainCols ts \<noteq> []" "set (mainCols ts) = insert col E" using inv False by (simp_all add: col_inv_def st)
      then have mr: "last (mainRows ts) \<in> set (mainRows ts)" using iv(6) by (intro last_in_set) auto
      then have lr: "last (mainRows ts) < length (mRows sys)" "last (mainRows ts) \<noteq> r" using iv(4) new by auto
      have last1: "last (mainRows ts1) = last (mainRows ts)" by (simp add: ts1_def)
      let ?ts = "ts1\<lparr>gapRows := gapRows ts1 @ [(r, last (mainRows ts1))]\<rparr>"
      have "tri_inv S sys (insert col E) E ?ts"
        unfolding tri_inv_def using mk iv(4-11,13) new mr clear by (auto simp: ts1_def wd_def)
      then have col': "col_inv S sys E col (False, ?ts)" using mc inv False by (simp add: col_inv_def st ts1_def)
      show ?thesis
      proof (cases "mDense sys ! last (mainRows ts) = mDense sys ! r")
        case True
        then have "\<not> distinct (mDense sys)" using lr r(1) dense by (auto simp: distinct_conv_nth)
        moreover have "take_row sys col r st = Inl (Runtime_error ''RTE_LOC'')"
          using True False f go by (simp add: take_row_def st Let_def)
        ultimately show ?thesis by blast
      next
        case ne: False
        then have "take_row sys col r st = Inr (False, ?ts)" using False f go by (simp add: take_row_def st Let_def ts1_def)
        moreover have "rowSet ?ts = rowSet ts1" by simp
        ultimately show ?thesis using col' taken False f by (simp add: st)
      qed
    qed
  qed
qed

lemma take_rows_ok:
  assumes rows: "rows_ok S (mRows sys)" and col: "col \<notin> E" and dense: "length (mDense sys) = length (mRows sys)"
  shows "col_inv S sys E col st \<Longrightarrow> \<forall>r \<in> set rs. r < length (mRows sys) \<and> col \<in> set (mRows sys ! r) \<Longrightarrow>
    (\<exists>st'. foldR (take_row sys col) rs st = Inr st' \<and> col_inv S sys E col st' \<and>
      (\<forall>x < length (mRows sys). rowSet (snd st') ! x \<longleftrightarrow> rowSet (snd st) ! x \<or> x \<in> set rs) \<and>
      fst st' = (fst st \<and> (\<forall>r \<in> set rs. rowSet (snd st) ! r))) \<or>
    foldR (take_row sys col) rs st = Inl (Runtime_error ''RTE_LOC'') \<and> \<not> distinct (mDense sys) \<or>
    foldR (take_row sys col) rs st = Inl empty_back \<and> S \<le> card E + 2"
proof (induction rs arbitrary: st)
  case (Cons r rs)
  have r: "r < length (mRows sys)" "col \<in> set (mRows sys ! r)" using Cons.prems(2) by simp_all
  from take_row_ok [OF Cons.prems(1) rows col r dense]
  show ?case
  proof
    assume "\<exists>st'. take_row sys col r st = Inr st' \<and> col_inv S sys E col st' \<and>
      (\<forall>x < length (mRows sys). rowSet (snd st') ! x \<longleftrightarrow> rowSet (snd st) ! x \<or> x = r) \<and> fst st' = (fst st \<and> rowSet (snd st) ! r)"
    then obtain st1 where st1: "take_row sys col r st = Inr st1" "col_inv S sys E col st1"
      "\<forall>x < length (mRows sys). rowSet (snd st1) ! x \<longleftrightarrow> rowSet (snd st) ! x \<or> x = r" "fst st1 = (fst st \<and> rowSet (snd st) ! r)" by blast
    have "\<forall>r \<in> set rs. r < length (mRows sys) \<and> col \<in> set (mRows sys ! r)" using Cons.prems(2) by simp
    from Cons.IH [OF st1(2) this] show ?thesis
    proof
      assume "\<exists>st'. foldR (take_row sys col) rs st1 = Inr st' \<and> col_inv S sys E col st' \<and>
        (\<forall>x < length (mRows sys). rowSet (snd st') ! x \<longleftrightarrow> rowSet (snd st1) ! x \<or> x \<in> set rs) \<and>
        fst st' = (fst st1 \<and> (\<forall>r \<in> set rs. rowSet (snd st1) ! r))"
      then obtain st' where st': "foldR (take_row sys col) rs st1 = Inr st'" "col_inv S sys E col st'"
        "\<forall>x < length (mRows sys). rowSet (snd st') ! x \<longleftrightarrow> rowSet (snd st1) ! x \<or> x \<in> set rs"
        "fst st' = (fst st1 \<and> (\<forall>r \<in> set rs. rowSet (snd st1) ! r))" by blast
      have "fst st' = (fst st \<and> (\<forall>x \<in> set (r # rs). rowSet (snd st) ! x))"
        using st'(4) st1(3,4) Cons.prems(2) by auto
      then show ?thesis using st1(1,3) st'(1-3) by (intro disjI1 exI [of _ st']) auto
    qed (use st1 in auto)
  qed auto
qed simp

lemma tri_step_ok:
  assumes inv: "tri_inv S sys D D ts" "set (mainCols ts) = D" and rows: "rows_ok S (mRows sys)"
    and cols: "mCols sys = rebuildColumns S (mRows sys)" and dense: "length (mDense sys) = length (mRows sys)"
    and more: "1 < length (mWeightSets (ts_wd ts))"
  shows "(\<exists>col ts'. tri_step sys ts = Inr ts' \<and> col < S \<and> col \<notin> D \<and> tri_inv S sys (insert col D) (insert col D) ts' \<and>
      set (mainCols ts') = insert col D) \<or>
    tri_step sys ts = Inl (Runtime_error ''RTE_LOC'') \<and> \<not> distinct (mDense sys) \<or>
    tri_step sys ts = Inl empty_back \<and> S \<le> length (mRows sys) + 1"
proof -
  note iv = tri_invD [OF inv(1)]
  obtain col where col: "getMinWeightNode (ts_wd ts) = Inr col" "col < S" "col \<notin> D" "0 < mNodes (ts_wd ts) ! col"
    using getMinWeightNode_ok [OF iv(1) more] by blast
  define wd where "wd = (pop_trim col (ts_wd ts))\<lparr>mNodes := (mNodes (pop_trim col (ts_wd ts)))[col := 0]\<rparr>"
  have nodes: "mNodes (pop_trim col (ts_wd ts)) = mNodes (ts_wd ts)" by (rule pop_trim_ok(1) [OF iv(1) col(2,3)])
  have wd: "wd_ok S (insert col D) wd" unfolding wd_def nodes by (rule fix_col_ok [OF iv(1) col(2,3)])
  have "tri_inv S sys (insert col D) D (ts\<lparr>ts_wd := wd\<rparr>)"
    unfolding tri_inv_def using wd iv col(2) by (auto simp: wd_def nodes)
  then have start: "col_inv S sys D col (True, ts\<lparr>ts_wd := wd\<rparr>)" using inv(2) by (simp add: col_inv_def)
  have rs: "mCols sys ! col = filter (\<lambda>i. col \<in> set (mRows sys ! i)) [0..<length (mRows sys)]"
    using rebuildColumns_ok(2) [OF rows col(2)] cols by simp
  then have mem: "\<forall>r \<in> set (mCols sys ! col). r < length (mRows sys) \<and> col \<in> set (mRows sys ! r)" by simp
  let ?R = "{r. r < length (mRows sys) \<and> \<not> rowSet ts ! r \<and> col \<in> set (mRows sys ! r)}"
  have "card ?R \<noteq> 0" using iv(3) [OF col(2,3)] col(4) by linarith
  then have "?R \<noteq> {}" by (metis card.empty)
  then obtain r where r: "r < length (mRows sys)" "\<not> rowSet ts ! r" "col \<in> set (mRows sys ! r)" by blast
  have few: "card D + 1 \<le> length (mRows sys)"
  proof -
    have "card D = card (set (mainRows ts))" using inv(2) iv(5-7) by (metis distinct_append distinct_card)
    moreover have "insert r (set (mainRows ts)) \<subseteq> {..<length (mRows sys)}" "r \<notin> set (mainRows ts)" using iv(4) r by auto
    ultimately show ?thesis using card_mono [of "{..<length (mRows sys)}" "insert r (set (mainRows ts))"] by simp
  qed
  show ?thesis
  proof (cases "insert col D = {..<S}")
    case True
    then have "tri_step sys ts = Inl empty_back" using col(1) popNode_eq [OF iv(1) col(2,3)] by (simp add: tri_step_def)
    then show ?thesis using last_column [OF True] few by simp
  next
    case False
    then have run: "tri_step sys ts = rbind (foldR (take_row sys col) (mCols sys ! col) (True, ts\<lparr>ts_wd := wd\<rparr>))
        (\<lambda>(first, ts). if first then Inl (Runtime_error ''RTE_LOC'') else Inr ts)"
      using col(1) popNode_eq [OF iv(1) col(2,3)] by (simp add: tri_step_def wd_def Let_def)
    from take_rows_ok [OF rows col(3) dense start mem] show ?thesis
    proof
      assume "\<exists>st'. foldR (take_row sys col) (mCols sys ! col) (True, ts\<lparr>ts_wd := wd\<rparr>) = Inr st' \<and> col_inv S sys D col st' \<and>
        (\<forall>x < length (mRows sys). rowSet (snd st') ! x \<longleftrightarrow> rowSet (snd (True, ts\<lparr>ts_wd := wd\<rparr>)) ! x \<or> x \<in> set (mCols sys ! col)) \<and>
        fst st' = (fst (True, ts\<lparr>ts_wd := wd\<rparr>) \<and> (\<forall>r \<in> set (mCols sys ! col). rowSet (snd (True, ts\<lparr>ts_wd := wd\<rparr>)) ! r))"
      then obtain b ts' where st': "foldR (take_row sys col) (mCols sys ! col) (True, ts\<lparr>ts_wd := wd\<rparr>) = Inr (b, ts')"
        "col_inv S sys D col (b, ts')" "\<forall>x < length (mRows sys). rowSet ts' ! x \<longleftrightarrow> rowSet ts ! x \<or> x \<in> set (mCols sys ! col)"
        "b = (\<forall>r \<in> set (mCols sys ! col). rowSet ts ! r)" by auto
      have b: "\<not> b" using st'(4) rs r by auto
      have t: "tri_inv S sys (insert col D) D ts'" "set (mainCols ts') = insert col D" using st'(2) b by (simp_all add: col_inv_def)
      have "c \<notin> set (mRows sys ! r)" if "c \<in> insert col D" "r < length (mRows sys)" "\<not> rowSet ts' ! r" for c r
      proof
        assume c: "c \<in> set (mRows sys ! r)"
        then have "c \<notin> D" using tri_invD(12) [OF t(1) _ that(2,3)] by blast
        then have "r \<in> set (mCols sys ! col)" using c that(1,2) rs by simp
        then show False using st'(3) that(2,3) by blast
      qed
      then have "tri_inv S sys (insert col D) (insert col D) ts'" by (intro tri_inv_clear [OF t(1)]) blast
      then show ?thesis using run st'(1) b t(2) col(2,3) by auto
    qed (use run few in auto)
  qed
qed

text \<open>The loop ends: a column is fixed in every round.\<close>
lemma tri_loop_ok:
  assumes rows: "rows_ok S (mRows sys)" and cols: "mCols sys = rebuildColumns S (mRows sys)"
    and dense: "length (mDense sys) = length (mRows sys)"
  shows "tri_inv S sys D D ts \<Longrightarrow> set (mainCols ts) = D \<Longrightarrow> D \<subseteq> {..<S} \<Longrightarrow>
    (\<exists>ts'. tri_loop sys ts = Some (Inr ts') \<and> tri_inv S sys (set (mainCols ts')) (set (mainCols ts')) ts' \<and>
      length (mWeightSets (ts_wd ts')) \<le> 1) \<or>
    tri_loop sys ts = Some (Inl (Runtime_error ''RTE_LOC'')) \<and> \<not> distinct (mDense sys) \<or>
    tri_loop sys ts = Some (Inl empty_back) \<and> S \<le> length (mRows sys) + 1"
proof (induction "S - card D" arbitrary: D ts rule: less_induct)
  case less
  show ?case
  proof (cases "1 < length (mWeightSets (ts_wd ts))")
    case False
    then have "tri_loop sys ts = Some (Inr ts)" by (simp add: tri_loop.simps)
    then show ?thesis using less.prems False by (intro disjI1 exI [of _ ts]) simp
  next
    case True
    from tri_step_ok [OF less.prems(1,2) rows cols dense True] show ?thesis
    proof
      assume "\<exists>col ts'. tri_step sys ts = Inr ts' \<and> col < S \<and> col \<notin> D \<and> tri_inv S sys (insert col D) (insert col D) ts' \<and>
        set (mainCols ts') = insert col D"
      then obtain col ts' where st: "tri_step sys ts = Inr ts'" "col < S" "col \<notin> D"
        "tri_inv S sys (insert col D) (insert col D) ts'" "set (mainCols ts') = insert col D" by blast
      have D: "insert col D \<subseteq> {..<S}" "finite D" using less.prems(3) st(2) finite_subset by auto
      have "card (insert col D) \<le> S" using card_mono [OF _ D(1)] by simp
      then have "S - card (insert col D) < S - card D" using D(2) st(3) by simp
      from less.hyps [OF this st(4,5) D(1)] show ?thesis
        using True st(1) by (simp add: tri_loop.simps [of sys ts])
    next
      assume "tri_step sys ts = Inl (Runtime_error ''RTE_LOC'') \<and> \<not> distinct (mDense sys) \<or>
        tri_step sys ts = Inl empty_back \<and> S \<le> length (mRows sys) + 1"
      then show ?thesis using True by (auto simp: tri_loop.simps [of sys ts])
    qed
  qed
qed

text \<open>The sets that \<open>init\<close> fills.\<close>
lemma weight_init_ok:
  assumes "\<forall>w \<in> set ws. w < 200" "ws \<noteq> []"
  shows "\<exists>wd. weight_init ws = Inr wd \<and> mNodes wd = ws \<and> wd_ok (length ws) {} wd"
proof -
  let ?f = "\<lambda>m. fold (\<lambda>i sets. sets[ws ! i := i # sets ! (ws ! i)]) [0..<m] (replicate 200 [])"
  have f: "length (?f m) = 200 \<and> (\<forall>w < 200. ?f m ! w = rev (filter (\<lambda>i. ws ! i = w) [0..<m]))" if "m \<le> length ws" for m
    using that
  proof (induction m)
    case (Suc m)
    then have "ws ! m < 200" using assms(1) by simp
    then show ?case using Suc by (auto simp: nth_list_update)
  qed simp
  define wd where "wd = \<lparr>mWeightSets = trim_sets (?f (length ws)), mNodes = ws\<rparr>"
  have b: "bucket (mWeightSets wd) w = (if w < 200 then rev (filter (\<lambda>i. ws ! i = w) [0..<length ws]) else [])" for w
    using f [of "length ws"] by (simp add: wd_def bucket_trim_sets) (simp add: bucket_def)
  have "wd_ok (length ws) {} wd"
    unfolding wd_ok_def using assms(1) last_trim_sets by (auto simp: b) (simp_all add: wd_def)
  moreover have "weight_init ws = Inr wd" using assms by (auto simp: weight_init_def wd_def)
  ultimately show ?thesis by (intro exI [of _ wd]) (simp add: wd_def)
qed

text \<open>
  What the solver needs of the triangulation: every row is on the diagonal or in
  the gap, once; the column of the \<open>k\<close>-th row is in that row and none of the
  columns before it is.
\<close>
definition triangular :: "nat list list \<Rightarrow> tri_state \<Rightarrow> bool" where
  "triangular rows ts \<longleftrightarrow>
     set (mainRows ts) \<union> fst ` set (gapRows ts) = {..<length rows} \<and> distinct (mainRows ts @ map fst (gapRows ts)) \<and>
     snd ` set (gapRows ts) \<subseteq> set (mainRows ts) \<and>
     length (mainRows ts) = length (mainCols ts) \<and> distinct (mainCols ts) \<and>
     (\<forall>k < length (mainRows ts). mainCols ts ! k \<in> set (rows ! (mainRows ts ! k)) \<and>
        (\<forall>j < k. mainCols ts ! j \<notin> set (rows ! (mainRows ts ! k))))"

text \<open>
  The triangulation ends; it fails only on two keys with the same dense part, or when there is at most
  one column more than there are rows, and then it may have run out of columns.
\<close>
lemma triangulate_ok:
  assumes rows: "rows_ok S (mRows sys)" and cols: "mCols sys = rebuildColumns S (mRows sys)"
    and dense: "length (mDense sys) = length (mRows sys)" and S: "0 < S"
    and light: "\<forall>c \<in> set (mCols sys). length c < 200"
  shows "(\<exists>ts. triangulate sys = Some (Inr ts) \<and> triangular (mRows sys) ts \<and> set (mainCols ts) \<subseteq> {..<S} \<and>
      wd_ok S (set (mainCols ts)) (ts_wd ts)) \<or>
    triangulate sys = Some (Inl (Runtime_error ''RTE_LOC'')) \<and> \<not> distinct (mDense sys) \<or>
    triangulate sys = Some (Inl empty_back) \<and> S \<le> length (mRows sys) + 1"
proof -
  let ?ws = "map length (mCols sys)" and ?n = "length (mRows sys)"
  have len: "length ?ws = S" using rebuildColumns_ok(1) [OF rows] cols by simp
  then have "?ws \<noteq> []" using S by auto
  then obtain wd where wd: "weight_init ?ws = Inr wd" "mNodes wd = ?ws" "wd_ok S {} wd"
    using weight_init_ok [of ?ws] light len by auto
  define ts where "ts = \<lparr>ts_wd = wd, rowSet = replicate ?n False, mainRows = [], mainCols = [], gapRows = []\<rparr>"
  have w: "?ws ! c = card {r. r < ?n \<and> c \<in> set (mRows sys ! r)}" if "c < S" for c
  proof -
    have "{i. i < ?n \<and> c \<in> set (mRows sys ! ([0..<?n] ! i))} = {i. i < ?n \<and> c \<in> set (mRows sys ! i)}" by auto
    then show ?thesis
      using rebuildColumns_ok(2) [OF rows that] cols len that by (simp add: length_filter_conv_card)
  qed
  have "{r. r < ?n \<and> \<not> replicate ?n False ! r \<and> c \<in> set (mRows sys ! r)} = {r. r < ?n \<and> c \<in> set (mRows sys ! r)}" for c by auto
  then have "tri_inv S sys {} {} ts" using wd w by (simp add: tri_inv_def ts_def)
  then have "(\<exists>ts'. tri_loop sys ts = Some (Inr ts') \<and> tri_inv S sys (set (mainCols ts')) (set (mainCols ts')) ts' \<and>
      length (mWeightSets (ts_wd ts')) \<le> 1) \<or>
    tri_loop sys ts = Some (Inl (Runtime_error ''RTE_LOC'')) \<and> \<not> distinct (mDense sys) \<or>
    tri_loop sys ts = Some (Inl empty_back) \<and> S \<le> length (mRows sys) + 1"
    by (rule tri_loop_ok [OF rows cols dense _ _ empty_subsetI]) (simp add: ts_def)
  moreover have run: "triangulate sys = tri_loop sys ts" by (simp add: triangulate_def wd ts_def)
  moreover have "triangular (mRows sys) t \<and> set (mainCols t) \<subseteq> {..<S} \<and> wd_ok S (set (mainCols t)) (ts_wd t)"
    if t: "tri_inv S sys (set (mainCols t)) (set (mainCols t)) t" and few: "length (mWeightSets (ts_wd t)) \<le> 1" for t
  proof -
    note iv = tri_invD [OF t]
    have all: "rowSet t ! r" if r: "r < ?n" for r
    proof (rule ccontr)
      assume nr: "\<not> rowSet t ! r"
      have "mRows sys ! r \<noteq> []" "set (mRows sys ! r) \<subseteq> {..<S}" using rows r by (auto simp: rows_ok_def)
      then obtain c where c: "c \<in> set (mRows sys ! r)" "c < S" by (metis hd_in_set lessThan_iff subsetD)
      have nc: "c \<notin> set (mainCols t)" using iv(12) r nr c(1) by blast
      let ?R = "{x. x < ?n \<and> \<not> rowSet t ! x \<and> c \<in> set (mRows sys ! x)}"
      have "r \<in> ?R" "finite ?R" using r nr c(1) by simp_all
      then have "0 < card ?R" using card_gt_0_iff by blast
      then have "0 < mNodes (ts_wd t) ! c" using iv(3) [OF c(2) nc] by linarith
      then have "bucket (mWeightSets (ts_wd t)) (mNodes (ts_wd t) ! c) = []" using few by (simp add: bucket_def)
      then show False using wd_okD(4) [OF iv(1) c(2) nc] by simp
    qed
    then have "set (mainRows t) \<union> fst ` set (gapRows t) = {..<?n}" using iv(4) by auto
    moreover have "set (mainCols t) \<subseteq> {..<S}" using wd_okD(5) [OF iv(1)] by auto
    ultimately show ?thesis using iv by (simp add: triangular_def)
  qed
  ultimately show ?thesis unfolding run by blast
qed

section \<open>Properties\<close>

text \<open>C13. The sets of columns stay well formed: while a column has weight, and it is not the
  only one left, taking it to the next lower weight and fixing it both keep every column
  that is not fixed in the set of its weight, once, and no empty set at the end; the only
  column left cannot be taken out, the code reads in front of the vector of sets; and the
  column that is picked has the least positive weight.
\<close>
theorem weight_sets_wf:
  assumes "wd_ok S D wd" "c < S" "c \<notin> D" "mNodes wd ! c \<noteq> 0"
  shows "(if insert c D = {..<S} then dec_col c wd = Inl empty_back \<and> popNode c wd = Inl empty_back
     else (\<exists>wd'. dec_col c wd = Inr wd' \<and> wd_ok S D wd') \<and>
       (\<exists>wd'. popNode c wd = Inr wd' \<and> wd_ok S (insert c D) (wd'\<lparr>mNodes := (mNodes wd)[c := 0]\<rparr>))) \<and>
    (\<exists>d < S. getMinWeightNode wd = Inr d \<and> d \<notin> D \<and> 0 < mNodes wd ! d \<and>
      (\<forall>c' < S. c' \<notin> D \<longrightarrow> 0 < mNodes wd ! c' \<longrightarrow> mNodes wd ! d \<le> mNodes wd ! c'))"
proof -
  have "c \<in> set (bucket (mWeightSets wd) (mNodes wd ! c))" using wd_okD(4) [OF assms(1-3)] .
  then have "1 < length (mWeightSets wd)" using assms(4) by (auto simp: bucket_def split: if_splits)
  then show ?thesis
    using dec_trim_ok(1) [OF assms(1,2,4)] fix_col_ok [OF assms(1-3)] getMinWeightNode_ok [OF assms(1)]
      popNode_eq [OF assms(1-3)] dec_col_eq [OF assms(1,2,4)] assms(3) by auto
qed

lemma weight_sets_wf_witness:
  "\<exists>wd wd'. weight_init [1, 2] = Inr wd \<and> dec_col 1 wd = Inr wd' \<and> wd_ok 2 {} wd'"
proof -
  obtain wd where wd: "weight_init [1, 2] = Inr wd" "mNodes wd = [1, 2]" "wd_ok 2 {} wd" using weight_init_ok [of "[1, 2]"] by (auto simp: numeral_2_eq_2)
  have "0 \<notin> insert 1 ({} :: nat set)" by simp
  then have "insert 1 {} \<noteq> {..<2 :: nat}" by (metis lessThan_iff zero_less_numeral)
  moreover have "mNodes wd ! 1 \<noteq> 0" by (simp add: wd(2))
  ultimately obtain wd' where "dec_col 1 wd = Inr wd'" "wd_ok 2 {} wd'"
    using weight_sets_wf [OF wd(3), of 1] by (metis empty_iff one_less_numeral_iff semiring_norm(76))
  then show ?thesis using wd(1) by blast
qed

text \<open>C14. \<open>triangulate\<close> ends on every system with light columns.  Either every row is on
  the diagonal or in the gap, exactly once, each row of the diagonal has its own column
  and none of the columns picked before it, or the code reports a duplicate and two
  dense parts are equal, or it runs out of columns and reads in front of the vector of
  sets, which takes a system with at most one column more than it has rows.
\<close>
theorem triangulate_terminates:
  assumes "rows_ok S (mRows sys)" "mCols sys = rebuildColumns S (mRows sys)" "length (mDense sys) = length (mRows sys)" "0 < S"
    and "\<forall>c \<in> set (mCols sys). length c < 200"
  shows "(\<exists>ts. triangulate sys = Some (Inr ts) \<and> triangular (mRows sys) ts \<and> set (mainCols ts) \<subseteq> {..<S}) \<or>
    triangulate sys = Some (Inl (Runtime_error ''RTE_LOC'')) \<and> \<not> distinct (mDense sys) \<or>
    triangulate sys = Some (Inl empty_back) \<and> S \<le> length (mRows sys) + 1"
  using triangulate_ok [OF assms] by blast

text \<open>One column and one row: taking the column out empties the sets.\<close>
lemma triangulate_runs_out:
  "triangulate (set_input 1 [[0]] [7]) = Some (Inl empty_back)"
  "triangulate (set_input 2 [[0, 1]] [7]) = Some (Inl empty_back)"
  by code_simp+

text \<open>Four rows, of which the last is left for the gap.\<close>
definition demo_sys :: paxos_sys where
  "demo_sys = set_input 5 [[0, 1, 2], [0, 1, 3], [2, 3, 4], [0, 1, 4]] [0, 0, 0, 1]"

definition demo_tri :: tri_state where
  "demo_tri = \<lparr>ts_wd = \<lparr>mWeightSets = [[2, 0]], mNodes = [0, 0, 0, 0, 0]\<rparr>, rowSet = [True, True, True, True],
     mainRows = [2, 1, 0], mainCols = [4, 3, 1], gapRows = [(3, 2)]\<rparr>"

lemma triangulate_demo: "triangulate demo_sys = Some (Inr demo_tri)"
  by code_simp

lemma demo_sys_ok:
  "rows_ok 5 (mRows demo_sys)" "mCols demo_sys = rebuildColumns 5 (mRows demo_sys)" "length (mDense demo_sys) = length (mRows demo_sys)"
  "\<forall>c \<in> set (mCols demo_sys). length c < 200"
proof -
  show "rows_ok 5 (mRows demo_sys)" by (simp add: demo_sys_def set_input_def rows_ok_def)
  show "mCols demo_sys = rebuildColumns 5 (mRows demo_sys)" by (simp add: demo_sys_def set_input_def)
  show "length (mDense demo_sys) = length (mRows demo_sys)" by (simp add: demo_sys_def set_input_def)
  show "\<forall>c \<in> set (mCols demo_sys). length c < 200" by code_simp
qed

lemma triangulate_terminates_witness: "triangular (mRows demo_sys) demo_tri"
  using triangulate_terminates [OF demo_sys_ok(1-3) _ demo_sys_ok(4)] by (simp add: triangulate_demo)

end
