(* ===== verification/Paxos_Encode.thy ===== *)
theory Paxos_Encode
  imports Paxos_Solve
begin

text \<open>
  fpsi/opprf/PaxosImpl.h, the second half of the solver: \<open>getFCInv\<close> writes a row of
  the gap as a sum of rows of the diagonal, \<open>backfillGf128\<close> and \<open>backfillBinary\<close>
  solve for the dense columns and substitute back, \<open>encode\<close> runs it all.  A
  generator is the sequence of the blocks it draws; the inverse of a bit matrix and
  the enumeration of combinations are functions of the crypto library and arguments.
\<close>

section \<open>Cancelling a row of the gap\<close>

text \<open>\<open>colMapping\<close>: a column of the diagonal has the index of its row, counted from the last one.\<close>
definition col_mapping :: "nat \<Rightarrow> nat list \<Rightarrow> nat option list" where
  "col_mapping sz mc =
     (let m = length mc
      in fold (\<lambda>i cm. cm[mc ! (m - i - 1) := Some i]) [0..<m] (replicate sz None))"

text \<open>Xor one column of the added row into \<open>row\<close>.\<close>
definition fc_toggle :: "nat option list \<Rightarrow> nat \<Rightarrow> nat set \<Rightarrow> nat set" where
  "fc_toggle cm HCol row =
     (case cm ! HCol of None \<Rightarrow> row | Some CCol2 \<Rightarrow> if CCol2 \<in> row then row - {CCol2} else insert CCol2 row)"

text \<open>Cancel the largest column of \<open>row\<close> until none is left.\<close>
partial_function (option) fc_loop :: "nat list list \<Rightarrow> nat list \<Rightarrow> nat option list \<Rightarrow> nat set \<Rightarrow> nat list option" where
  "fc_loop rows mr cm row =
     (if row = {} then Some []
      else
        let CCol = Max row; HRow = mr ! (length mr - CCol - 1)
        in Option.bind (fc_loop rows mr cm (fold (fc_toggle cm) (rows ! HRow) row)) (\<lambda>rest. Some (HRow # rest)))"

declare fc_loop.simps [code]

definition fc_row :: "nat list list \<Rightarrow> nat list \<Rightarrow> nat option list \<Rightarrow> nat \<times> nat \<Rightarrow> nat list option" where
  "fc_row rows mr cm gap =
     (if rows ! fst gap = rows ! snd gap then Some [snd gap]
      else fc_loop rows mr cm
        (fold (\<lambda>c1 row. case cm ! c1 of None \<Rightarrow> row | Some i \<Rightarrow> insert i row) (rows ! fst gap) {}))"

definition getFCInv :: "nat \<Rightarrow> nat list list \<Rightarrow> tri_state \<Rightarrow> nat list list option" where
  "getFCInv sz rows ts =
     those (map (fc_row rows (mainRows ts) (col_mapping sz (mainCols ts))) (gapRows ts))"

section \<open>Back substitution\<close>

text \<open>
  From the last row of the diagonal to the first: the column of the row takes what
  is missing.  \<open>dn i P y\<close> adds the dense part of row \<open>i\<close> to \<open>y\<close>.
\<close>
definition back_row ::
  "nat list list \<Rightarrow> (nat \<Rightarrow> block list \<Rightarrow> block \<Rightarrow> block) \<Rightarrow> block list \<Rightarrow> nat \<times> nat \<Rightarrow> block list \<Rightarrow> block list" where
  "back_row rows dn X ic P =
     (let (i, c) = ic in P[c := dn i P (fold (\<lambda>cc y. y XOR P ! cc) (rows ! i) (X ! i))])"

definition back_substitute ::
  "nat list list \<Rightarrow> (nat \<Rightarrow> block list \<Rightarrow> block \<Rightarrow> block) \<Rightarrow> block list \<Rightarrow> tri_state \<Rightarrow> block list \<Rightarrow> block list" where
  "back_substitute rows dn X ts P = fold (back_row rows dn X) (rev (zip (mainRows ts) (mainCols ts))) P"

section \<open>Sums over rows\<close>

text \<open>The sparse part of a row of the system.\<close>
definition sparse_sum :: "nat list list \<Rightarrow> block list \<Rightarrow> nat \<Rightarrow> block" where
  "sparse_sum rows P i = xor_list (map ((!) P) (rows ! i))"

lemma fold_xor_map: "fold (\<lambda>c y. y XOR f c) cs a = a XOR xor_list (map f cs)" for a :: block
  by (induction cs arbitrary: a) (simp_all add: xor.assoc)

lemma xor_list_map_xor: "xor_list (map (\<lambda>x. f x XOR g x) xs) = xor_list (map f xs) XOR xor_list (map g xs)"
  for f :: "'b \<Rightarrow> 'a::len word"
  by (induction xs) (simp_all add: xor_simps)

lemma xor_list_zero: "(\<And>x. x \<in> set xs \<Longrightarrow> f x = 0) \<Longrightarrow> xor_list (map f xs) = 0"
  by (induction xs) simp_all

lemma xor_list_swap:
  fixes f :: "'b \<Rightarrow> 'c \<Rightarrow> 'a::len word"
  shows "xor_list (map (\<lambda>x. xor_list (map (f x) cs)) xs) = xor_list (map (\<lambda>c. xor_list (map (\<lambda>x. f x c) xs)) cs)"
proof (induction xs)
  case (Cons x xs)
  then show ?case using xor_list_map_xor [of "f x" "\<lambda>c. xor_list (map (\<lambda>x. f x c) xs)" cs] by simp
qed (simp add: xor_list_zero)

lemma xor_list_parity: "xor_list (map (\<lambda>x. if A x then p else 0) xs) = (if odd (length (filter A xs)) then p else 0)"
  for p :: block
  by (induction xs) auto

lemma xor_list_update_other: "c \<notin> set cs \<Longrightarrow> xor_list (map ((!) (P[c := v])) cs) = xor_list (map ((!) P) cs)"
  by (metis (mono_tags, lifting) map_cong nth_list_update_neq)

lemma xor_list_update:
  fixes P :: "block list"
  assumes "distinct cs" "set cs \<subseteq> {..<length P}" "c \<in> set cs"
  shows "xor_list (map ((!) (P[c := v])) cs) = xor_list (map ((!) P) cs) XOR P ! c XOR v"
  using assms
proof (induction cs)
  case (Cons a cs)
  show ?case
  proof (cases "a = c")
    case True
    then have "xor_list (map ((!) (P[c := v])) cs) = xor_list (map ((!) P) cs)"
      using Cons.prems(1) by (intro xor_list_update_other) simp
    then show ?thesis using True Cons.prems by (simp add: xor_simps)
  next
    case False
    then show ?thesis using Cons by (simp add: nth_list_update xor.assoc)
  qed
qed simp

text \<open>A row as a sum over all columns.\<close>
lemma sparse_sum_cols:
  assumes "rows_ok S rows" "i < length rows"
  shows "sparse_sum rows P i = xor_list (map (\<lambda>c. if c \<in> set (rows ! i) then P ! c else 0) [0..<S])"
proof -
  have "distinct cs \<Longrightarrow> set cs \<subseteq> {..<S} \<Longrightarrow>
      xor_list (map ((!) P) cs) = xor_list (map (\<lambda>c. if c \<in> set cs then P ! c else 0) [0..<S])" for cs
  proof (induction cs)
    case (Cons a cs)
    have one: "xor_list (map (\<lambda>c. if c = a then P ! c else 0) [0..<n]) = (if a < n then P ! a else 0)" for n
      by (induction n) auto
    have "xor_list (map (\<lambda>c. if c \<in> set (a # cs) then P ! c else 0) [0..<S]) =
        xor_list (map (\<lambda>c. (if c = a then P ! c else 0) XOR (if c \<in> set cs then P ! c else 0)) [0..<S])"
      using Cons.prems(1) by (intro arg_cong [where f = xor_list] map_cong) auto
    then show ?case using Cons one [of S] by (simp add: xor_list_map_xor)
  qed (simp add: xor_list_zero)
  then show ?thesis using assms by (auto simp: sparse_sum_def rows_ok_def)
qed

text \<open>A sum of rows keeps the columns that occur an odd number of times.\<close>
lemma sparse_sum_rows:
  assumes "rows_ok S rows" "set xs \<subseteq> {..<length rows}"
  shows "xor_list (map (sparse_sum rows P) xs) =
    xor_list (map (\<lambda>c. if odd (length (filter (\<lambda>x. c \<in> set (rows ! x)) xs)) then P ! c else 0) [0..<S])"
proof -
  have "xor_list (map (sparse_sum rows P) xs) =
      xor_list (map (\<lambda>x. xor_list (map (\<lambda>c. if c \<in> set (rows ! x) then P ! c else 0) [0..<S])) xs)"
    using assms sparse_sum_cols by (intro arg_cong [where f = xor_list] map_cong) auto
  also have "\<dots> = xor_list (map (\<lambda>c. xor_list (map (\<lambda>x. if c \<in> set (rows ! x) then P ! c else 0) xs)) [0..<S])"
    by (rule xor_list_swap)
  finally show ?thesis by (simp only: xor_list_parity)
qed

section \<open>The rows that cancel a row of the gap\<close>

lemma rows_okD:
  assumes "rows_ok S rows" "i < length rows"
  shows "rows ! i \<noteq> []" "distinct (rows ! i)" "set (rows ! i) \<subseteq> {..<S}"
  using assms by (simp_all add: rows_ok_def)

text \<open>The indices of the columns of the diagonal that occur an odd number of times in the rows \<open>xs\<close>.\<close>
definition odd_cols :: "nat list list \<Rightarrow> tri_state \<Rightarrow> nat list \<Rightarrow> nat set" where
  "odd_cols rows ts xs =
     {i. i < length (mainCols ts) \<and> odd (length (filter (\<lambda>x. mainCols ts ! (length (mainCols ts) - i - 1) \<in> set (rows ! x)) xs))}"

lemma col_mapping_ok:
  assumes "distinct mc" "set mc \<subseteq> {..<sz}"
  shows "length (col_mapping sz mc) = sz"
    "c < sz \<Longrightarrow> col_mapping sz mc ! c = Some i \<longleftrightarrow> i < length mc \<and> mc ! (length mc - i - 1) = c"
proof -
  let ?m = "length mc"
  let ?f = "\<lambda>k. fold (\<lambda>i cm. cm[mc ! (?m - i - 1) := Some i]) [0..<k] (replicate sz None)"
  have "length (?f k) = sz \<and> (\<forall>c < sz. \<forall>i. ?f k ! c = Some i \<longleftrightarrow> i < k \<and> mc ! (?m - i - 1) = c)" if "k \<le> ?m" for k
    using that
  proof (induction k)
    case (Suc k)
    have k: "mc ! (?m - k - 1) < sz" using assms(2) Suc.prems by (auto simp: subset_iff)
    have inj: "mc ! (?m - i - 1) \<noteq> mc ! (?m - k - 1)" if "i < k" for i
      using that Suc.prems assms(1) by (subst nth_eq_iff_index_eq) auto
    have "?f (Suc k) = (?f k)[mc ! (?m - k - 1) := Some k]" by simp
    then show ?case using Suc k inj by (auto simp: nth_list_update less_Suc_eq)
  qed simp
  from this [of ?m] show "length (col_mapping sz mc) = sz"
    "c < sz \<Longrightarrow> col_mapping sz mc ! c = Some i \<longleftrightarrow> i < length mc \<and> mc ! (length mc - i - 1) = c"
    by (simp_all add: col_mapping_def Let_def)
qed

text \<open>Adding a row of distinct columns flips its columns.\<close>
lemma fc_toggles:
  assumes cm: "\<And>c i. c < sz \<Longrightarrow> cm ! c = Some i \<longleftrightarrow> i < m \<and> mc i = c"
    and cs: "distinct cs" "set cs \<subseteq> {..<sz}"
  shows "fold (fc_toggle cm) cs row = {i. (i \<in> row) \<noteq> (i < m \<and> mc i \<in> set cs)}"
  using cs
proof (induction cs arbitrary: row)
  case (Cons a cs)
  have "i \<in> fc_toggle cm a row \<longleftrightarrow> (i \<in> row) \<noteq> (i < m \<and> mc i = a)" for i
  proof -
    have "cm ! a = Some i \<longleftrightarrow> i < m \<and> mc i = a" using cm Cons.prems(2) by simp
    then show ?thesis by (cases "cm ! a") (auto simp: fc_toggle_def)
  qed
  moreover have "a \<notin> set cs" using Cons.prems(1) by simp
  ultimately show ?case using Cons by auto
qed simp

lemma fc_insert:
  assumes cm: "\<And>c i. c < sz \<Longrightarrow> cm ! c = Some i \<longleftrightarrow> i < m \<and> mc i = c" and cs: "set cs \<subseteq> {..<sz}"
  shows "fold (\<lambda>c1 row. case cm ! c1 of None \<Rightarrow> row | Some i \<Rightarrow> insert i row) cs row = row \<union> {i. i < m \<and> mc i \<in> set cs}"
  using cs
proof (induction cs arbitrary: row)
  case (Cons a cs)
  have "cm ! a = Some i \<longleftrightarrow> i < m \<and> mc i = a" for i using cm Cons.prems by simp
  then have "{i. i < m \<and> mc i = a} = {i. cm ! a = Some i}" by simp
  then have "(case cm ! a of None \<Rightarrow> row | Some i \<Rightarrow> insert i row) = row \<union> {i. i < m \<and> mc i = a}"
    by (cases "cm ! a") auto
  then show ?case using Cons by auto
qed simp

text \<open>The loop ends: the largest column decreases.\<close>
lemma fc_loop_ok:
  assumes tri: "triangular rows ts" and rows: "rows_ok S rows" and mc: "set (mainCols ts) \<subseteq> {..<S}" "S \<le> sz"
    and row: "row = odd_cols rows ts xs" "row \<subseteq> {..<b}"
  shows "\<exists>L. fc_loop rows (mainRows ts) (col_mapping sz (mainCols ts)) row = Some L \<and> set L \<subseteq> set (mainRows ts) \<and>
    odd_cols rows ts (xs @ L) = {}"
  using row
proof (induction b arbitrary: row xs rule: less_induct)
  case (less b)
  let ?m = "length (mainCols ts)" and ?cm = "col_mapping sz (mainCols ts)"
  have t: "length (mainRows ts) = ?m" "distinct (mainCols ts)"
    "\<And>k. k < ?m \<Longrightarrow> mainCols ts ! k \<in> set (rows ! (mainRows ts ! k))"
    "\<And>k j. k < ?m \<Longrightarrow> j < k \<Longrightarrow> mainCols ts ! j \<notin> set (rows ! (mainRows ts ! k))"
    "set (mainRows ts) \<subseteq> {..<length rows}"
    using tri by (auto simp: triangular_def)
  show ?case
  proof (cases "row = {}")
    case True
    then show ?thesis using less.prems by (intro exI [of _ "[]"]) (simp add: fc_loop.simps)
  next
    case False
    define C where "C = Max row"
    define k where "k = ?m - C - 1"
    define H where "H = mainRows ts ! k"
    have "finite row" using less.prems(2) finite_subset by blast
    then have C: "C \<in> row" "\<forall>x \<in> row. x \<le> C" unfolding C_def using False by simp_all
    have Cm: "C < ?m" using C(1) less.prems(1) by (simp add: odd_cols_def)
    then have k: "k < ?m" "?m - C - 1 = k" by (auto simp: k_def)
    have H: "H < length rows" "H \<in> set (mainRows ts)" using t(1,5) k(1) by (auto simp: H_def subset_iff)
    then have hr: "distinct (rows ! H)" "set (rows ! H) \<subseteq> {..<sz}" using rows_okD [OF rows H(1)] mc(2) by auto
    have cm: "\<And>c i. c < sz \<Longrightarrow> ?cm ! c = Some i \<longleftrightarrow> i < ?m \<and> mainCols ts ! (?m - i - 1) = c"
      using col_mapping_ok(2) [OF t(2), of sz] mc by fastforce
    define row' where "row' = fold (fc_toggle ?cm) (rows ! H) row"
    have row': "row' = {i. (i \<in> row) \<noteq> (i < ?m \<and> mainCols ts ! (?m - i - 1) \<in> set (rows ! H))}"
      unfolding row'_def by (rule fc_toggles [OF cm hr])
    have odd: "row' = odd_cols rows ts (xs @ [H])" unfolding row' less.prems(1) odd_cols_def by auto
    have "i < C" if "i \<in> row'" for i
    proof (rule ccontr)
      assume "\<not> i < C"
      then consider "i = C" | "C < i" by linarith
      then show False
      proof cases
        case 1
        then show False using that C(1) Cm k t(3) [OF k(1)] by (simp add: row' H_def)
      next
        case 2
        then have "i \<notin> row" using C(2) by auto
        then have i: "i < ?m" "mainCols ts ! (?m - i - 1) \<in> set (rows ! H)" using that by (auto simp: row')
        have "?m - i - 1 < k" using 2 i(1) k_def by linarith
        then show False using t(4) [OF k(1)] i(2) by (simp add: H_def)
      qed
    qed
    then have sub: "row' \<subseteq> {..<C}" by auto
    have "C < b" using C(1) less.prems(2) by auto
    from less.IH [OF this odd sub] obtain L where L: "fc_loop rows (mainRows ts) ?cm row' = Some L"
      "set L \<subseteq> set (mainRows ts)" "odd_cols rows ts ((xs @ [H]) @ L) = {}" by blast
    have "fc_loop rows (mainRows ts) ?cm row = Some (H # L)"
      using L(1) False k(2) t(1) by (subst fc_loop.simps) (simp add: Let_def C_def row'_def H_def)
    then show ?thesis using L(2,3) H(2) by (intro exI [of _ "H # L"]) simp
  qed
qed

text \<open>Every column of the diagonal occurs an even number of times in a row of the gap and the rows found for it.\<close>
definition cancels :: "nat list list \<Rightarrow> tri_state \<Rightarrow> nat list \<Rightarrow> bool" where
  "cancels rows ts xs \<longleftrightarrow> (\<forall>c \<in> set (mainCols ts). even (length (filter (\<lambda>x. c \<in> set (rows ! x)) xs)))"

lemma odd_cols_cancels: "odd_cols rows ts xs = {} \<Longrightarrow> cancels rows ts xs"
proof -
  assume e: "odd_cols rows ts xs = {}"
  have "even (length (filter (\<lambda>x. mainCols ts ! k \<in> set (rows ! x)) xs))" if k: "k < length (mainCols ts)" for k
  proof (rule ccontr)
    let ?i = "length (mainCols ts) - k - 1"
    assume "\<not> ?thesis"
    moreover have "?i < length (mainCols ts)" "length (mainCols ts) - ?i - 1 = k" using k by auto
    ultimately have "?i \<in> odd_cols rows ts xs" by (simp add: odd_cols_def)
    then show False using e by simp
  qed
  then show ?thesis by (auto simp: cancels_def in_set_conv_nth)
qed

lemma fc_row_ok:
  assumes tri: "triangular rows ts" and rows: "rows_ok S rows" and mc: "set (mainCols ts) \<subseteq> {..<S}" "S \<le> sz"
    and gap: "(r, a) \<in> set (gapRows ts)"
  shows "\<exists>L. fc_row rows (mainRows ts) (col_mapping sz (mainCols ts)) (r, a) = Some L \<and> set L \<subseteq> set (mainRows ts) \<and>
    cancels rows ts (r # L) \<and> (rows ! r = rows ! a \<longrightarrow> L = [a])"
proof (cases "rows ! r = rows ! a")
  case True
  have "a \<in> snd ` set (gapRows ts)" using gap by force
  then have "a \<in> set (mainRows ts)" using tri unfolding triangular_def by blast
  then show ?thesis using True by (auto simp: fc_row_def cancels_def)
next
  case False
  let ?m = "length (mainCols ts)" and ?cm = "col_mapping sz (mainCols ts)"
  have "r \<in> fst ` set (gapRows ts)" using gap by force
  then have "r < length rows" using tri unfolding triangular_def by blast
  then have r: "set (rows ! r) \<subseteq> {..<sz}" using rows_okD(3) [OF rows] mc(2) by fastforce
  have "distinct (mainCols ts)" using tri by (simp add: triangular_def)
  then have cm: "\<And>c i. c < sz \<Longrightarrow> ?cm ! c = Some i \<longleftrightarrow> i < ?m \<and> mainCols ts ! (?m - i - 1) = c"
    using col_mapping_ok(2) [of "mainCols ts" sz] mc by fastforce
  have start: "fold (\<lambda>c1 row. case ?cm ! c1 of None \<Rightarrow> row | Some i \<Rightarrow> insert i row) (rows ! r) {} = odd_cols rows ts [r]"
    using fc_insert [where mc = "\<lambda>i. mainCols ts ! (?m - i - 1)", OF cm r, of "{}"] by (auto simp: odd_cols_def)
  have "odd_cols rows ts [r] \<subseteq> {..<?m}" by (auto simp: odd_cols_def)
  from fc_loop_ok [OF tri rows mc refl this] obtain L where
    "fc_loop rows (mainRows ts) ?cm (odd_cols rows ts [r]) = Some L" "set L \<subseteq> set (mainRows ts)" "odd_cols rows ts ([r] @ L) = {}"
    by blast
  then show ?thesis using False start odd_cols_cancels [of rows ts "r # L"] by (simp add: fc_row_def)
qed

lemma those_map: "(\<And>x. x \<in> set xs \<Longrightarrow> f x = Some (g x)) \<Longrightarrow> those (map f xs) = Some (map g xs)"
  by (induction xs) simp_all

text \<open>\<open>getFCInv\<close> returns for every row of the gap rows of the diagonal that cancel it.\<close>
lemma getFCInv_ok:
  assumes tri: "triangular rows ts" and rows: "rows_ok S rows" and mc: "set (mainCols ts) \<subseteq> {..<S}" "S \<le> sz"
  shows "\<exists>F. getFCInv sz rows ts = Some F \<and> length F = length (gapRows ts) \<and>
    (\<forall>i < length (gapRows ts). set (F ! i) \<subseteq> set (mainRows ts) \<and> cancels rows ts (fst (gapRows ts ! i) # F ! i) \<and>
      (rows ! fst (gapRows ts ! i) = rows ! snd (gapRows ts ! i) \<longrightarrow> F ! i = [snd (gapRows ts ! i)]))"
proof -
  let ?f = "fc_row rows (mainRows ts) (col_mapping sz (mainCols ts))"
  have "\<forall>x \<in> set (gapRows ts). \<exists>L. ?f x = Some L \<and> set L \<subseteq> set (mainRows ts) \<and> cancels rows ts (fst x # L) \<and>
    (rows ! fst x = rows ! snd x \<longrightarrow> L = [snd x])"
    using fc_row_ok [OF tri rows mc] by (metis prod.collapse)
  then obtain g where g: "\<forall>x \<in> set (gapRows ts). ?f x = Some (g x) \<and> set (g x) \<subseteq> set (mainRows ts) \<and>
    cancels rows ts (fst x # g x) \<and> (rows ! fst x = rows ! snd x \<longrightarrow> g x = [snd x])" by metis
  then have "getFCInv sz rows ts = Some (map g (gapRows ts))" unfolding getFCInv_def by (intro those_map) simp
  then show ?thesis using g by (intro exI [of _ "map g (gapRows ts)"]) simp
qed

section \<open>Back substitution solves the rows of the diagonal\<close>

text \<open>The dense part is added to the sum and reads no sparse position.\<close>
definition dense_part :: "nat \<Rightarrow> (nat \<Rightarrow> block list \<Rightarrow> block \<Rightarrow> block) \<Rightarrow> bool" where
  "dense_part S dn \<longleftrightarrow> (\<forall>i P y. dn i P y = y XOR dn i P 0) \<and> (\<forall>i P c v. c < S \<longrightarrow> dn i (P[c := v]) 0 = dn i P 0)"

lemma back_substitute_ok:
  fixes X :: "block list"
  assumes tri: "triangular rows ts" and rows: "rows_ok S rows" and mc: "set (mainCols ts) \<subseteq> {..<S}"
    and P: "S \<le> length P" "\<forall>c \<in> set (mainCols ts). P ! c = 0" and dn: "dense_part S dn"
  defines "P' \<equiv> back_substitute rows dn X ts P"
  shows "length P' = length P" "i \<notin> set (mainCols ts) \<Longrightarrow> P' ! i = P ! i" "dn x P' 0 = dn x P 0"
    "x \<in> set (mainRows ts) \<Longrightarrow> sparse_sum rows P' x XOR dn x P' 0 = X ! x"
proof -
  let ?m = "length (mainCols ts)" and ?zs = "zip (mainRows ts) (mainCols ts)" and ?f = "back_row rows dn X"
  let ?P = "\<lambda>n. fold ?f (rev (drop (?m - n) ?zs)) P"
  have t: "length (mainRows ts) = ?m" "distinct (mainCols ts)" "set (mainRows ts) \<subseteq> {..<length rows}"
    "\<And>k. k < ?m \<Longrightarrow> mainCols ts ! k \<in> set (rows ! (mainRows ts ! k))"
    "\<And>k j. k < ?m \<Longrightarrow> j < k \<Longrightarrow> mainCols ts ! j \<notin> set (rows ! (mainRows ts ! k))"
    using tri by (auto simp: triangular_def)
  have d: "dn i Q y = y XOR dn i Q 0" "c < S \<Longrightarrow> dn i (Q[c := v]) 0 = dn i Q 0" for i Q y c v
    using dn unfolding dense_part_def by blast+
  have main: "length (?P n) = length P \<and> (\<forall>i. (\<forall>j < ?m. ?m - n \<le> j \<longrightarrow> i \<noteq> mainCols ts ! j) \<longrightarrow> ?P n ! i = P ! i) \<and>
      (\<forall>x. dn x (?P n) 0 = dn x P 0) \<and>
      (\<forall>j < ?m. ?m - n \<le> j \<longrightarrow> sparse_sum rows (?P n) (mainRows ts ! j) XOR dn (mainRows ts ! j) P 0 = X ! (mainRows ts ! j))"
    if "n \<le> ?m" for n
    using that
  proof (induction n)
    case 0
    then show ?case by (simp add: t(1))
  next
    case (Suc n)
    define k where "k = ?m - Suc n"
    have k: "k < ?m" "?m - n = Suc k" using Suc.prems by (simp_all add: k_def)
    define r where "r = mainRows ts ! k"
    define c where "c = mainCols ts ! k"
    define Q where "Q = ?P n"
    have IH: "length Q = length P" "\<And>i. \<forall>j < ?m. k < j \<longrightarrow> i \<noteq> mainCols ts ! j \<Longrightarrow> Q ! i = P ! i" "\<And>x. dn x Q 0 = dn x P 0"
      "\<And>j. j < ?m \<Longrightarrow> k < j \<Longrightarrow> sparse_sum rows Q (mainRows ts ! j) XOR dn (mainRows ts ! j) P 0 = X ! (mainRows ts ! j)"
      using Suc unfolding k(2) Q_def by (simp_all add: Suc_le_eq)
    have "c \<in> set (mainCols ts)" "c \<in> set (rows ! r)" using k(1) t(4) by (simp_all add: c_def r_def)
    then have c: "c < S" "c \<in> set (mainCols ts)" "c \<in> set (rows ! r)" using mc by auto
    have "r < length rows" using k(1) t(1,3) by (auto simp: r_def subset_iff)
    then have r: "distinct (rows ! r)" "set (rows ! r) \<subseteq> {..<length Q}" using rows_okD [OF rows] P(1) IH(1) by fastforce+
    have "\<forall>j < ?m. k < j \<longrightarrow> c \<noteq> mainCols ts ! j" using t(2) k(1) by (auto simp: c_def nth_eq_iff_index_eq)
    then have c0: "Q ! c = 0" using IH(2) P(2) c(2) by simp
    define v where "v = dn r Q (X ! r XOR sparse_sum rows Q r)"
    have step: "?P (Suc n) = Q[c := v]"
    proof -
      have "drop (?m - Suc n) ?zs = (r, c) # drop (?m - n) ?zs"
        using k t(1) by (simp add: Cons_nth_drop_Suc [symmetric] k_def [symmetric] r_def c_def)
      then show ?thesis by (simp add: Q_def back_row_def v_def fold_xor_map sparse_sum_def)
    qed
    have dnv: "dn x (Q[c := v]) 0 = dn x P 0" for x using d(2) [OF c(1)] IH(3) by simp
    have row: "sparse_sum rows (Q[c := v]) (mainRows ts ! j) XOR dn (mainRows ts ! j) P 0 = X ! (mainRows ts ! j)"
      if "j < ?m" "k \<le> j" for j
    proof (cases "j = k")
      case True
      have "v = X ! r XOR sparse_sum rows Q r XOR dn r P 0"
        unfolding v_def using d(1) [of r Q "X ! r XOR sparse_sum rows Q r"] IH(3) [of r] by (simp add: xor.assoc)
      then have "sparse_sum rows (Q[c := v]) r = X ! r XOR dn r P 0"
        unfolding sparse_sum_def xor_list_update [OF r c(3)] using c0 by (simp add: sparse_sum_def xor_simps)
      then show ?thesis using True by (simp add: r_def xor.assoc)
    next
      case False
      then have "c \<notin> set (rows ! (mainRows ts ! j))" using t(5) [of j k] that by (simp add: c_def)
      then have "sparse_sum rows (Q[c := v]) (mainRows ts ! j) = sparse_sum rows Q (mainRows ts ! j)"
        by (simp add: sparse_sum_def xor_list_update_other)
      then show ?thesis using IH(4) that False by simp
    qed
    have "Q[c := v] ! i = P ! i" if "\<forall>j < ?m. k \<le> j \<longrightarrow> i \<noteq> mainCols ts ! j" for i
    proof -
      have "i \<noteq> c" using that k(1) by (auto simp: c_def)
      moreover have "Q ! i = P ! i" using that by (intro IH(2)) simp
      ultimately show ?thesis by simp
    qed
    then show ?case unfolding k_def [symmetric] step [unfolded k_def [symmetric]] using IH(1) dnv row by simp
  qed
  have P': "P' = ?P ?m" by (simp add: P'_def back_substitute_def)
  note main = main [of ?m, folded P', simplified]
  show "length P' = length P" using main by blast
  show "i \<notin> set (mainCols ts) \<Longrightarrow> P' ! i = P ! i" using main by (metis nth_mem)
  show "dn x P' 0 = dn x P 0" using main by blast
  show "x \<in> set (mainRows ts) \<Longrightarrow> sparse_sum rows P' x XOR dn x P' 0 = X ! x"
    using main t(1) by (metis in_set_conv_nth)
qed

lemma xor_chain:
  fixes a b c d e f g :: block
  assumes "a XOR b = c" "b XOR d = e" "f XOR d = g XOR e"
  shows "a XOR f = g XOR c"
proof -
  have "a = c XOR b" "d = b XOR e" using assms(1,2) by (metis xor_self_right, metis xor_self_left)
  moreover have "f = g XOR e XOR d" using assms(3) by (metis xor_self_right xor.assoc)
  ultimately show ?thesis by (simp add: xor_simps)
qed

text \<open>
  A row of the gap: when the dense columns solve its equation, what is missing is the
  sum of the free columns that do not cancel.
\<close>
lemma gap_row_value:
  assumes rows: "rows_ok S rows" and r: "r < length rows" and L: "set L \<subseteq> {..<length rows}" and can: "cancels rows ts (r # L)"
    and main: "\<And>x. x \<in> set L \<Longrightarrow> sparse_sum rows P x XOR D x = X ! x"
    and dense: "xor_list (map D (r # L)) = xor_list (map ((!) X) (r # L))"
  shows "sparse_sum rows P r XOR D r = X ! r XOR xor_list (map (\<lambda>c. if c \<notin> set (mainCols ts) \<and>
    odd (length (filter (\<lambda>x. c \<in> set (rows ! x)) (r # L))) then P ! c else 0) [0..<S])"
proof -
  have "xor_list (map (sparse_sum rows P) (r # L)) = xor_list (map (\<lambda>c. if c \<notin> set (mainCols ts) \<and>
      odd (length (filter (\<lambda>x. c \<in> set (rows ! x)) (r # L))) then P ! c else 0) [0..<S])" (is "_ = ?res")
    using sparse_sum_rows [OF rows, of "r # L" P] r L can
    by (simp only: cancels_def) (auto intro!: arg_cong [where f = xor_list])
  moreover have "xor_list (map (\<lambda>x. sparse_sum rows P x XOR D x) L) = xor_list (map ((!) X) L)"
    using main by (metis (mono_tags, lifting) map_cong)
  ultimately have "sparse_sum rows P r XOR xor_list (map (sparse_sum rows P) L) = ?res"
    "xor_list (map (sparse_sum rows P) L) XOR xor_list (map D L) = xor_list (map ((!) X) L)"
    by (simp_all add: xor_list_map_xor)
  moreover have "D r XOR xor_list (map D L) = X ! r XOR xor_list (map ((!) X) L)" using dense by simp
  ultimately show ?thesis by (rule xor_chain)
qed

section \<open>The dense columns over GF(2^128)\<close>

text \<open>\<open>e\<close>, \<open>e ^ 2\<close>, ... as the loops of the code multiply them up.\<close>
fun powers_from :: "(block \<Rightarrow> block \<Rightarrow> block) \<Rightarrow> block \<Rightarrow> block \<Rightarrow> nat \<Rightarrow> block list" where
  "powers_from mul e ej 0 = []"
| "powers_from mul e ej (Suc n) = ej # powers_from mul e (mul ej e) n"

text \<open>One row of the gap: the row of \<open>EE\<close> and its right side.\<close>
definition gap_eq :: "(block \<Rightarrow> block \<Rightarrow> block) \<Rightarrow> paxos_sys \<Rightarrow> block list \<Rightarrow> nat \<Rightarrow> nat \<Rightarrow> nat list \<Rightarrow> block list \<times> block" where
  "gap_eq mul sys X n r fcb =
     (fold (\<lambda>j row. map2 (XOR) row (powers_from mul (mDense sys ! j) (mDense sys ! j) n)) fcb
        (powers_from mul (mDense sys ! r) (mDense sys ! r) n),
      fold (\<lambda>j x. x XOR X ! j) fcb (X ! r))"

text \<open>With a generator, the rows that are missing for all dense columns are drawn, each with its right side.\<close>
definition rand_eqs :: "(nat \<Rightarrow> block) \<Rightarrow> nat \<Rightarrow> nat \<Rightarrow> nat \<Rightarrow> (block list \<times> block) list" where
  "rand_eqs draw pos g n =
     map (\<lambda>i. let at = pos + (i - g) * (n + 1) in (map (\<lambda>k. draw (at + k)) [0..<n], draw (at + n))) [g..<n]"

definition gap_eqs ::
  "(block \<Rightarrow> block \<Rightarrow> block) \<Rightarrow> paxos_param \<Rightarrow> paxos_sys \<Rightarrow> tri_state \<Rightarrow> nat list list \<Rightarrow> block list \<Rightarrow>
   (nat \<Rightarrow> block) option \<Rightarrow> nat \<Rightarrow> (block list \<times> block) list" where
  "gap_eqs mul prm sys ts fcinv X rng pos =
     (let g = length (gapRows ts); n = (case rng of None \<Rightarrow> g | Some _ \<Rightarrow> dense_size prm)
      in map2 (\<lambda>gap fcb. gap_eq mul sys X n (fst gap) fcb) (gapRows ts) fcinv @
         (case rng of None \<Rightarrow> [] | Some draw \<Rightarrow> rand_eqs draw pos g n))"

text \<open>\<open>p' = EE ^ -1 xx\<close>, added to the dense columns.\<close>
definition solve_dense ::
  "(block \<Rightarrow> block \<Rightarrow> block) \<Rightarrow> (block list \<times> block) list \<Rightarrow> nat \<Rightarrow> block list \<Rightarrow> block list result" where
  "solve_dense mul eqs S P =
     (case gf128Inv_mtx mul (map fst eqs) of
        None \<Rightarrow> Inl (Runtime_error ''E' not invertable'')
      | Some EE \<Rightarrow> Inr (fold (\<lambda>i P. P[S + i :=
          fold (\<lambda>j pp. pp XOR mul (snd (eqs ! j)) (EE ! i ! j)) [0..<length eqs] (P ! (S + i))]) [0..<length eqs] P))"

text \<open>Draw all dense columns.\<close>
definition draw_dense :: "paxos_param \<Rightarrow> (nat \<Rightarrow> block) option \<Rightarrow> nat \<Rightarrow> block list \<Rightarrow> block list" where
  "draw_dense prm rng pos P =
     (case rng of None \<Rightarrow> P
      | Some draw \<Rightarrow> fold (\<lambda>i P. P[sparse_size prm + i := draw (pos + i)]) [0..<dense_size prm] P)"

definition backfillGf128 ::
  "(block \<Rightarrow> block \<Rightarrow> block) \<Rightarrow> paxos_param \<Rightarrow> paxos_sys \<Rightarrow> tri_state \<Rightarrow> block list \<Rightarrow> (nat \<Rightarrow> block) option \<Rightarrow> nat \<Rightarrow>
   block list \<Rightarrow> block list result" where
  "backfillGf128 mul prm sys ts X rng pos P =
     (let g = length (gapRows ts)
      in if dense_size prm < g then Inl (Runtime_error ''RTE_LOC'')
         else
           rbind (if g \<noteq> 0
                  then (case getFCInv (paxos_size prm) (mRows sys) ts of
                          None \<Rightarrow> Inl (Runtime_error ''getFCInv does not end'')
                        | Some fcinv \<Rightarrow> solve_dense mul (gap_eqs mul prm sys ts fcinv X rng pos) (sparse_size prm) P)
                  else Inr (draw_dense prm rng pos P)) (\<lambda>P.
           Inr (back_substitute (mRows sys)
             (\<lambda>i P y. if g \<noteq> 0 \<or> rng \<noteq> None then decode_dense1 mul prm (mDense sys ! i) P y else y) X ts P)))"

section \<open>Encoding\<close>

text \<open>The free columns, those left with weight 0, are drawn in the order of their list.\<close>
definition draw_free :: "weight_data \<Rightarrow> (nat \<Rightarrow> block) option \<Rightarrow> block list \<Rightarrow> (block list \<times> nat) result" where
  "draw_free wd rng P =
     (case rng of
        None \<Rightarrow> Inr (P, 0)
      | Some draw \<Rightarrow>
          if mWeightSets wd = [] then Inl (Undefined_behaviour ''mWeightSets[0]'')
          else Inr (fold (\<lambda>(k, c) P. P[c := draw k]) (enumerate 0 (mWeightSets wd ! 0)) P, length (mWeightSets wd ! 0)))"

text \<open>\<open>encode\<close>; \<open>backfill\<close> is the routine of the dense type.\<close>
definition encode_with ::
  "(tri_state \<Rightarrow> nat \<Rightarrow> block list \<Rightarrow> block list result) \<Rightarrow> paxos_param \<Rightarrow> paxos_sys \<Rightarrow> (nat \<Rightarrow> block) option \<Rightarrow> block list \<Rightarrow>
   block list result" where
  "encode_with backfill prm sys rng output =
     (if length output \<noteq> paxos_size prm then Inl (Runtime_error ''RTE_LOC'')
      else
        case triangulate sys of
          None \<Rightarrow> Inl (Runtime_error ''triangulate does not end'')
        | Some tri \<Rightarrow>
            rbind tri (\<lambda>ts.
            rbind (draw_free (ts_wd ts) rng (replicate (paxos_size prm) 0)) (\<lambda>(P, pos).
            backfill ts pos P)))"

section \<open>The dense part of a row\<close>

lemma nth_powers: "k < n \<Longrightarrow> powers_from mul e ej n ! k = ((\<lambda>x. mul x e) ^^ k) ej"
proof (induction n arbitrary: ej k)
  case (Suc n)
  show ?case
  proof (cases k)
    case (Suc m)
    have "((\<lambda>x. mul x e) ^^ m) (mul ej e) = ((\<lambda>x. mul x e) ^^ Suc m) ej" by (simp only: funpow_Suc_right o_apply)
    then show ?thesis using Suc Suc.IH Suc.prems by simp
  qed simp
qed simp

lemma length_powers [simp]: "length (powers_from mul e ej n) = n"
  by (induction n arbitrary: ej) simp_all

lemma decode_dense_gf:
  assumes "dense_ty prm = GF128" "0 < dense_size prm"
  shows "decode_dense1 mul prm d P y =
    y XOR xor_list (map (\<lambda>k. mul (P ! (sparse_size prm + k)) (((\<lambda>x. mul x d) ^^ k) d)) [0..<dense_size prm])"
proof -
  let ?S = "sparse_size prm"
  define pw where "pw k = ((\<lambda>x. mul x d) ^^ k) d" for k
  define h where "h k = mul (P ! (?S + k)) (pw k)" for k
  have pw: "pw 0 = d" "mul (pw k) d = pw (Suc k)" for k by (simp_all add: pw_def)
  have "fold (\<lambda>i (x, v). let x = mul x d in (x, v XOR mul (P ! (i + ?S)) x)) [1..<Suc n] (d, y XOR mul (P ! ?S) d) =
      (pw n, y XOR xor_list (map h [0..<Suc n]))" for n
  proof (induction n)
    case 0
    then show ?case by (simp add: h_def pw(1))
  next
    case (Suc n)
    have u: "[1..<Suc (Suc n)] = [1..<Suc n] @ [Suc n]" by simp
    have "mul (P ! (Suc n + ?S)) (pw (Suc n)) = h (Suc n)" by (simp add: h_def add.commute)
    moreover have "xor_list (map h [0..<Suc (Suc n)]) = xor_list (map h [0..<Suc n]) XOR h (Suc n)" by (simp add: xor.assoc)
    ultimately show ?case unfolding u fold_append o_apply Suc by (simp add: Let_def pw(2) xor.assoc del: upt_Suc)
  qed
  from this [of "dense_size prm - 1"] show ?thesis
    using assms unfolding h_def pw_def by (simp add: decode_dense1_def del: upt_Suc)
qed

lemma decode_dense_bin:
  assumes "dense_ty prm = Binary"
  shows "decode_dense1 mul prm d P y =
    y XOR xor_list (map (\<lambda>k. if bit d k then P ! (sparse_size prm + k) else 0) [0..<dense_size prm])"
proof -
  have "fold (\<lambda>i v. if bit d i then v XOR P ! (i + sparse_size prm) else v) [0..<n] y =
      y XOR xor_list (map (\<lambda>k. if bit d k then P ! (sparse_size prm + k) else 0) [0..<n])" for n
    by (induction n) (simp_all add: xor_simps add.commute)
  then show ?thesis using assms by (simp add: decode_dense1_def)
qed

lemma decode_dense_add:
  assumes "dense_ty prm = GF128 \<longrightarrow> 0 < dense_size prm"
  shows "decode_dense1 mul prm d P y = y XOR decode_dense1 mul prm d P 0"
  using assms by (cases "dense_ty prm") (simp_all add: decode_dense_gf decode_dense_bin)

lemma decode_dense_other:
  assumes "dense_ty prm = GF128 \<longrightarrow> 0 < dense_size prm" "\<And>k. k < dense_size prm \<Longrightarrow> Q ! (sparse_size prm + k) = P ! (sparse_size prm + k)"
  shows "decode_dense1 mul prm d Q y = decode_dense1 mul prm d P y"
proof -
  have "xor_list (map (\<lambda>k. f k (Q ! (sparse_size prm + k))) [0..<dense_size prm]) =
      xor_list (map (\<lambda>k. f k (P ! (sparse_size prm + k))) [0..<dense_size prm])" for f :: "nat \<Rightarrow> block \<Rightarrow> block"
    using assms(2) by (intro arg_cong [where f = xor_list] map_cong) auto
  from this [of "\<lambda>k v. mul v (((\<lambda>x. mul x d) ^^ k) d)"] this [of "\<lambda>k v. if bit d k then v else 0"]
  show ?thesis using assms(1) by (cases "dense_ty prm") (simp_all only: decode_dense_gf decode_dense_bin)
qed

lemma dense_part_decode:
  assumes "dense_ty prm = GF128 \<longrightarrow> 0 < dense_size prm"
  shows "dense_part (sparse_size prm) (\<lambda>i P y. if b then decode_dense1 mul prm (dense ! i) P y else y)"
  unfolding dense_part_def
proof (intro conjI allI impI)
  fix i P y
  show "(if b then decode_dense1 mul prm (dense ! i) P y else y) = y XOR (if b then decode_dense1 mul prm (dense ! i) P 0 else 0)"
    using decode_dense_add [OF assms, of mul "dense ! i" P y] by (cases b) simp_all
next
  fix i P c v
  assume "c < sparse_size prm"
  then have "decode_dense1 mul prm (dense ! i) (P[c := v]) 0 = decode_dense1 mul prm (dense ! i) P 0"
    by (intro decode_dense_other [OF assms]) simp
  then show "(if b then decode_dense1 mul prm (dense ! i) (P[c := v]) 0 else 0) = (if b then decode_dense1 mul prm (dense ! i) P 0 else 0)"
    by simp
qed

text \<open>A key decodes to the sparse sum of its row and its dense part.\<close>
lemma decode1_sum:
  assumes "dense_ty prm = GF128 \<longrightarrow> 0 < dense_size prm" "length row = weight prm" "0 < weight prm"
  shows "decode1 mul prm row d P = xor_list (map ((!) P) row) XOR decode_dense1 mul prm d P 0"
proof -
  have "fold (\<lambda>j v. v XOR P ! (row ! j)) [1..<length row] (P ! (row ! 0)) = xor_list (map ((!) P) row)"
  proof -
    obtain a cs where r: "row = a # cs" using assms(2,3) by (cases row) auto
    have "map (\<lambda>j. P ! (row ! j)) [1..<length row] = map ((!) P) cs" by (intro nth_equalityI) (simp_all add: r del: upt_Suc)
    then show ?thesis unfolding fold_xor_map [of "\<lambda>j. P ! (row ! j)"] by (simp only: r nth_Cons_0 list.map xor_list_Cons)
  qed
  then show ?thesis using assms(2) decode_dense_add [OF assms(1), of mul d P "xor_list (map ((!) P) row)"]
    by (simp add: decode1_def)
qed

section \<open>Every row is solved\<close>

text \<open>What \<open>getFCInv\<close> returns.\<close>
definition fc_inv_ok :: "nat list list \<Rightarrow> tri_state \<Rightarrow> nat list list \<Rightarrow> bool" where
  "fc_inv_ok rows ts F \<longleftrightarrow> length F = length (gapRows ts) \<and>
     (\<forall>i < length (gapRows ts). set (F ! i) \<subseteq> set (mainRows ts) \<and> cancels rows ts (fst (gapRows ts ! i) # F ! i) \<and>
       (rows ! fst (gapRows ts ! i) = rows ! snd (gapRows ts ! i) \<longrightarrow> F ! i = [snd (gapRows ts ! i)]))"

text \<open>The rows of the gap repeat the rows of the diagonal they were met with.\<close>
definition gap_repeats :: "nat list list \<Rightarrow> tri_state \<Rightarrow> bool" where
  "gap_repeats rows ts \<longleftrightarrow> (\<forall>gap \<in> set (gapRows ts). rows ! fst gap = rows ! snd gap)"

text \<open>The free columns that a row of the gap and the rows found for it do not cancel.\<close>
definition gap_residual :: "nat \<Rightarrow> nat list list \<Rightarrow> tri_state \<Rightarrow> nat list \<Rightarrow> block list \<Rightarrow> block" where
  "gap_residual S rows ts xs Q =
     xor_list (map (\<lambda>c. if c \<notin> set (mainCols ts) \<and> odd (length (filter (\<lambda>x. c \<in> set (rows ! x)) xs)) then Q ! c else 0) [0..<S])"

lemma gap_residual_zero: "(\<And>c. c < S \<Longrightarrow> c \<notin> set (mainCols ts) \<Longrightarrow> Q ! c = 0) \<Longrightarrow> gap_residual S rows ts xs Q = 0"
  unfolding gap_residual_def by (intro xor_list_zero) auto

lemma gap_residual_repeat: "rows ! x = rows ! a \<Longrightarrow> gap_residual S rows ts [x, a] Q = 0"
  unfolding gap_residual_def by (intro xor_list_zero) simp

text \<open>A row of the gap after back substitution.\<close>
lemma solved_gap_row:
  fixes X :: "block list"
  assumes tri: "triangular rows ts" and rows: "rows_ok S rows" and mc: "set (mainCols ts) \<subseteq> {..<S}"
    and P: "S \<le> length P" "\<forall>c \<in> set (mainCols ts). P ! c = 0" and dn: "dense_part S dn" and F: "fc_inv_ok rows ts F"
    and i: "i < length (gapRows ts)"
    and dense: "xor_list (map (\<lambda>x. dn x P 0) (fst (gapRows ts ! i) # F ! i)) = xor_list (map ((!) X) (fst (gapRows ts ! i) # F ! i))"
  defines "x \<equiv> fst (gapRows ts ! i)" and "Q \<equiv> back_substitute rows dn X ts P"
  shows "sparse_sum rows Q x XOR dn x Q 0 = X ! x XOR gap_residual S rows ts (x # F ! i) Q"
proof -
  note bs = back_substitute_ok [OF tri rows mc P dn, where X = X, folded Q_def]
  have sets: "set (mainRows ts) \<union> fst ` set (gapRows ts) = {..<length rows}" using tri by (simp add: triangular_def)
  have Fi: "set (F ! i) \<subseteq> set (mainRows ts)" "cancels rows ts (x # F ! i)" using F i by (auto simp: fc_inv_ok_def x_def)
  have "x \<in> fst ` set (gapRows ts)" using i by (simp add: x_def)
  then have x: "x < length rows" and L: "set (F ! i) \<subseteq> {..<length rows}" using Fi(1) sets by auto
  have main: "sparse_sum rows Q y XOR dn y Q 0 = X ! y" if "y \<in> set (F ! i)" for y using that Fi(1) by (intro bs(4)) blast
  have "xor_list (map (\<lambda>y. dn y Q 0) (x # F ! i)) = xor_list (map ((!) X) (x # F ! i))" using dense unfolding x_def bs(3) .
  from gap_row_value [OF rows x L Fi(2) main this] show ?thesis by (simp add: gap_residual_def)
qed

section \<open>The dense columns solve the rows of the gap\<close>

lemma fold_write:
  fixes f :: "nat \<Rightarrow> block \<Rightarrow> block"
  assumes "S + n \<le> length P"
  defines "Q \<equiv> fold (\<lambda>i P. P[S + i := f i (P ! (S + i))]) [0..<n] P"
  shows "length Q = length P" "i < n \<Longrightarrow> Q ! (S + i) = f i (P ! (S + i))" "k < S \<or> S + n \<le> k \<Longrightarrow> Q ! k = P ! k"
proof -
  have "length (fold (\<lambda>i P. P[S + i := f i (P ! (S + i))]) [0..<m] P) = length P \<and>
      (\<forall>k. fold (\<lambda>i P. P[S + i := f i (P ! (S + i))]) [0..<m] P ! k = (if S \<le> k \<and> k < S + m then f (k - S) (P ! k) else P ! k))"
    if "m \<le> n" for m
    using that
  proof (induction m)
    case (Suc m)
    then have "S + m < length P" using assms(1) by simp
    then show ?case using Suc by (auto simp: nth_list_update)
  qed auto
  from this [of n] show "length Q = length P" "i < n \<Longrightarrow> Q ! (S + i) = f i (P ! (S + i))" "k < S \<or> S + n \<le> k \<Longrightarrow> Q ! k = P ! k"
    by (auto simp: Q_def)
qed

lemma row_dot_fold:
  "gf_field mul K \<Longrightarrow> length r = n \<Longrightarrow>
    fold (\<lambda>j pp. pp XOR mul (x j) (r ! j)) [0..<n] p = p XOR row_dot mul r (map x [0..<n])"
proof -
  assume f: "gf_field mul K" and n: "length r = n"
  have "map (\<lambda>j. mul (x j) (r ! j)) [0..<n] = map2 mul r (map x [0..<n])"
    using n gf_field_laws(3) [OF f] by (intro nth_equalityI) simp_all
  then show ?thesis by (simp only: fold_xor_map row_dot_def)
qed

lemma solve_dense_ok:
  assumes f: "gf_field mul K" and n: "length eqs = n" and K: "\<And>e. e \<in> set eqs \<Longrightarrow> length (fst e) = n \<and> set (fst e) \<subseteq> K"
    and P: "S + n \<le> length P" "\<And>i. i < n \<Longrightarrow> P ! (S + i) = 0" and run: "solve_dense mul eqs S P = Inr Q"
  shows "length Q = length P" "k < S \<or> S + n \<le> k \<Longrightarrow> Q ! k = P ! k"
    "j < n \<Longrightarrow> row_dot mul (fst (eqs ! j)) (map (\<lambda>i. Q ! (S + i)) [0..<n]) = snd (eqs ! j)"
proof -
  obtain N where N: "gf128Inv_mtx mul (map fst eqs) = Some N" using run by (auto simp: solve_dense_def split: option.splits)
  let ?x = "map (\<lambda>j. snd (eqs ! j)) [0..<n]"
  let ?f = "\<lambda>i p. fold (\<lambda>j pp. pp XOR mul (snd (eqs ! j)) (N ! i ! j)) [0..<n] p"
  have Q: "Q = fold (\<lambda>i P. P[S + i := ?f i (P ! (S + i))]) [0..<n] P" using run N n by (simp add: solve_dense_def)
  have M: "mtx_ok n (map fst eqs)" "\<forall>j < n. \<forall>k < n. map fst eqs ! j ! k \<in> K"
  proof -
    have e: "length (fst (eqs ! j)) = n" "set (fst (eqs ! j)) \<subseteq> K" if "j < n" for j using K [of "eqs ! j"] that n by simp_all
    then show "mtx_ok n (map fst eqs)" using n by (simp add: mtx_ok_def)
    show "\<forall>j < n. \<forall>k < n. map fst eqs ! j ! k \<in> K" using e n by (simp add: subset_iff)
  qed
  note inv = gf128Inv_mtx_ok [OF f M N, of ?x]
  note w = fold_write [OF P(1), where f = ?f, folded Q]
  show "length Q = length P" "k < S \<or> S + n \<le> k \<Longrightarrow> Q ! k = P ! k" using w(1,3) by auto
  have "Q ! (S + i) = row_dot mul (N ! i) ?x" if "i < n" for i
    using w(2) [OF that] P(2) [OF that] inv(1) that row_dot_fold [OF f, of "N ! i" n] by (simp add: mtx_ok_def)
  then have e: "map (\<lambda>i. Q ! (S + i)) [0..<n] = map (\<lambda>i. row_dot mul (N ! i) ?x) [0..<n]" by simp
  show "j < n \<Longrightarrow> row_dot mul (fst (eqs ! j)) (map (\<lambda>i. Q ! (S + i)) [0..<n]) = snd (eqs ! j)"
    unfolding e using inv(2) n by simp
qed

text \<open>The power of a dense part at column \<open>k\<close>.\<close>
definition dense_pow :: "(block \<Rightarrow> block \<Rightarrow> block) \<Rightarrow> block \<Rightarrow> nat \<Rightarrow> block" where
  "dense_pow mul d k = ((\<lambda>x. mul x d) ^^ k) d"

lemma fold_rows_nth:
  "(\<And>j. length (f j) = n) \<Longrightarrow> length r = n \<Longrightarrow>
    length (fold (\<lambda>j row. map2 (XOR) row (f j)) js r) = n \<and>
    (\<forall>k < n. fold (\<lambda>j row. map2 (XOR) row (f j)) js r ! k = r ! k XOR xor_list (map (\<lambda>j. f j ! k) js))"
  for r :: "block list"
  by (induction js arbitrary: r) (simp_all add: xor.assoc)

lemma gap_eq_ok:
  "length (fst (gap_eq mul sys X n r fcb)) = n"
  "k < n \<Longrightarrow> fst (gap_eq mul sys X n r fcb) ! k = xor_list (map (\<lambda>x. dense_pow mul (mDense sys ! x) k) (r # fcb))"
  "snd (gap_eq mul sys X n r fcb) = xor_list (map ((!) X) (r # fcb))"
  using fold_rows_nth [of "\<lambda>j. powers_from mul (mDense sys ! j) (mDense sys ! j) n" n "powers_from mul (mDense sys ! r) (mDense sys ! r) n" fcb]
  by (simp_all add: gap_eq_def fold_xor_map nth_powers dense_pow_def)

lemma mul_xor_list:
  assumes "gf_field mul K"
  shows "mul (xor_list xs) b = xor_list (map (\<lambda>a. mul a b) xs)"
  by (induction xs) (simp_all add: gf_field_laws(2,8) [OF assms])

text \<open>A row of \<open>EE\<close> times the dense columns is the sum of the dense parts of its rows.\<close>
lemma gap_eq_dot:
  assumes f: "gf_field mul K" and q: "length q = n"
  shows "row_dot mul (fst (gap_eq mul sys X n r fcb)) q =
    xor_list (map (\<lambda>x. xor_list (map (\<lambda>k. mul (q ! k) (dense_pow mul (mDense sys ! x) k)) [0..<n])) (r # fcb))"
proof -
  let ?E = "fst (gap_eq mul sys X n r fcb)"
  have "row_dot mul ?E q = xor_list (map (\<lambda>k. mul (?E ! k) (q ! k)) [0..<n])"
    unfolding row_dot_def using q gap_eq_ok(1) [of mul sys X n r fcb]
    by (intro arg_cong [where f = xor_list] nth_equalityI) simp_all
  also have "\<dots> = xor_list (map (\<lambda>k. xor_list (map (\<lambda>x. mul (q ! k) (dense_pow mul (mDense sys ! x) k)) (r # fcb))) [0..<n])"
  proof (intro arg_cong [where f = xor_list] map_cong refl)
    fix k assume "k \<in> set [0..<n]"
    then have "?E ! k = xor_list (map (\<lambda>x. dense_pow mul (mDense sys ! x) k) (r # fcb))" by (intro gap_eq_ok(2)) simp
    then show "mul (?E ! k) (q ! k) = xor_list (map (\<lambda>x. mul (q ! k) (dense_pow mul (mDense sys ! x) k)) (r # fcb))"
      using gf_field_laws(3) [OF f, of "q ! k"] by (simp only: mul_xor_list [OF f] map_map o_def)
  qed
  also have "\<dots> = xor_list (map (\<lambda>x. xor_list (map (\<lambda>k. mul (q ! k) (dense_pow mul (mDense sys ! x) k)) [0..<n])) (r # fcb))"
    by (rule xor_list_swap)
  finally show ?thesis .
qed

lemma dense_pow_in: "gf_field mul K \<Longrightarrow> d \<in> K \<Longrightarrow> dense_pow mul d k \<in> K"
  unfolding dense_pow_def by (induction k) (auto simp: gf_field_def)

lemma xor_list_in: "gf_field mul K \<Longrightarrow> set xs \<subseteq> K \<Longrightarrow> xor_list xs \<in> K"
  by (induction xs) (auto simp: gf_field_def)

text \<open>The equations of the gap with those that are drawn: as many as dense columns, over the field.\<close>
lemma gap_eqs_ok:
  fixes X :: "block list" and pos :: nat
  assumes f: "gf_field mul K" and K: "set (mDense sys) \<subseteq> K" "\<forall>draw. rng = Some draw \<longrightarrow> (\<forall>i. draw i \<in> K)"
    and tri: "triangular (mRows sys) ts" and len: "length (mDense sys) = length (mRows sys)" and F: "fc_inv_ok (mRows sys) ts F"
    and g: "length (gapRows ts) \<le> dense_size prm"
  defines "n \<equiv> (case rng of None \<Rightarrow> length (gapRows ts) | Some _ \<Rightarrow> dense_size prm)"
    and "eqs \<equiv> gap_eqs mul prm sys ts F X rng pos"
  shows "length eqs = n" "e \<in> set eqs \<Longrightarrow> length (fst e) = n \<and> set (fst e) \<subseteq> K"
    "i < length (gapRows ts) \<Longrightarrow> eqs ! i = gap_eq mul sys X n (fst (gapRows ts ! i)) (F ! i)"
proof -
  let ?g = "length (gapRows ts)" and ?gap = "map2 (\<lambda>gap fcb. gap_eq mul sys X n (fst gap) fcb) (gapRows ts) F"
  have lF: "length F = ?g" using F by (simp add: fc_inv_ok_def)
  have eqs: "eqs = ?gap @ (case rng of None \<Rightarrow> [] | Some draw \<Rightarrow> rand_eqs draw pos ?g n)"
    by (cases rng) (simp_all add: eqs_def gap_eqs_def n_def Let_def)
  show "length eqs = n" using lF g by (cases rng) (simp_all add: eqs rand_eqs_def n_def)
  show "i < ?g \<Longrightarrow> eqs ! i = gap_eq mul sys X n (fst (gapRows ts ! i)) (F ! i)" using lF by (simp add: eqs nth_append)
  have sets: "set (mainRows ts) \<union> fst ` set (gapRows ts) = {..<length (mRows sys)}" using tri by (simp add: triangular_def)
  have row: "set (fst (gap_eq mul sys X n (fst (gapRows ts ! i)) (F ! i))) \<subseteq> K" if i: "i < ?g" for i
  proof
    let ?e = "gap_eq mul sys X n (fst (gapRows ts ! i)) (F ! i)"
    fix v assume "v \<in> set (fst ?e)"
    then obtain k where k: "k < n" "v = fst ?e ! k" by (metis in_set_conv_nth gap_eq_ok(1))
    have "set (fst (gapRows ts ! i) # F ! i) \<subseteq> {..<length (mRows sys)}"
      using F i sets by (auto simp: fc_inv_ok_def)
    then have "set (map (\<lambda>x. dense_pow mul (mDense sys ! x) k) (fst (gapRows ts ! i) # F ! i)) \<subseteq> K"
      using dense_pow_in [OF f] K(1) len by (fastforce simp: subset_iff)
    then show "v \<in> K" unfolding k(2) gap_eq_ok(2) [OF k(1)] by (rule xor_list_in [OF f])
  qed
  assume "e \<in> set eqs"
  then consider "e \<in> set ?gap" | draw where "rng = Some draw" "e \<in> set (rand_eqs draw pos ?g n)"
    unfolding eqs set_append by (cases rng) (simp_all only: option.case list.set Un_iff empty_iff, blast+)
  then show "length (fst e) = n \<and> set (fst e) \<subseteq> K"
  proof cases
    case 1
    then obtain i where "i < ?g" "e = gap_eq mul sys X n (fst (gapRows ts ! i)) (F ! i)"
      using lF by (auto simp: set_zip)
    then show ?thesis using row gap_eq_ok(1) by simp
  next
    case 2
    then show ?thesis using K(2) by (auto simp: rand_eqs_def Let_def)
  qed
qed

section \<open>The table is right\<close>

text \<open>Every row decodes to its value.\<close>
definition table_ok :: "(block \<Rightarrow> block \<Rightarrow> block) \<Rightarrow> paxos_param \<Rightarrow> paxos_sys \<Rightarrow> block list \<Rightarrow> block list \<Rightarrow> bool" where
  "table_ok mul prm sys X Q \<longleftrightarrow> length Q = paxos_size prm \<and>
     (\<forall>x < length (mRows sys). decode1 mul prm (mRows sys ! x) (mDense sys ! x) Q = X ! x)"

text \<open>A system the solver accepts: rows of the weight over the sparse columns, with light columns.\<close>
definition sys_ok :: "paxos_param \<Rightarrow> paxos_sys \<Rightarrow> bool" where
  "sys_ok prm sys \<longleftrightarrow> param_ok prm \<and> rows_ok (sparse_size prm) (mRows sys) \<and> length (mDense sys) = length (mRows sys) \<and>
     (\<forall>r \<in> set (mRows sys). length r = weight prm) \<and> mCols sys = rebuildColumns (sparse_size prm) (mRows sys) \<and>
     (\<forall>c \<in> set (mCols sys). length c < 200)"

text \<open>What \<open>encode\<close> hands to the back substitution.\<close>
definition start_ok :: "paxos_param \<Rightarrow> paxos_sys \<Rightarrow> tri_state \<Rightarrow> (nat \<Rightarrow> block) option \<Rightarrow> block list \<Rightarrow> bool" where
  "start_ok prm sys ts rng P \<longleftrightarrow> triangular (mRows sys) ts \<and> set (mainCols ts) \<subseteq> {..<sparse_size prm} \<and> length P = paxos_size prm \<and>
     (\<forall>c \<in> set (mainCols ts). P ! c = 0) \<and> (\<forall>k < dense_size prm. P ! (sparse_size prm + k) = 0) \<and>
     (rng = None \<longrightarrow> (\<forall>c < sparse_size prm. P ! c = 0))"

lemma fold_draws:
  "\<forall>c \<in> set (map snd kcs). c < length P \<Longrightarrow> length (fold (\<lambda>(k, c) P. P[c := f k]) kcs P) = length P \<and>
    (\<forall>i. i \<notin> snd ` set kcs \<longrightarrow> fold (\<lambda>(k, c) P. P[c := f k]) kcs P ! i = P ! i)"
  by (induction kcs arbitrary: P) auto

lemma draw_free_ok:
  assumes sys: "sys_ok prm sys" and tri: "triangular (mRows sys) ts" "set (mainCols ts) \<subseteq> {..<sparse_size prm}"
    "wd_ok (sparse_size prm) (set (mainCols ts)) (ts_wd ts)"
    and free: "rng \<noteq> None \<Longrightarrow> length (mRows sys) < sparse_size prm"
  shows "\<exists>P pos. draw_free (ts_wd ts) rng (replicate (paxos_size prm) 0) = Inr (P, pos) \<and> start_ok prm sys ts rng P"
proof (cases rng)
  case None
  have "replicate (paxos_size prm) 0 ! c = (0 :: block)" if "c \<in> set (mainCols ts)" for c
    using that tri(2) by (auto simp: paxos_size_def)
  then show ?thesis using tri None by (simp add: draw_free_def start_ok_def paxos_size_def)
next
  case (Some draw)
  let ?wd = "ts_wd ts" and ?S = "sparse_size prm"
  have "length (mainCols ts) \<le> length (mRows sys)"
  proof -
    have "set (mainRows ts) \<subseteq> {..<length (mRows sys)}" "distinct (mainRows ts)" "length (mainRows ts) = length (mainCols ts)"
      using tri(1) by (auto simp: triangular_def)
    then show ?thesis using card_mono [of "{..<length (mRows sys)}" "set (mainRows ts)"] by (simp add: distinct_card)
  qed
  then have "card (set (mainCols ts)) < card {..<?S}" using free Some card_length [of "mainCols ts"] by simp
  then obtain c where "c < ?S" "c \<notin> set (mainCols ts)" by (metis card_mono finite_set lessThan_iff not_le subsetI)
  then have "c \<in> set (bucket (mWeightSets ?wd) (mNodes ?wd ! c))" by (rule wd_okD(4) [OF tri(3)])
  then have ne: "mWeightSets ?wd \<noteq> []" by (auto simp: bucket_def)
  let ?free = "mWeightSets ?wd ! 0" and ?P = "replicate (paxos_size prm) 0 :: block list"
  have fr: "x < ?S \<and> x \<notin> set (mainCols ts)" if "x \<in> set ?free" for x
    using wd_okD(3) [OF tri(3), of x 0] that ne by (simp add: bucket_def)
  have snds: "snd ` set (enumerate 0 ?free) = set ?free" by (metis list.set_map map_snd_enumerate)
  have "\<forall>c \<in> set (map snd (enumerate 0 ?free)). c < length ?P"
  proof
    fix c assume "c \<in> set (map snd (enumerate 0 ?free))"
    then have "c < ?S" using fr [of c] snds by simp
    then show "c < length ?P" by (simp add: paxos_size_def)
  qed
  note d = fold_draws [OF this, of draw]
  let ?Q = "fold (\<lambda>(k, c) P. P[c := draw k]) (enumerate 0 ?free) ?P"
  have zero: "?Q ! i = 0" if "i \<notin> set ?free" "i < paxos_size prm" for i
    using d that unfolding snds by simp
  have "start_ok prm sys ts rng ?Q"
    unfolding start_ok_def
  proof (intro conjI)
    show "length ?Q = paxos_size prm" using d by simp
    show "\<forall>c \<in> set (mainCols ts). ?Q ! c = 0"
    proof
      fix c assume "c \<in> set (mainCols ts)"
      then show "?Q ! c = 0" using fr tri(2) by (intro zero) (auto simp: paxos_size_def)
    qed
    show "\<forall>k < dense_size prm. ?Q ! (?S + k) = 0"
    proof (intro allI impI)
      fix k assume "k < dense_size prm"
      then show "?Q ! (?S + k) = 0" using fr [of "?S + k"] by (intro zero) (auto simp: paxos_size_def)
    qed
  qed (use tri Some in simp_all)
  then show ?thesis using Some ne by (intro exI [of _ ?Q]) (simp add: draw_free_def)
qed

lemma draw_dense_ok:
  assumes "length P = paxos_size prm"
  shows "length (draw_dense prm rng pos P) = paxos_size prm"
    "c < sparse_size prm \<Longrightarrow> draw_dense prm rng pos P ! c = P ! c"
  using assms fold_write [of "sparse_size prm" "dense_size prm" P, where f = "\<lambda>i _. the rng (pos + i)"]
  by (auto simp: draw_dense_def paxos_size_def split: option.splits)

text \<open>
  A table in which the rows of the diagonal are right and those of the gap are right up
  to the free columns; \<open>P\<close> holds the free columns.
\<close>
definition table_upto_gap ::
  "(block \<Rightarrow> block \<Rightarrow> block) \<Rightarrow> paxos_param \<Rightarrow> paxos_sys \<Rightarrow> tri_state \<Rightarrow> nat list list \<Rightarrow> block list \<Rightarrow> block list \<Rightarrow> block list \<Rightarrow> bool" where
  "table_upto_gap mul prm sys ts F X P Q \<longleftrightarrow> length Q = paxos_size prm \<and>
     (\<forall>c < sparse_size prm. c \<notin> set (mainCols ts) \<longrightarrow> Q ! c = P ! c) \<and>
     (\<forall>x \<in> set (mainRows ts). decode1 mul prm (mRows sys ! x) (mDense sys ! x) Q = X ! x) \<and>
     (\<forall>i < length (gapRows ts). let x = fst (gapRows ts ! i) in decode1 mul prm (mRows sys ! x) (mDense sys ! x) Q =
        X ! x XOR gap_residual (sparse_size prm) (mRows sys) ts (x # F ! i) Q)"

text \<open>Back substitution completes a table whose dense columns solve the rows of the gap.\<close>
lemma backfill_table_ok:
  assumes sys: "sys_ok prm sys" and st: "start_ok prm sys ts rng P" and F: "fc_inv_ok (mRows sys) ts F"
    and P1: "length P1 = paxos_size prm" "\<And>c. c < sparse_size prm \<Longrightarrow> P1 ! c = P ! c"
    and dn: "dense_part (sparse_size prm) dn" and D: "\<And>x. dn x P1 0 = decode_dense1 mul prm (mDense sys ! x) P1 0"
    and dense: "\<And>i. i < length (gapRows ts) \<Longrightarrow>
      xor_list (map (\<lambda>x. decode_dense1 mul prm (mDense sys ! x) P1 0) (fst (gapRows ts ! i) # F ! i)) =
      xor_list (map ((!) X) (fst (gapRows ts ! i) # F ! i))"
  shows "table_upto_gap mul prm sys ts F X P (back_substitute (mRows sys) dn X ts P1)"
proof -
  let ?S = "sparse_size prm" and ?Q = "back_substitute (mRows sys) dn X ts P1"
  have prm: "dense_ty prm = GF128 \<longrightarrow> 0 < dense_size prm" "0 < weight prm" and rows: "rows_ok ?S (mRows sys)"
    and w: "\<forall>r \<in> set (mRows sys). length r = weight prm"
    using sys by (auto simp: sys_ok_def param_ok_def)
  have tri: "triangular (mRows sys) ts" "set (mainCols ts) \<subseteq> {..<?S}" using st by (simp_all add: start_ok_def)
  have S: "?S \<le> length P1" using P1(1) by (simp add: paxos_size_def)
  have zero: "\<forall>c \<in> set (mainCols ts). P1 ! c = 0" using st P1(2) tri(2) by (auto simp: start_ok_def)
  note bs = back_substitute_ok [OF tri(1) rows tri(2) S zero dn, where X = X]
  have sets: "set (mainRows ts) \<union> fst ` set (gapRows ts) = {..<length (mRows sys)}" using tri(1) by (simp add: triangular_def)
  have row: "decode1 mul prm (mRows sys ! x) (mDense sys ! x) ?Q = sparse_sum (mRows sys) ?Q x XOR dn x ?Q 0" if x: "x < length (mRows sys)" for x
  proof -
    have "?Q ! (?S + k) = P1 ! (?S + k)" for k using tri(2) by (intro bs(2)) auto
    then have "decode_dense1 mul prm (mDense sys ! x) ?Q 0 = dn x P1 0"
      unfolding D by (intro decode_dense_other [OF prm(1)])
    also have "\<dots> = dn x ?Q 0" by (rule bs(3) [symmetric])
    finally show ?thesis using decode1_sum [OF prm(1) _ prm(2), of "mRows sys ! x"] w x by (simp add: sparse_sum_def)
  qed
  show ?thesis
    unfolding table_upto_gap_def Let_def
  proof (intro conjI allI ballI impI)
    show "length ?Q = paxos_size prm" using bs(1) P1(1) by simp
    show "?Q ! c = P ! c" if "c < ?S" "c \<notin> set (mainCols ts)" for c using bs(2) P1(2) that by simp
    show "decode1 mul prm (mRows sys ! x) (mDense sys ! x) ?Q = X ! x" if "x \<in> set (mainRows ts)" for x
      using row [of x] bs(4) [OF that] that sets by auto
    fix i assume i: "i < length (gapRows ts)"
    let ?x = "fst (gapRows ts ! i)"
    have "?x \<in> fst ` set (gapRows ts)" using i by simp
    then have "?x < length (mRows sys)" using sets by auto
    moreover have "sparse_sum (mRows sys) ?Q ?x XOR dn ?x ?Q 0 = X ! ?x XOR gap_residual ?S (mRows sys) ts (?x # F ! i) ?Q"
      by (rule solved_gap_row [OF tri(1) rows tri(2) S zero dn F i]) (use dense [OF i] D in simp)
    ultimately show "decode1 mul prm (mRows sys ! ?x) (mDense sys ! ?x) ?Q = X ! ?x XOR gap_residual ?S (mRows sys) ts (?x # F ! i) ?Q"
      using row by simp
  qed
qed

text \<open>The table is right when nothing is drawn, and when the rows of the gap are repeated ones.\<close>
lemma table_upto_gap_ok:
  assumes tab: "table_upto_gap mul prm sys ts F X P Q" and st: "start_ok prm sys ts rng P" and F: "fc_inv_ok (mRows sys) ts F"
    and free: "rng \<noteq> None \<Longrightarrow> gap_repeats (mRows sys) ts"
  shows "table_ok mul prm sys X Q"
proof -
  have sets: "set (mainRows ts) \<union> fst ` set (gapRows ts) = {..<length (mRows sys)}" using st by (simp add: start_ok_def triangular_def)
  have gap: "decode1 mul prm (mRows sys ! fst (gapRows ts ! i)) (mDense sys ! fst (gapRows ts ! i)) Q = X ! fst (gapRows ts ! i)"
    if i: "i < length (gapRows ts)" for i
  proof -
    let ?x = "fst (gapRows ts ! i)"
    have "gap_residual (sparse_size prm) (mRows sys) ts (?x # F ! i) Q = 0"
    proof (cases rng)
      case None
      then show ?thesis using tab st by (intro gap_residual_zero) (simp add: table_upto_gap_def start_ok_def)
    next
      case Some
      then have e: "mRows sys ! ?x = mRows sys ! snd (gapRows ts ! i)" using free i by (simp add: gap_repeats_def)
      then have "F ! i = [snd (gapRows ts ! i)]" using F i by (simp add: fc_inv_ok_def)
      then show ?thesis using gap_residual_repeat [OF e] by simp
    qed
    then show ?thesis using tab i by (simp add: table_upto_gap_def Let_def)
  qed
  have "decode1 mul prm (mRows sys ! x) (mDense sys ! x) Q = X ! x" if "x < length (mRows sys)" for x
  proof (cases "x \<in> set (mainRows ts)")
    case False
    then have "x \<in> fst ` set (gapRows ts)" using sets that by auto
    then obtain i where "i < length (gapRows ts)" "fst (gapRows ts ! i) = x" by (auto simp: in_set_conv_nth)
    then show ?thesis using gap [of i] by simp
  qed (use tab in \<open>simp add: table_upto_gap_def\<close>)
  then show ?thesis using tab by (simp add: table_ok_def table_upto_gap_def)
qed

lemma fc_inv_exists:
  assumes "sys_ok prm sys" "start_ok prm sys ts rng P"
  obtains F where "getFCInv (paxos_size prm) (mRows sys) ts = Some F" "fc_inv_ok (mRows sys) ts F"
proof -
  have "triangular (mRows sys) ts" "rows_ok (sparse_size prm) (mRows sys)" "set (mainCols ts) \<subseteq> {..<sparse_size prm}"
    using assms by (simp_all add: sys_ok_def start_ok_def)
  moreover have "sparse_size prm \<le> paxos_size prm" by (simp add: paxos_size_def)
  ultimately show ?thesis using that getFCInv_ok unfolding fc_inv_ok_def by metis
qed

text \<open>A field and a generator that draws from it.\<close>
definition gf_setup :: "(block \<Rightarrow> block \<Rightarrow> block) \<Rightarrow> block set \<Rightarrow> paxos_sys \<Rightarrow> (nat \<Rightarrow> block) option \<Rightarrow> bool" where
  "gf_setup mul K sys rng \<longleftrightarrow> gf_field mul K \<and> set (mDense sys) \<subseteq> K \<and> (\<forall>draw. rng = Some draw \<longrightarrow> (\<forall>i. draw i \<in> K))"

lemma gf_gap_solved:
  assumes sys: "sys_ok prm sys" and gf: "gf_setup mul K sys rng" "dense_ty prm = GF128"
    and st: "start_ok prm sys ts rng P" and F: "fc_inv_ok (mRows sys) ts F" and g: "length (gapRows ts) \<le> dense_size prm"
    and run: "solve_dense mul (gap_eqs mul prm sys ts F X rng pos) (sparse_size prm) P = Inr P1"
  shows "length P1 = paxos_size prm" "c < sparse_size prm \<Longrightarrow> P1 ! c = P ! c"
    "i < length (gapRows ts) \<Longrightarrow> xor_list (map (\<lambda>x. decode_dense1 mul prm (mDense sys ! x) P1 0) (fst (gapRows ts ! i) # F ! i)) =
      xor_list (map ((!) X) (fst (gapRows ts ! i) # F ! i))"
proof -
  let ?S = "sparse_size prm" and ?eqs = "gap_eqs mul prm sys ts F X rng pos"
  define n where "n = (case rng of None \<Rightarrow> length (gapRows ts) | Some _ \<Rightarrow> dense_size prm)"
  have f: "gf_field mul K" and K: "set (mDense sys) \<subseteq> K" "\<forall>draw. rng = Some draw \<longrightarrow> (\<forall>i. draw i \<in> K)"
    using gf(1) by (simp_all add: gf_setup_def)
  have tri: "triangular (mRows sys) ts" "length (mDense sys) = length (mRows sys)" using st sys by (simp_all add: start_ok_def sys_ok_def)
  note e = gap_eqs_ok [OF f K tri F g, where X = X and pos = pos, folded n_def]
  have n: "n \<le> dense_size prm" using g by (cases rng) (simp_all add: n_def)
  have P: "?S + n \<le> length P" "\<And>i. i < n \<Longrightarrow> P ! (?S + i) = 0" "\<And>k. k < dense_size prm \<Longrightarrow> P ! (?S + k) = 0" "length P = paxos_size prm"
    using st n by (simp_all add: start_ok_def paxos_size_def)
  note s = solve_dense_ok [OF f e(1,2) P(1,2) run]
  show "length P1 = paxos_size prm" "c < ?S \<Longrightarrow> P1 ! c = P ! c" using s(1,2) P(4) by auto
  assume i: "i < length (gapRows ts)"
  let ?L = "fst (gapRows ts ! i) # F ! i" and ?q = "map (\<lambda>i. P1 ! (?S + i)) [0..<n]"
  have D: "decode_dense1 mul prm d P1 0 = xor_list (map (\<lambda>k. mul (?q ! k) (dense_pow mul d k)) [0..<n])" for d
  proof -
    have pos: "0 < dense_size prm" using sys by (simp add: sys_ok_def param_ok_def)
    have split: "[0..<dense_size prm] = [0..<n] @ [n..<dense_size prm]" using n upt_add_eq_append [of 0 n "dense_size prm - n"] by simp
    have "mul (P1 ! (?S + k)) (dense_pow mul d k) = 0" if "k \<in> set [n..<dense_size prm]" for k
    proof -
      have "P1 ! (?S + k) = 0" using that s(2) [of "?S + k"] P(3) by simp
      then show ?thesis using gf_field_laws(8) [OF f] by simp
    qed
    then have "xor_list (map (\<lambda>k. mul (P1 ! (?S + k)) (dense_pow mul d k)) [n..<dense_size prm]) = 0" by (rule xor_list_zero)
    moreover have "map (\<lambda>k. mul (?q ! k) (dense_pow mul d k)) [0..<n] = map (\<lambda>k. mul (P1 ! (?S + k)) (dense_pow mul d k)) [0..<n]" by simp
    ultimately show ?thesis
      unfolding decode_dense_gf [OF gf(2) pos] dense_pow_def [symmetric] split map_append xor_list_append by (simp only: xor.left_neutral xor.right_neutral)
  qed
  have lq: "length ?q = n" by simp
  have "snd (?eqs ! i) = row_dot mul (fst (?eqs ! i)) ?q"
  proof (rule s(3) [symmetric])
    show "i < n" using i g by (cases rng) (simp_all add: n_def)
  qed
  then show "xor_list (map (\<lambda>x. decode_dense1 mul prm (mDense sys ! x) P1 0) ?L) = xor_list (map ((!) X) ?L)"
    unfolding e(3) [OF i] gap_eq_ok(3) D gap_eq_dot [OF f lq] by (rule sym)
qed

text \<open>
  \<open>backfillGf128\<close> returns a right table or finds too many rows in the gap or a singular
  system; without rows in the gap it returns.
\<close>
lemma backfillGf128_ok:
  assumes sys: "sys_ok prm sys" and gf: "gf_setup mul K sys rng" "dense_ty prm = GF128"
    and st: "start_ok prm sys ts rng P" and F: "getFCInv (paxos_size prm) (mRows sys) ts = Some F" "fc_inv_ok (mRows sys) ts F"
  shows "(\<exists>Q. backfillGf128 mul prm sys ts X rng pos P = Inr Q \<and> table_upto_gap mul prm sys ts F X P Q) \<or>
    gapRows ts \<noteq> [] \<and> backfillGf128 mul prm sys ts X rng pos P \<in> {Inl (Runtime_error ''RTE_LOC''), Inl (Runtime_error ''E' not invertable'')}"
proof -
  let ?S = "sparse_size prm"
  let ?b = "length (gapRows ts) \<noteq> 0 \<or> rng \<noteq> None"
  let ?bs = "back_substitute (mRows sys) (\<lambda>i P y. if ?b then decode_dense1 mul prm (mDense sys ! i) P y else y) X ts"
  have lP: "length P = paxos_size prm" "\<forall>k < dense_size prm. P ! (?S + k) = 0" using st by (simp_all add: start_ok_def)
  have "dense_ty prm = GF128 \<longrightarrow> 0 < dense_size prm" using sys by (simp add: sys_ok_def param_ok_def)
  note dn = dense_part_decode [OF this, of ?b mul "mDense sys"]
  consider "dense_size prm < length (gapRows ts)" | "gapRows ts = []" | "gapRows ts \<noteq> []" "length (gapRows ts) \<le> dense_size prm" by linarith
  then show ?thesis
  proof cases
    case 1
    then show ?thesis by (auto simp: backfillGf128_def)
  next
    case 2
    let ?P1 = "draw_dense prm rng pos P"
    have D0: "decode_dense1 mul prm d ?P1 0 = 0" if "\<not> ?b" for d
    proof -
      have "?P1 = P" using that by (simp add: draw_dense_def)
      moreover have "0 < dense_size prm" using sys by (simp add: sys_ok_def param_ok_def)
      moreover have "mul 0 x = 0" for x using gf(1) gf_field_laws(8) by (auto simp: gf_setup_def)
      ultimately show ?thesis using lP(2) by (simp add: decode_dense_gf [OF gf(2)]) (intro xor_list_zero, simp)
    qed
    have "table_upto_gap mul prm sys ts F X P (?bs ?P1)"
      by (intro backfill_table_ok [OF sys st F(2) draw_dense_ok(1) [OF lP(1)] draw_dense_ok(2) [OF lP(1)] dn]) (use 2 D0 in simp_all)
    then show ?thesis using 2 by (simp add: backfillGf128_def)
  next
    case 3
    show ?thesis
    proof (cases "solve_dense mul (gap_eqs mul prm sys ts F X rng pos) ?S P")
      case (Inl e)
      then have "e = Runtime_error ''E' not invertable''" by (simp add: solve_dense_def split: option.splits)
      then show ?thesis using 3 F(1) Inl by (simp add: backfillGf128_def)
    next
      case (Inr P1)
      note s = gf_gap_solved [OF sys gf st F(2) 3(2) Inr]
      have "table_upto_gap mul prm sys ts F X P (?bs P1)" by (rule backfill_table_ok [OF sys st F(2) s(1,2) dn _ s(3)]) (use 3 in simp_all)
      then show ?thesis using 3 F(1) Inr by (simp add: backfillGf128_def)
    qed
  qed
qed

end
