(* ===== verification/Paxos_Binary.thy ===== *)
theory Paxos_Binary
  imports Paxos_Encode
begin

text \<open>
  fpsi/opprf/PaxosImpl.h, the solver for a binary dense part: \<open>getGapCols\<close> looks for
  dense columns whose bits make the rows of the gap invertible, \<open>getX2Prime\<close> and
  \<open>getEPrime\<close> are their equations, \<open>backfillBinary\<close> solves them.  Then \<open>encode\<close> for
  both dense types.  Of the crypto library: the inverse of a bit matrix (empty
  when there is none), the binomial coefficient and the enumeration of the
  combinations.
\<close>

section \<open>The code\<close>

record bit_lib =
  bl_invert :: "bool list list \<Rightarrow> bool list list"
  bl_choose :: "nat \<Rightarrow> nat \<Rightarrow> nat"
  bl_ithCombination :: "nat \<Rightarrow> nat \<Rightarrow> nat \<Rightarrow> nat list"

text \<open>The dense part of a row of the gap with the rows that cancel it.\<close>
definition ee_row :: "paxos_sys \<Rightarrow> nat \<Rightarrow> nat list \<Rightarrow> block" where
  "ee_row sys r fcb = fold (\<lambda>j e. e XOR mDense sys ! j) fcb (mDense sys ! r)"

definition getEPrime :: "paxos_sys \<Rightarrow> tri_state \<Rightarrow> nat list list \<Rightarrow> nat list \<Rightarrow> bool list list" where
  "getEPrime sys ts fcinv gapCols =
     map2 (\<lambda>gap fcb. let EERow = ee_row sys (fst gap) fcb in map (bit EERow) gapCols) (gapRows ts) fcinv"

text \<open>The first combination of dense columns that can be inverted; here \<open>FCB\<close> is summed up first.\<close>
definition getGapCols :: "bit_lib \<Rightarrow> paxos_param \<Rightarrow> paxos_sys \<Rightarrow> tri_state \<Rightarrow> nat list list \<Rightarrow> nat list result" where
  "getGapCols lib prm sys ts fcinv =
     (if gapRows ts = [] then Inr []
      else
        let g = length (gapRows ts); e = bl_choose lib (dense_size prm) g;
            EE = (\<lambda>gapCols. map2 (\<lambda>gap fcb.
              let FCB = fold (\<lambda>c FCB. FCB XOR mDense sys ! c) fcb 0; EERow = mDense sys ! fst gap XOR FCB
              in map (bit EERow) gapCols) (gapRows ts) fcinv)
        in case find (\<lambda>gapCols. bl_invert lib (EE gapCols) \<noteq> [])
             (map (\<lambda>ci. bl_ithCombination lib ci (dense_size prm) g) [0..<e]) of
             None \<Rightarrow> Inl (Runtime_error ''failed to find invertible matrix'')
           | Some gapCols \<Rightarrow> Inr gapCols)"

text \<open>\<open>randomizeDenseCols\<close>: draw the dense columns that are not for the gap.\<close>
definition randomizeDenseCols :: "paxos_param \<Rightarrow> nat list \<Rightarrow> (nat \<Rightarrow> block) \<Rightarrow> nat \<Rightarrow> block list \<Rightarrow> block list" where
  "randomizeDenseCols prm gapCols draw pos P =
     fold (\<lambda>(k, i) P. P[sparse_size prm + i := draw (pos + k)])
       (enumerate 0 (filter (\<lambda>i. i \<notin> set gapCols) [0..<dense_size prm])) P"

text \<open>\<open>getX2Prime\<close>: the right sides, less the dense columns that are already drawn.\<close>
definition getX2Prime ::
  "paxos_param \<Rightarrow> paxos_sys \<Rightarrow> tri_state \<Rightarrow> nat list list \<Rightarrow> nat list \<Rightarrow> block list \<Rightarrow> bool \<Rightarrow> block list \<Rightarrow> block list" where
  "getX2Prime prm sys ts fcinv gapCols X randomized P =
     map2 (\<lambda>gap fcb.
       let xx2 = fold (\<lambda>j x. x XOR X ! j) fcb (X ! fst gap); d = ee_row sys (fst gap) fcb
       in if randomized
          then fold (\<lambda>i x. if i \<notin> set gapCols \<and> bit d i then x XOR P ! (sparse_size prm + i) else x) [0..<dense_size prm] xx2
          else xx2) (gapRows ts) fcinv"

text \<open>The columns of the gap take the inverse times the right sides.\<close>
definition solve_bits :: "paxos_param \<Rightarrow> bool list list \<Rightarrow> nat list \<Rightarrow> block list \<Rightarrow> block list \<Rightarrow> block list" where
  "solve_bits prm EEInv gapCols xx2 P =
     fold (\<lambda>i P. P[sparse_size prm + gapCols ! i :=
       fold (\<lambda>j pp. if EEInv ! i ! j then pp XOR xx2 ! j else pp) [0..<length gapCols] (P ! (sparse_size prm + gapCols ! i))])
       [0..<length gapCols] P"

text \<open>The dense part without a generator: only the columns of the gap can be set.\<close>
definition gap_dense :: "paxos_param \<Rightarrow> nat list \<Rightarrow> block \<Rightarrow> block list \<Rightarrow> block \<Rightarrow> block" where
  "gap_dense prm gapCols d P y =
     fold (\<lambda>c y. if bit d c then y XOR P ! (sparse_size prm + c) else y) gapCols y"

definition backfillBinary ::
  "bit_lib \<Rightarrow> (block \<Rightarrow> block \<Rightarrow> block) \<Rightarrow> nat \<Rightarrow> paxos_param \<Rightarrow> paxos_sys \<Rightarrow> tri_state \<Rightarrow> block list \<Rightarrow> (nat \<Rightarrow> block) option \<Rightarrow> nat \<Rightarrow>
   block list \<Rightarrow> block list result" where
  "backfillBinary lib mul mG prm sys ts X rng pos P =
     (let g = length (gapRows ts)
      in if mG < g then Inl (Runtime_error ''RTE_LOC'')
         else
           rbind (if g \<noteq> 0
                  then (case getFCInv (paxos_size prm) (mRows sys) ts of
                          None \<Rightarrow> Inl (Runtime_error ''getFCInv does not end'')
                        | Some fcinv \<Rightarrow>
                            rbind (getGapCols lib prm sys ts fcinv) (\<lambda>gapCols.
                            let P = (case rng of None \<Rightarrow> P | Some draw \<Rightarrow> randomizeDenseCols prm gapCols draw pos P);
                                xx2 = getX2Prime prm sys ts fcinv gapCols X (rng \<noteq> None) P;
                                EEInv = bl_invert lib (getEPrime sys ts fcinv gapCols)
                            in Inr (gapCols, solve_bits prm EEInv gapCols xx2 P)))
                  else Inr ([], draw_dense prm rng pos P)) (\<lambda>(gapCols, P).
           Inr (back_substitute (mRows sys)
             (\<lambda>i P y. if rng \<noteq> None then decode_dense1 mul prm (mDense sys ! i) P y else gap_dense prm gapCols (mDense sys ! i) P y)
             X ts P)))"

text \<open>\<open>backfill\<close> and \<open>encode\<close>.\<close>
definition backfill ::
  "bit_lib \<Rightarrow> (block \<Rightarrow> block \<Rightarrow> block) \<Rightarrow> nat \<Rightarrow> paxos_param \<Rightarrow> paxos_sys \<Rightarrow> block list \<Rightarrow> (nat \<Rightarrow> block) option \<Rightarrow>
   tri_state \<Rightarrow> nat \<Rightarrow> block list \<Rightarrow> block list result" where
  "backfill lib mul mG prm sys X rng ts pos P =
     (case dense_ty prm of
        GF128 \<Rightarrow> backfillGf128 mul prm sys ts X rng pos P
      | Binary \<Rightarrow> backfillBinary lib mul mG prm sys ts X rng pos P)"

definition paxos_encode ::
  "bit_lib \<Rightarrow> (block \<Rightarrow> block \<Rightarrow> block) \<Rightarrow> nat \<Rightarrow> paxos_param \<Rightarrow> paxos_sys \<Rightarrow> block list \<Rightarrow> (nat \<Rightarrow> block) option \<Rightarrow> block list \<Rightarrow>
   block list result" where
  "paxos_encode lib mul mG prm sys X rng output = encode_with (backfill lib mul mG prm sys X rng) prm sys rng output"

section \<open>What the solver relies on of the crypto library\<close>

definition bit_inverse :: "bool list list \<Rightarrow> bool list list \<Rightarrow> bool" where
  "bit_inverse M N \<longleftrightarrow> (\<forall>i < length M. \<forall>l < length M.
     odd (length (filter (\<lambda>j. M ! i ! j \<and> N ! j ! l) [0..<length M])) \<longleftrightarrow> i = l)"

definition bit_lib_ok :: "bit_lib \<Rightarrow> bool" where
  "bit_lib_ok lib \<longleftrightarrow>
     (\<forall>M. (\<forall>r \<in> set M. length r = length M) \<longrightarrow> bl_invert lib M \<noteq> [] \<longrightarrow> bit_inverse M (bl_invert lib M)) \<and>
     (\<forall>n k ci. ci < bl_choose lib n k \<longrightarrow> length (bl_ithCombination lib ci n k) = k \<and>
        distinct (bl_ithCombination lib ci n k) \<and> set (bl_ithCombination lib ci n k) \<subseteq> {..<n})"

section \<open>The equations of the gap\<close>

lemma ee_row_xor: "ee_row sys r fcb = xor_list (map ((!) (mDense sys)) (r # fcb))"
  by (simp add: ee_row_def fold_xor_map)

lemma gap_matrix_eq:
  "map2 (\<lambda>gap fcb. let FCB = fold (\<lambda>c FCB. FCB XOR mDense sys ! c) fcb 0; EERow = mDense sys ! fst gap XOR FCB
     in map (bit EERow) gapCols) (gapRows ts) fcinv = getEPrime sys ts fcinv gapCols"
  by (simp add: getEPrime_def ee_row_xor fold_xor_map Let_def)

lemma getGapCols_ok:
  assumes lib: "bit_lib_ok lib" and cols: "getGapCols lib prm sys ts F = Inr gapCols" and g: "gapRows ts \<noteq> []"
  shows "length gapCols = length (gapRows ts)" "distinct gapCols" "set gapCols \<subseteq> {..<dense_size prm}"
    "bl_invert lib (getEPrime sys ts F gapCols) \<noteq> []"
proof -
  let ?cs = "map (\<lambda>ci. bl_ithCombination lib ci (dense_size prm) (length (gapRows ts))) [0..<bl_choose lib (dense_size prm) (length (gapRows ts))]"
  have f: "find (\<lambda>gapCols. bl_invert lib (getEPrime sys ts F gapCols) \<noteq> []) ?cs = Some gapCols"
    using cols g unfolding getGapCols_def gap_matrix_eq by (auto simp: Let_def split: option.splits)
  then have "gapCols \<in> set ?cs" by (metis find_Some_iff nth_mem)
  then obtain ci where "ci < bl_choose lib (dense_size prm) (length (gapRows ts))"
    "gapCols = bl_ithCombination lib ci (dense_size prm) (length (gapRows ts))" by auto
  then show "length gapCols = length (gapRows ts)" "distinct gapCols" "set gapCols \<subseteq> {..<dense_size prm}"
    using lib unfolding bit_lib_ok_def by blast+
  show "bl_invert lib (getEPrime sys ts F gapCols) \<noteq> []" using f by (auto simp: find_Some_iff)
qed

text \<open>Multiplying by the inverse and by the matrix gives the right sides back.\<close>
lemma bit_inverse_apply:
  fixes x :: "nat \<Rightarrow> block"
  assumes "bit_inverse M N" "i < length M"
  shows "xor_list (map (\<lambda>j. if M ! i ! j then xor_list (map (\<lambda>l. if N ! j ! l then x l else 0) [0..<length M]) else 0) [0..<length M]) = x i"
proof -
  let ?n = "length M"
  have "(if M ! i ! j then xor_list (map (\<lambda>l. if N ! j ! l then x l else 0) [0..<?n]) else 0) =
      xor_list (map (\<lambda>l. if M ! i ! j \<and> N ! j ! l then x l else 0) [0..<?n])" for j
    by (cases "M ! i ! j") (simp_all add: xor_list_zero)
  then have "xor_list (map (\<lambda>j. if M ! i ! j then xor_list (map (\<lambda>l. if N ! j ! l then x l else 0) [0..<?n]) else 0) [0..<?n]) =
      xor_list (map (\<lambda>j. xor_list (map (\<lambda>l. if M ! i ! j \<and> N ! j ! l then x l else 0) [0..<?n])) [0..<?n])"
    by simp
  also have "\<dots> = xor_list (map (\<lambda>l. xor_list (map (\<lambda>j. if M ! i ! j \<and> N ! j ! l then x l else 0) [0..<?n])) [0..<?n])"
    by (rule xor_list_swap)
  also have "\<dots> = xor_list (map (\<lambda>l. if l = i then x l else 0) [0..<?n])"
    using assms by (intro arg_cong [where f = xor_list] map_cong refl) (auto simp: xor_list_parity bit_inverse_def)
  also have "\<dots> = (if i < m then x i else 0)" if "m = ?n" for m
    unfolding that [symmetric] by (induction m) auto
  finally show ?thesis using assms(2) by simp
qed

lemma bits_parity: "xor_list (map (\<lambda>x. if bit (d x) k then p else 0) xs) = (if bit (xor_list (map d xs)) k then p else 0)"
  for p :: block and d :: "'b \<Rightarrow> block"
  by (induction xs) (auto simp: bit_xor_iff)

text \<open>The sum of the dense parts of rows is the dense part of their sum.\<close>
lemma dense_bits_sum:
  assumes "dense_ty prm = Binary"
  shows "xor_list (map (\<lambda>x. decode_dense1 mul prm (d x) P 0) xs) =
    xor_list (map (\<lambda>k. if bit (xor_list (map d xs)) k then P ! (sparse_size prm + k) else 0) [0..<dense_size prm])"
proof -
  have "xor_list (map (\<lambda>x. decode_dense1 mul prm (d x) P 0) xs) =
      xor_list (map (\<lambda>x. xor_list (map (\<lambda>k. if bit (d x) k then P ! (sparse_size prm + k) else 0) [0..<dense_size prm])) xs)"
    by (simp add: decode_dense_bin [OF assms])
  also have "\<dots> = xor_list (map (\<lambda>k. xor_list (map (\<lambda>x. if bit (d x) k then P ! (sparse_size prm + k) else 0) xs)) [0..<dense_size prm])"
    by (rule xor_list_swap)
  finally show ?thesis by (simp only: bits_parity)
qed

lemma xor_list_split:
  fixes f :: "nat \<Rightarrow> block"
  assumes "distinct cs" "set cs \<subseteq> {..<n}"
  shows "xor_list (map f [0..<n]) = xor_list (map f cs) XOR xor_list (map (\<lambda>k. if k \<in> set cs then 0 else f k) [0..<n])"
  using assms
proof (induction cs)
  case (Cons a cs)
  have one: "xor_list (map (\<lambda>k. if k = a then f k else 0) [0..<m]) = (if a < m then f a else 0)" for m
    by (induction m) auto
  have "xor_list (map (\<lambda>k. if k \<in> set cs then 0 else f k) [0..<n]) =
      xor_list (map (\<lambda>k. (if k = a then f k else 0) XOR (if k \<in> set (a # cs) then 0 else f k)) [0..<n])"
    using Cons.prems(1) by (intro arg_cong [where f = xor_list] map_cong) auto
  also have "\<dots> = f a XOR xor_list (map (\<lambda>k. if k \<in> set (a # cs) then 0 else f k) [0..<n])"
    using Cons.prems(2) one [of n] by (simp only: xor_list_map_xor) simp
  finally have rest: "xor_list (map (\<lambda>k. if k \<in> set cs then 0 else f k) [0..<n]) =
      f a XOR xor_list (map (\<lambda>k. if k \<in> set (a # cs) then 0 else f k) [0..<n])" .
  have "xor_list (map f [0..<n]) = xor_list (map f cs) XOR xor_list (map (\<lambda>k. if k \<in> set cs then 0 else f k) [0..<n])"
    using Cons by simp
  then show ?case unfolding rest list.map xor_list_Cons by (simp only: xor_ac)
qed simp

text \<open>Writing distinct dense columns.\<close>
lemma fold_write_at:
  fixes f :: "nat \<Rightarrow> block \<Rightarrow> block"
  assumes "distinct cs" "\<forall>c \<in> set cs. S + c < length P"
  defines "Q \<equiv> fold (\<lambda>i P. P[S + cs ! i := f i (P ! (S + cs ! i))]) [0..<length cs] P"
  shows "length Q = length P" "i < length cs \<Longrightarrow> Q ! (S + cs ! i) = f i (P ! (S + cs ! i))"
    "(\<And>c. c \<in> set cs \<Longrightarrow> k \<noteq> S + c) \<Longrightarrow> Q ! k = P ! k"
proof -
  let ?Q = "\<lambda>m. fold (\<lambda>i P. P[S + cs ! i := f i (P ! (S + cs ! i))]) [0..<m] P"
  have "length (?Q m) = length P \<and> (\<forall>i < length cs. ?Q m ! (S + cs ! i) = (if i < m then f i (P ! (S + cs ! i)) else P ! (S + cs ! i))) \<and>
      (\<forall>k. (\<forall>c \<in> set cs. k \<noteq> S + c) \<longrightarrow> ?Q m ! k = P ! k)" if "m \<le> length cs" for m
    using that
  proof (induction m)
    case (Suc m)
    then have m: "m < length cs" "S + cs ! m < length P" using assms(2) by simp_all
    have eq: "cs ! i = cs ! m \<longleftrightarrow> i = m" if "i < length cs" for i using that m(1) assms(1) by (simp add: nth_eq_iff_index_eq)
    define R where "R = ?Q m"
    have IH: "length R = length P" "\<And>i. i < length cs \<Longrightarrow> R ! (S + cs ! i) = (if i < m then f i (P ! (S + cs ! i)) else P ! (S + cs ! i))"
      "\<And>k. \<forall>c \<in> set cs. k \<noteq> S + c \<Longrightarrow> R ! k = P ! k"
      using Suc unfolding R_def by simp_all
    have step: "?Q (Suc m) = R[S + cs ! m := f m (P ! (S + cs ! m))]" using IH(2) [OF m(1)] by (simp add: R_def)
    have "R[S + cs ! m := f m (P ! (S + cs ! m))] ! (S + cs ! i) = (if i < Suc m then f i (P ! (S + cs ! i)) else P ! (S + cs ! i))"
      if "i < length cs" for i
      using IH(1,2) that m(2) eq [OF that] by (cases "i = m") (simp_all add: less_Suc_eq)
    moreover have "R[S + cs ! m := f m (P ! (S + cs ! m))] ! k = P ! k" if "\<forall>c \<in> set cs. k \<noteq> S + c" for k
      using IH(3) [OF that] that m(1) by (metis nth_mem nth_list_update_neq)
    ultimately show ?case unfolding step using IH(1) by simp
  qed simp
  from this [of "length cs"] show "length Q = length P" "i < length cs \<Longrightarrow> Q ! (S + cs ! i) = f i (P ! (S + cs ! i))"
    "(\<And>c. c \<in> set cs \<Longrightarrow> k \<noteq> S + c) \<Longrightarrow> Q ! k = P ! k" by (auto simp: Q_def)
qed

lemma randomizeDenseCols_ok:
  assumes "length P = paxos_size prm"
  shows "length (randomizeDenseCols prm gapCols draw pos P) = paxos_size prm"
    "c < sparse_size prm \<Longrightarrow> randomizeDenseCols prm gapCols draw pos P ! c = P ! c"
    "c \<in> set gapCols \<Longrightarrow> randomizeDenseCols prm gapCols draw pos P ! (sparse_size prm + c) = P ! (sparse_size prm + c)"
proof -
  let ?ks = "filter (\<lambda>i. i \<notin> set gapCols) [0..<dense_size prm]"
  have gen: "\<forall>c \<in> set (map snd kis). sparse_size prm + c < length P \<Longrightarrow>
      length (fold (\<lambda>(k, i) P. P[sparse_size prm + i := draw (pos + k)]) kis P) = length P \<and>
      (\<forall>x. (\<forall>c \<in> snd ` set kis. x \<noteq> sparse_size prm + c) \<longrightarrow>
        fold (\<lambda>(k, i) P. P[sparse_size prm + i := draw (pos + k)]) kis P ! x = P ! x)" for kis
    by (induction kis arbitrary: P) auto
  have snds: "snd ` set (enumerate 0 ?ks) = set ?ks" by (metis list.set_map map_snd_enumerate)
  have "\<forall>c \<in> set (map snd (enumerate 0 ?ks)). sparse_size prm + c < length P" using assms snds by (auto simp: paxos_size_def)
  note g = gen [OF this, unfolded snds]
  show "length (randomizeDenseCols prm gapCols draw pos P) = paxos_size prm" using g assms by (simp add: randomizeDenseCols_def)
  show "c < sparse_size prm \<Longrightarrow> randomizeDenseCols prm gapCols draw pos P ! c = P ! c"
    using g unfolding randomizeDenseCols_def by auto
  assume "c \<in> set gapCols"
  then have "\<forall>c' \<in> set ?ks. sparse_size prm + c \<noteq> sparse_size prm + c'" by auto
  then show "randomizeDenseCols prm gapCols draw pos P ! (sparse_size prm + c) = P ! (sparse_size prm + c)"
    using g unfolding randomizeDenseCols_def by blast
qed

lemma gap_dense_eq:
  assumes "dense_ty prm = Binary" "distinct gapCols" "set gapCols \<subseteq> {..<dense_size prm}"
    and zero: "\<And>k. k < dense_size prm \<Longrightarrow> k \<notin> set gapCols \<Longrightarrow> P ! (sparse_size prm + k) = 0"
  shows "gap_dense prm gapCols d P y = decode_dense1 mul prm d P y"
proof -
  let ?f = "\<lambda>k. if bit d k then P ! (sparse_size prm + k) else 0"
  have "gap_dense prm gapCols d P y = y XOR xor_list (map ?f gapCols)"
    unfolding gap_dense_def by (induction gapCols arbitrary: y) (simp_all add: xor.assoc)
  moreover have "xor_list (map ?f [0..<dense_size prm]) = xor_list (map ?f gapCols)"
    unfolding xor_list_split [OF assms(2,3), of ?f]
    using zero xor_list_zero [of "[0..<dense_size prm]" "\<lambda>k. if k \<in> set gapCols then 0 else ?f k"] by simp
  ultimately show ?thesis by (simp add: decode_dense_bin [OF assms(1)])
qed

lemma gap_dense_part:
  assumes "dense_ty prm = Binary"
  shows "dense_part (sparse_size prm) (\<lambda>i P y. if b then decode_dense1 mul prm (dense ! i) P y else gap_dense prm gapCols (dense ! i) P y)"
proof (cases b)
  case True
  then show ?thesis using dense_part_decode [of prm True mul dense] assms by simp
next
  case False
  have sum: "gap_dense prm gapCols d P y = y XOR xor_list (map (\<lambda>c. if bit d c then P ! (sparse_size prm + c) else 0) gapCols)" for d P y
    unfolding gap_dense_def by (induction gapCols arbitrary: y) (simp_all add: xor.assoc)
  have "P[c := v] ! (sparse_size prm + k) = P ! (sparse_size prm + k)" if "c < sparse_size prm" for P :: "block list" and c v k
    using that by simp
  then show ?thesis using False by (simp add: dense_part_def sum cong: if_cong)
qed

text \<open>The equations of the gap hold after \<open>solve_bits\<close>.\<close>
lemma bin_gap_solved:
  fixes X :: "block list"
  assumes sys: "sys_ok prm sys" and bin: "dense_ty prm = Binary" and lib: "bit_lib_ok lib"
    and F: "fc_inv_ok (mRows sys) ts F" and g: "gapRows ts \<noteq> []" and cols: "getGapCols lib prm sys ts F = Inr gapCols"
    and P0: "length P0 = paxos_size prm" "\<And>c. c \<in> set gapCols \<Longrightarrow> P0 ! (sparse_size prm + c) = 0"
    and drawn: "\<not> b \<Longrightarrow> \<forall>k < dense_size prm. P0 ! (sparse_size prm + k) = 0"
  defines "P1 \<equiv> solve_bits prm (bl_invert lib (getEPrime sys ts F gapCols)) gapCols (getX2Prime prm sys ts F gapCols X b P0) P0"
  shows "length P1 = paxos_size prm" "c < sparse_size prm \<Longrightarrow> P1 ! c = P0 ! c"
    "k \<notin> set gapCols \<Longrightarrow> P1 ! (sparse_size prm + k) = P0 ! (sparse_size prm + k)"
    "i < length (gapRows ts) \<Longrightarrow> xor_list (map (\<lambda>x. decode_dense1 mul prm (mDense sys ! x) P1 0) (fst (gapRows ts ! i) # F ! i)) =
      xor_list (map ((!) X) (fst (gapRows ts ! i) # F ! i))"
proof -
  let ?S = "sparse_size prm" and ?g = "length (gapRows ts)"
  let ?M = "getEPrime sys ts F gapCols" and ?xx = "getX2Prime prm sys ts F gapCols X b P0"
  let ?N = "bl_invert lib ?M"
  note gc = getGapCols_ok [OF lib cols g]
  have lF: "length F = ?g" using F by (simp add: fc_inv_ok_def)
  have M: "length ?M = ?g" "\<forall>r \<in> set ?M. length r = length ?M" using lF gc(1) by (auto simp: getEPrime_def Let_def)
  have inv: "bit_inverse ?M ?N" using lib M(2) gc(4) unfolding bit_lib_ok_def by blast
  have at: "\<forall>c \<in> set gapCols. ?S + c < length P0" using gc(3) P0(1) by (auto simp: paxos_size_def)
  let ?f = "\<lambda>i p. fold (\<lambda>j pp. if ?N ! i ! j then pp XOR ?xx ! j else pp) [0..<length gapCols] p"
  note w = fold_write_at [OF gc(2) at, where f = ?f, folded solve_bits_def P1_def]
  show "length P1 = paxos_size prm" "c < ?S \<Longrightarrow> P1 ! c = P0 ! c" using w(1) w(3) [of c] P0(1) by auto
  have free: "P1 ! (?S + k) = P0 ! (?S + k)" if "k \<notin> set gapCols" for k using that by (intro w(3)) auto
  then show "k \<notin> set gapCols \<Longrightarrow> P1 ! (?S + k) = P0 ! (?S + k)" .
  assume i: "i < ?g"
  let ?L = "fst (gapRows ts ! i) # F ! i"
  define e where "e = xor_list (map ((!) (mDense sys)) ?L)"
  define h where "h k = (if bit e k then P1 ! (?S + k) else 0)" for k
  have fold_if: "fold (\<lambda>j pp. if A j then pp XOR x j else pp) js p = p XOR xor_list (map (\<lambda>j. if A j then x j else 0) js)"
    for A :: "nat \<Rightarrow> bool" and x js and p :: block
    by (induction js arbitrary: p) (simp_all add: xor.assoc)
  have sol: "P1 ! (?S + gapCols ! j) = xor_list (map (\<lambda>l. if ?N ! j ! l then ?xx ! l else 0) [0..<?g])" if "j < ?g" for j
    using w(2) [of j] that gc(1) P0(2) by (simp add: fold_if)
  have Mi: "?M ! i = map (bit e) gapCols" using i lF by (simp add: getEPrime_def ee_row_xor e_def Let_def)
  have "map h gapCols = map (\<lambda>j. h (gapCols ! j)) [0..<?g]" using gc(1) by (intro nth_equalityI) simp_all
  also have "\<dots> = map (\<lambda>j. if ?M ! i ! j then xor_list (map (\<lambda>l. if ?N ! j ! l then ?xx ! l else 0) [0..<?g]) else 0) [0..<?g]"
    using sol gc(1) by (intro map_cong refl) (simp add: Mi h_def)
  finally have gap: "xor_list (map h gapCols) = ?xx ! i"
    using bit_inverse_apply [OF inv, of i "(!) ?xx", unfolded M(1), OF i] by (simp only:)
  have xx: "?xx ! i = xor_list (map ((!) X) ?L) XOR xor_list (map (\<lambda>k. if k \<in> set gapCols then 0 else h k) [0..<dense_size prm])"
  proof -
    have "xor_list (map (\<lambda>k. if k \<in> set gapCols then 0 else h k) [0..<dense_size prm]) =
        xor_list (map (\<lambda>k. if k \<notin> set gapCols \<and> bit e k then P0 ! (?S + k) else 0) [0..<dense_size prm])"
      using free by (intro arg_cong [where f = xor_list] map_cong) (auto simp: h_def)
    moreover have "\<dots> = 0" if "\<not> b" using drawn [OF that] by (intro xor_list_zero) simp
    ultimately show ?thesis
      using i lF by (cases b) (simp_all add: getX2Prime_def Let_def fold_xor_map fold_if ee_row_xor e_def xor.assoc)
  qed
  have "xor_list (map (\<lambda>x. decode_dense1 mul prm (mDense sys ! x) P1 0) ?L) = xor_list (map h [0..<dense_size prm])"
    unfolding dense_bits_sum [OF bin] e_def h_def by simp
  also have "\<dots> = xor_list (map ((!) X) ?L)"
    unfolding xor_list_split [OF gc(2,3), of h] gap xx by (simp add: xor.assoc)
  finally show "xor_list (map (\<lambda>x. decode_dense1 mul prm (mDense sys ! x) P1 0) ?L) = xor_list (map ((!) X) ?L)" .
qed

lemma backfillBinary_ok:
  assumes sys: "sys_ok prm sys" and bin: "dense_ty prm = Binary" and lib: "bit_lib_ok lib"
    and st: "start_ok prm sys ts rng P" and F: "getFCInv (paxos_size prm) (mRows sys) ts = Some F" "fc_inv_ok (mRows sys) ts F"
  shows "(\<exists>Q. backfillBinary lib mul mG prm sys ts X rng pos P = Inr Q \<and> table_upto_gap mul prm sys ts F X P Q) \<or>
    gapRows ts \<noteq> [] \<and> (\<exists>e. backfillBinary lib mul mG prm sys ts X rng pos P = Inl (Runtime_error e))"
proof -
  let ?S = "sparse_size prm"
  let ?dn = "\<lambda>gapCols i P y. if rng \<noteq> None then decode_dense1 mul prm (mDense sys ! i) P y else gap_dense prm gapCols (mDense sys ! i) P y"
  have lP: "length P = paxos_size prm" and P0: "\<And>k. k < dense_size prm \<Longrightarrow> P ! (?S + k) = 0" using st by (simp_all add: start_ok_def)
  note dn = gap_dense_part [OF bin, of "rng \<noteq> None" mul "mDense sys"]
  consider "mG < length (gapRows ts)" | "gapRows ts = []" | "gapRows ts \<noteq> []" "length (gapRows ts) \<le> mG" by linarith
  then show ?thesis
  proof cases
    case 1
    then show ?thesis by (auto simp: backfillBinary_def)
  next
    case 2
    let ?P1 = "draw_dense prm rng pos P"
    have "?dn [] x ?P1 0 = decode_dense1 mul prm (mDense sys ! x) ?P1 0" for x
      using gap_dense_eq [OF bin, of "[]" P] P0 by (cases rng) (simp_all add: draw_dense_def)
    then have "table_upto_gap mul prm sys ts F X P (back_substitute (mRows sys) (?dn []) X ts ?P1)"
      by (intro backfill_table_ok [OF sys st F(2) draw_dense_ok(1) [OF lP] draw_dense_ok(2) [OF lP] dn]) (use 2 in simp_all)
    then show ?thesis using 2 by (simp add: backfillBinary_def)
  next
    case 3
    show ?thesis
    proof (cases "getGapCols lib prm sys ts F")
      case (Inl e)
      then have "e = Runtime_error ''failed to find invertible matrix''"
        by (auto simp: getGapCols_def Let_def split: if_splits option.splits)
      then show ?thesis using 3 F(1) Inl by (simp add: backfillBinary_def)
    next
      case (Inr gapCols)
      note gc = getGapCols_ok [OF lib Inr 3(1)]
      define P0' where "P0' = (case rng of None \<Rightarrow> P | Some draw \<Rightarrow> randomizeDenseCols prm gapCols draw pos P)"
      have a: "length P0' = paxos_size prm" "\<And>c. c < ?S \<Longrightarrow> P0' ! c = P ! c"
        using lP randomizeDenseCols_ok(1,2) [OF lP] by (cases rng; simp add: P0'_def)+
      have b: "P0' ! (?S + c) = 0" if "c \<in> set gapCols" for c
        using that gc(3) P0 [of c] randomizeDenseCols_ok(3) [OF lP that] by (cases rng) (auto simp: P0'_def)
      have c: "\<forall>k < dense_size prm. P0' ! (?S + k) = 0" if "\<not> rng \<noteq> None" using that P0 by (simp add: P0'_def)
      define P1 where "P1 = solve_bits prm (bl_invert lib (getEPrime sys ts F gapCols)) gapCols
        (getX2Prime prm sys ts F gapCols X (rng \<noteq> None) P0') P0'"
      note s = bin_gap_solved [OF sys bin lib F(2) 3(1) Inr a(1) b c, where X = X and b = "rng \<noteq> None", folded P1_def]
      have D: "?dn gapCols x P1 0 = decode_dense1 mul prm (mDense sys ! x) P1 0" for x
      proof (cases "rng = None")
        case True
        then have "P1 ! (?S + k) = 0" if "k < dense_size prm" "k \<notin> set gapCols" for k using s(3) c that by simp
        then show ?thesis using True gap_dense_eq [OF bin gc(2,3)] by simp
      qed simp
      have "table_upto_gap mul prm sys ts F X P (back_substitute (mRows sys) (?dn gapCols) X ts P1)"
      proof (rule backfill_table_ok [OF sys st F(2) s(1) _ dn D s(4)])
        fix c assume "c < ?S"
        then show "P1 ! c = P ! c" using s(2) a(2) by metis
      qed
      then show ?thesis using 3 F(1) Inr by (simp add: backfillBinary_def Let_def P1_def P0'_def)
    qed
  qed
qed

section \<open>Encoding is right\<close>

text \<open>
  \<open>encode\<close> ends; it fails only on two equal dense parts or with a row in the gap, or when
  it runs out of columns.
\<close>
lemma paxos_encode_upto_gap:
  assumes sys: "sys_ok prm sys" and lib: "bit_lib_ok lib" and gf: "dense_ty prm = GF128 \<Longrightarrow> gf_setup mul K sys rng"
    and out: "length output = paxos_size prm" and rand: "rng \<noteq> None \<Longrightarrow> length (mRows sys) < sparse_size prm"
  shows "(\<exists>ts F P pos Q. triangulate sys = Some (Inr ts) \<and> start_ok prm sys ts rng P \<and>
      draw_free (ts_wd ts) rng (replicate (paxos_size prm) 0) = Inr (P, pos) \<and>
      getFCInv (paxos_size prm) (mRows sys) ts = Some F \<and> fc_inv_ok (mRows sys) ts F \<and>
      paxos_encode lib mul mG prm sys X rng output = Inr Q \<and> table_upto_gap mul prm sys ts F X P Q) \<or>
    (\<exists>e. paxos_encode lib mul mG prm sys X rng output = Inl (Runtime_error e)) \<and>
    (\<not> distinct (mDense sys) \<or> (\<exists>ts. triangulate sys = Some (Inr ts) \<and> gapRows ts \<noteq> [])) \<or>
    paxos_encode lib mul mG prm sys X rng output = Inl empty_back \<and> sparse_size prm \<le> length (mRows sys) + 1"
proof -
  have s: "rows_ok (sparse_size prm) (mRows sys)" "mCols sys = rebuildColumns (sparse_size prm) (mRows sys)"
    "length (mDense sys) = length (mRows sys)" "0 < sparse_size prm" "\<forall>c \<in> set (mCols sys). length c < 200"
    using sys by (auto simp: sys_ok_def param_ok_def)
  from triangulate_ok [OF s] show ?thesis
  proof
    assume "\<exists>ts. triangulate sys = Some (Inr ts) \<and> triangular (mRows sys) ts \<and> set (mainCols ts) \<subseteq> {..<sparse_size prm} \<and>
      wd_ok (sparse_size prm) (set (mainCols ts)) (ts_wd ts)"
    then obtain ts where ts: "triangulate sys = Some (Inr ts)" "triangular (mRows sys) ts" "set (mainCols ts) \<subseteq> {..<sparse_size prm}"
      "wd_ok (sparse_size prm) (set (mainCols ts)) (ts_wd ts)" by blast
    obtain P pos where P: "draw_free (ts_wd ts) rng (replicate (paxos_size prm) 0) = Inr (P, pos)" "start_ok prm sys ts rng P"
      using draw_free_ok [OF sys ts(2-4) rand] by blast
    have run: "paxos_encode lib mul mG prm sys X rng output = backfill lib mul mG prm sys X rng ts pos P"
      using out ts(1) P(1) by (simp add: paxos_encode_def encode_with_def)
    obtain F where F: "getFCInv (paxos_size prm) (mRows sys) ts = Some F" "fc_inv_ok (mRows sys) ts F"
      using fc_inv_exists [OF sys P(2)] .
    have "(\<exists>Q. backfill lib mul mG prm sys X rng ts pos P = Inr Q \<and> table_upto_gap mul prm sys ts F X P Q) \<or>
      gapRows ts \<noteq> [] \<and> (\<exists>e. backfill lib mul mG prm sys X rng ts pos P = Inl (Runtime_error e))"
    proof (cases "dense_ty prm")
      case Binary
      then show ?thesis using backfillBinary_ok [OF sys Binary lib P(2) F, of mul mG X pos] by (simp add: backfill_def)
    next
      case GF128
      then show ?thesis using backfillGf128_ok [OF sys gf [OF GF128] GF128 P(2) F, of X pos] by (auto simp: backfill_def)
    qed
    then show ?thesis using ts(1) F P unfolding run by blast
  next
    assume "triangulate sys = Some (Inl (Runtime_error ''RTE_LOC'')) \<and> \<not> distinct (mDense sys) \<or>
      triangulate sys = Some (Inl empty_back) \<and> sparse_size prm \<le> length (mRows sys) + 1"
    then show ?thesis using out by (auto simp: paxos_encode_def encode_with_def)
  qed
qed

text \<open>
  The table is right without a generator, and with one when the rows of the gap repeat
  rows of the diagonal.
\<close>
lemma paxos_encode_ok:
  assumes "sys_ok prm sys" "bit_lib_ok lib" "dense_ty prm = GF128 \<Longrightarrow> gf_setup mul K sys rng" "length output = paxos_size prm"
    and "rng \<noteq> None \<Longrightarrow> length (mRows sys) < sparse_size prm"
      "\<And>ts. rng \<noteq> None \<Longrightarrow> triangulate sys = Some (Inr ts) \<Longrightarrow> gap_repeats (mRows sys) ts"
  shows "(\<exists>Q. paxos_encode lib mul mG prm sys X rng output = Inr Q \<and> table_ok mul prm sys X Q) \<or>
    (\<exists>e. paxos_encode lib mul mG prm sys X rng output = Inl (Runtime_error e)) \<and>
    (\<not> distinct (mDense sys) \<or> (\<exists>ts. triangulate sys = Some (Inr ts) \<and> gapRows ts \<noteq> [])) \<or>
    paxos_encode lib mul mG prm sys X rng output = Inl empty_back \<and> sparse_size prm \<le> length (mRows sys) + 1"
  using paxos_encode_upto_gap [OF assms(1-5), where mG = mG and X = X] table_upto_gap_ok assms(6) by metis

section \<open>Equal rows\<close>

text \<open>Whether \<open>encode\<close> succeeds does not depend on the values.\<close>
lemma solve_dense_values:
  "map fst eqs = map fst eqs' \<Longrightarrow> solve_dense mul eqs S P = Inr P1 \<Longrightarrow> \<exists>P2. solve_dense mul eqs' S P = Inr P2"
  by (auto simp: solve_dense_def split: option.splits)

lemma gap_eqs_values: "map fst (gap_eqs mul prm sys ts F X rng pos) = map fst (gap_eqs mul prm sys ts F X' rng pos)"
  by (simp add: gap_eqs_def gap_eq_def Let_def case_prod_unfold)

lemma paxos_encode_values:
  assumes "paxos_encode lib mul mG prm sys X rng output = Inr Q"
  shows "\<exists>Q'. paxos_encode lib mul mG prm sys X' rng output = Inr Q'"
proof -
  have "\<exists>Q'. backfill lib mul mG prm sys X' rng ts pos P = Inr Q'" if b: "backfill lib mul mG prm sys X rng ts pos P = Inr Q" for ts pos P
  proof (cases "dense_ty prm")
    case GF128
    have "\<exists>P2. solve_dense mul (gap_eqs mul prm sys ts F X' rng pos) S P = Inr P2"
      if "solve_dense mul (gap_eqs mul prm sys ts F X rng pos) S P = Inr P1" for F S P1
      using solve_dense_values [OF gap_eqs_values that] .
    then show ?thesis using b GF128 by (fastforce simp: backfill_def backfillGf128_def Let_def split: if_splits option.splits)
  next
    case Binary
    then show ?thesis using b by (auto simp: backfill_def backfillBinary_def Let_def split: if_splits option.splits)
  qed
  then show ?thesis
    using assms by (fastforce simp: paxos_encode_def encode_with_def split: if_splits option.splits)
qed

text \<open>A table cannot give two values to equal rows, so there is none for a system with equal rows.\<close>
lemma paxos_encode_distinct:
  assumes sys: "sys_ok prm sys" and lib: "bit_lib_ok lib" and gf: "dense_ty prm = GF128 \<Longrightarrow> gf_setup mul K sys rng"
    and out: "length output = paxos_size prm" and rand: "rng \<noteq> None \<Longrightarrow> length (mRows sys) < sparse_size prm"
    and i: "i < length (mRows sys)" "j < length (mRows sys)" "i \<noteq> j" "mRows sys ! i = mRows sys ! j" "mDense sys ! i = mDense sys ! j"
  shows "paxos_encode lib mul mG prm sys X rng output \<noteq> Inr Q"
proof
  assume run: "paxos_encode lib mul mG prm sys X rng output = Inr Q"
  let ?S = "sparse_size prm" and ?row = "\<lambda>Q x. decode1 mul prm (mRows sys ! x) (mDense sys ! x) Q"
  define X0 X1 where "X0 = replicate (length (mRows sys)) (0 :: block)" and "X1 = X0[i := 1]"
  have enc: "\<exists>ts F P pos Q. triangulate sys = Some (Inr ts) \<and> start_ok prm sys ts rng P \<and>
      draw_free (ts_wd ts) rng (replicate (paxos_size prm) 0) = Inr (P, pos) \<and>
      getFCInv (paxos_size prm) (mRows sys) ts = Some F \<and> table_upto_gap mul prm sys ts F X' P Q" for X'
    using paxos_encode_upto_gap [OF sys lib gf out rand, where mG = mG and X = X'] paxos_encode_values [OF run, of X'] by fastforce
  obtain ts F P pos Q0 where t: "triangulate sys = Some (Inr ts)" "draw_free (ts_wd ts) rng (replicate (paxos_size prm) 0) = Inr (P, pos)"
    "getFCInv (paxos_size prm) (mRows sys) ts = Some F" "start_ok prm sys ts rng P" "table_upto_gap mul prm sys ts F X0 P Q0" using enc [of X0] by blast
  obtain Q1 where t1: "table_upto_gap mul prm sys ts F X1 P Q1" using enc [of X1] t(1-3) by auto
  have free: "gap_residual ?S (mRows sys) ts xs Q0 = gap_residual ?S (mRows sys) ts xs Q1" for xs
    using t(5) t1 unfolding gap_residual_def table_upto_gap_def
    by (intro arg_cong [where f = xor_list] map_cong) auto
  have res: "\<exists>r. ?row Q0 x = X0 ! x XOR r \<and> ?row Q1 x = X1 ! x XOR r" if x: "x < length (mRows sys)" for x
  proof (cases "x \<in> set (mainRows ts)")
    case True
    then show ?thesis using t(5) t1 by (intro exI [of _ 0]) (simp add: table_upto_gap_def)
  next
    case False
    moreover have "set (mainRows ts) \<union> fst ` set (gapRows ts) = {..<length (mRows sys)}"
      using t(4) by (simp add: start_ok_def triangular_def)
    ultimately obtain k where k: "k < length (gapRows ts)" "fst (gapRows ts ! k) = x"
      using x by (metis (no_types, lifting) Un_iff image_iff in_set_conv_nth lessThan_iff)
    then show ?thesis using t(5) t1 free
      by (intro exI [of _ "gap_residual ?S (mRows sys) ts (x # F ! k) Q1"]) (auto simp: table_upto_gap_def Let_def)
  qed
  obtain r s where r: "?row Q0 i = X0 ! i XOR r" "?row Q1 i = X1 ! i XOR r" "?row Q0 j = X0 ! j XOR s" "?row Q1 j = X1 ! j XOR s"
    using res [OF i(1)] res [OF i(2)] by blast
  have v: "X0 ! i = 0" "X0 ! j = 0" "X1 ! i = 1" "X1 ! j = 0" using i(1-3) by (simp_all add: X0_def X1_def)
  have "r = s" "1 XOR r = s" using r i(4,5) unfolding v by simp_all
  then have "(1 :: block) = 0" by (metis xor.left_neutral xor_self_right xor_self_eq)
  then show False by simp
qed

end
