(* ===== verification/Baxos_Solve.thy ===== *)
theory Baxos_Solve
  imports Paxos_Binary Oprf
begin

text \<open>
  fpsi/opprf/PaxosImpl.h: \<open>Baxos::solve\<close>.  The keys are hashed and thrown into bins by
  parallel threads, every bin is solved by a \<open>Paxos\<close> of its own, whose index type is
  the smallest that is thought to fit.  The sizes that \<open>Baxos::init\<close> computes in
  floating point are arguments, and so is the build: the loop that asserts that the keys are
  distinct is only there without \<open>NDEBUG\<close>.  An exception in one of several threads ends the process,
  and a generator that several threads draw from is a data race.
\<close>

section \<open>The code\<close>

record solve_cfg =
  sc_debug :: bool
  sc_lib :: bit_lib
  sc_mG :: nat
  sc_numItems :: nat
  sc_itemsPerBin :: nat
  sc_thrdBinSize :: nat

text \<open>The rows of the keys: 32 at a time, then one by one.\<close>
definition bin_rows :: "(block \<Rightarrow> block \<Rightarrow> block) \<Rightarrow> paxos_param \<Rightarrow> block list \<Rightarrow> nat list list" where
  "bin_rows mul prm hashes =
     (let main = length hashes div 32 * 32; w = weight prm
      in concat (map (\<lambda>c. let rows = build_row32 mul prm (take 32 (drop (32 * c) hashes))
           in map (\<lambda>k. take w (drop (w * k) rows)) [0..<32]) [0..<length hashes div 32]) @
         map (build_row mul prm) (drop main hashes))"

text \<open>\<open>setInput\<close> and \<open>encode\<close> on the hashes of the keys.\<close>
definition paxos_solve ::
  "solve_cfg \<Rightarrow> (block \<Rightarrow> block \<Rightarrow> block) \<Rightarrow> nat \<Rightarrow> nat \<Rightarrow> paxos_param \<Rightarrow> block list \<Rightarrow> block list \<Rightarrow> (nat \<Rightarrow> block) option \<Rightarrow>
   block list \<Rightarrow> block list result" where
  "paxos_solve cfg mul w numItems prm hashes vals rng output =
     rbind (paxos_init w numItems prm) (\<lambda>mNum.
       if length hashes \<noteq> mNum then Inl (Runtime_error ''RTE_LOC'')
       else paxos_encode (sc_lib cfg) mul (sc_mG cfg) prm (set_input (sparse_size prm) (bin_rows mul prm hashes) hashes) vals rng output)"

text \<open>One thread hashes its part of the input into bins of its own.\<close>
definition hash_thread ::
  "(block \<Rightarrow> block) \<Rightarrow> nat \<Rightarrow> block list \<Rightarrow> block list \<Rightarrow> nat \<Rightarrow> nat \<Rightarrow> (block \<times> block) list list" where
  "hash_thread aes B inputs vals from_i to_i =
     fold (\<lambda>inIdx bins. let h = aes (inputs ! inIdx); binIdx = modNumBins B h
        in bins[binIdx := bins ! binIdx @ [(h, vals ! inIdx)]]) [from_i..<to_i] (replicate B [])"

text \<open>
  \<open>implParSolve\<close>.  A debug build asserts that the keys are distinct.  A thread's bin that outgrows its room
  runs into the next one.  The bins are solved independently of each other, so here they come
  in order.  One thread draws for its bins one after the other: \<open>draw b\<close> is the part of the
  stream that bin \<open>b\<close> gets.  Two threads draw from the same generator, without a lock.
\<close>
definition implParSolve ::
  "solve_cfg \<Rightarrow> (block \<Rightarrow> block \<Rightarrow> block) \<Rightarrow> (block \<Rightarrow> block) \<Rightarrow> nat \<Rightarrow> paxos_param \<Rightarrow> nat \<Rightarrow> nat \<Rightarrow> block list \<Rightarrow> block list \<Rightarrow>
   (nat \<Rightarrow> nat \<Rightarrow> block) option \<Rightarrow> block list \<Rightarrow> block list result" where
  "implParSolve cfg mul aes w prm B numThreads inputs vals rng p =
     (if sc_debug cfg \<and> \<not> distinct inputs then Inl (Runtime_error ''assertion'')
      else if length p \<noteq> B * paxos_size prm then Inl (Runtime_error ''RTE_LOC'')
      else if B = 1 then
        paxos_solve cfg mul w (sc_numItems cfg) prm (map aes inputs) vals (map_option (\<lambda>draw. draw 0) rng) p
      else
        let T = max 1 numThreads; n = length inputs;
            thrdBins = map (\<lambda>t. hash_thread aes B inputs vals (n * t div T) (n * (t + 1) div T)) [0..<T]
        in if \<exists>bins \<in> set thrdBins. \<exists>bin \<in> set bins. sc_thrdBinSize cfg < length bin
           then Inl (Undefined_behaviour ''bin overflow'')
           else if rng \<noteq> None \<and> 1 < T then Inl (Undefined_behaviour ''data race on the generator'')
           else
             thread_throw T (rmap concat (mapR (\<lambda>binIdx.
               let items = concat (map (\<lambda>bins. bins ! binIdx) thrdBins); binSize = length items
               in if sc_itemsPerBin cfg < binSize then Inl (Runtime_error ''RTE_LOC'')
                  else paxos_solve cfg mul w binSize prm (map fst items) (map snd items) (map_option (\<lambda>draw. draw binIdx) rng)
                    (bin_table prm p binIdx)) [0..<B])))"

text \<open>\<open>Baxos::solve\<close>.\<close>
definition baxos_solve ::
  "solve_cfg \<Rightarrow> crypto \<Rightarrow> nat \<Rightarrow> (nat \<Rightarrow> nat \<Rightarrow> block) option \<Rightarrow> baxos \<Rightarrow> block list \<Rightarrow> block list \<Rightarrow> block list result" where
  "baxos_solve cfg cr numThreads rng bx inputs vals =
     implParSolve cfg (gfMul cr) (hash_keyed cr (bx_seed bx)) (idx_width cr (bx_param bx)) (bx_param bx) (bx_bins bx) numThreads
       inputs vals rng (replicate (baxos_size bx) 0)"

section \<open>The rows of a bin\<close>

lemma length_build_row32:
  assumes "param_ok prm"
  shows "length (build_row32 mul prm hashes) = 32 * weight prm"
proof -
  have "length (concat (map f [0..<n])) = n * w" if "\<And>k. length (f k) = w" for f :: "nat \<Rightarrow> nat list" and n w
    using that by (induction n) simp_all
  moreover have "length (map unat (build_row_lane (of_nat (sparse_size prm)) h)) = weight prm" if "weight prm = 3" for h
    by (simp add: build_row_lane_def Let_def that)
  ultimately show ?thesis using build_row_ok(1) [OF assms] by (simp add: build_row32_def)
qed

lemma build_rows32:
  assumes "param_ok prm" "length hashes = 32"
  shows "map (\<lambda>k. take (weight prm) (drop (weight prm * k) (build_row32 mul prm hashes))) [0..<32] = map (build_row mul prm) hashes"
proof -
  have row: "take (weight prm) (drop (weight prm * k) (build_row32 mul prm hashes)) = build_row mul prm (hashes ! k)" if k: "k < 32" for k
  proof (rule nth_equalityI)
    have "weight prm * Suc k \<le> weight prm * 32" using k by (intro mult_le_mono2) simp
    then have "weight prm + weight prm * k \<le> 32 * weight prm" by (simp only: mult_Suc_right mult.commute [of _ 32])
    then have "weight prm \<le> 32 * weight prm - weight prm * k" by linarith
    then show "length (take (weight prm) (drop (weight prm * k) (build_row32 mul prm hashes))) = length (build_row mul prm (hashes ! k))"
      using build_row_ok(1) [OF assms(1)] length_build_row32 [OF assms(1)] by simp
    fix j assume "j < length (take (weight prm) (drop (weight prm * k) (build_row32 mul prm hashes)))"
    then have j: "j < weight prm" "weight prm * k \<le> length (build_row32 mul prm hashes)"
      unfolding length_take length_drop by linarith+
    then show "take (weight prm) (drop (weight prm * k) (build_row32 mul prm hashes)) ! j = build_row mul prm (hashes ! k) ! j"
      using build_row32_eq [OF assms(1) k j(1), of mul hashes] by (simp only: nth_take nth_drop)
  qed
  then have "map (\<lambda>k. take (weight prm) (drop (weight prm * k) (build_row32 mul prm hashes))) [0..<32] =
      map (\<lambda>k. build_row mul prm (hashes ! k)) [0..<32]" by simp
  also have "\<dots> = map (build_row mul prm) hashes" using assms(2) by (intro nth_equalityI) simp_all
  finally show ?thesis .
qed

lemma bin_rows_eq:
  assumes "param_ok prm"
  shows "bin_rows mul prm hashes = map (build_row mul prm) hashes"
proof -
  let ?f = "build_row mul prm"
  have "concat (map (\<lambda>c. map ?f (take 32 (drop (32 * c) hashes))) [0..<n]) = map ?f (take (32 * n) hashes)" for n
  proof (induction n)
    case (Suc n)
    have "take (32 * Suc n) hashes = take (32 * n) hashes @ take 32 (drop (32 * n) hashes)"
      by (simp only: mult_Suc_right add.commute [of 32] take_add)
    then show ?case using Suc by simp
  qed simp
  moreover have "concat (map (\<lambda>c. let rows = build_row32 mul prm (take 32 (drop (32 * c) hashes))
      in map (\<lambda>k. take (weight prm) (drop (weight prm * k) rows)) [0..<32]) [0..<length hashes div 32]) =
    concat (map (\<lambda>c. map ?f (take 32 (drop (32 * c) hashes))) [0..<length hashes div 32])"
  proof (intro arg_cong [where f = concat] map_cong refl)
    fix c assume "c \<in> set [0..<length hashes div 32]"
    then have "32 * c + 32 \<le> length hashes" by auto
    then show "(let rows = build_row32 mul prm (take 32 (drop (32 * c) hashes))
      in map (\<lambda>k. take (weight prm) (drop (weight prm * k) rows)) [0..<32]) = map ?f (take 32 (drop (32 * c) hashes))"
      using build_rows32 [OF assms, of "take 32 (drop (32 * c) hashes)" mul] by (simp add: Let_def)
  qed
  ultimately have "bin_rows mul prm hashes = map ?f (take (32 * (length hashes div 32)) hashes) @ map ?f (drop (length hashes div 32 * 32) hashes)"
    unfolding bin_rows_def Let_def by simp
  then show ?thesis by (simp add: mult.commute flip: map_append)
qed

section \<open>The items of a bin\<close>

text \<open>The keys of a bin, in the order of the input.\<close>
definition bin_idxs :: "(block \<Rightarrow> block) \<Rightarrow> nat \<Rightarrow> block list \<Rightarrow> nat \<Rightarrow> nat list" where
  "bin_idxs aes B inputs b = filter (\<lambda>i. modNumBins B (aes (inputs ! i)) = b) [0..<length inputs]"

lemma hash_thread_ok:
  assumes "0 < B"
  shows "length (hash_thread aes B inputs vals m n) = B"
    "b < B \<Longrightarrow> hash_thread aes B inputs vals m n ! b =
      map (\<lambda>i. (aes (inputs ! i), vals ! i)) (filter (\<lambda>i. modNumBins B (aes (inputs ! i)) = b) [m..<n])"
proof -
  let ?h = "\<lambda>is. fold (\<lambda>inIdx bins. let h = aes (inputs ! inIdx); binIdx = modNumBins B h
    in bins[binIdx := bins ! binIdx @ [(h, vals ! inIdx)]]) is (replicate B [])"
  have "length (?h is) = B \<and> (\<forall>b < B. ?h is ! b = map (\<lambda>i. (aes (inputs ! i), vals ! i)) (filter (\<lambda>i. modNumBins B (aes (inputs ! i)) = b) is))" for "is"
  proof (induction "is" rule: rev_induct)
    case (snoc i "is")
    have "modNumBins B (aes (inputs ! i)) < B" using assms by (simp add: modNumBins_def)
    then show ?case using snoc by (simp add: Let_def nth_list_update)
  qed simp
  from this [of "[m..<n]"] show "length (hash_thread aes B inputs vals m n) = B"
    "b < B \<Longrightarrow> hash_thread aes B inputs vals m n ! b =
      map (\<lambda>i. (aes (inputs ! i), vals ! i)) (filter (\<lambda>i. modNumBins B (aes (inputs ! i)) = b) [m..<n])"
    by (simp_all add: hash_thread_def)
qed

text \<open>Put together, the threads' bins hold the keys in the order of the input.\<close>
lemma bin_items:
  assumes "b < B" "0 < T"
  shows "concat (map (\<lambda>t. hash_thread aes B inputs vals (length inputs * t div T) (length inputs * (t + 1) div T) ! b) [0..<T]) =
    map (\<lambda>i. (aes (inputs ! i), vals ! i)) (bin_idxs aes B inputs b)"
proof -
  define c where "c t = length inputs * t div T" for t
  let ?P = "\<lambda>i. modNumBins B (aes (inputs ! i)) = b"
  have B: "0 < B" using assms(1) by simp
  have "concat (map (\<lambda>t. hash_thread aes B inputs vals (c t) (c (t + 1)) ! b) [0..<m]) =
      map (\<lambda>i. (aes (inputs ! i), vals ! i)) (filter ?P [0..<c m])" for m
  proof (induction m)
    case (Suc m)
    have "c m \<le> c (Suc m)" by (simp add: c_def div_le_mono)
    then have "[0..<c (Suc m)] = [0..<c m] @ [c m..<c (Suc m)]" using upt_add_eq_append [of 0 "c m" "c (Suc m) - c m"] by simp
    then show ?case using Suc hash_thread_ok(2) [OF B assms(1)] by simp
  qed (simp add: c_def)
  from this [of T] show ?thesis using assms(2) by (simp add: c_def bin_idxs_def)
qed

lemma concat_table:
  assumes "\<And>t. t \<in> set ts \<Longrightarrow> length t = n" "b < length ts"
  shows "take n (drop (b * n) (concat ts)) = ts ! b"
  using assms
proof (induction ts arbitrary: b)
  case (Cons t ts)
  show ?case
  proof (cases b)
    case (Suc c)
    then have "drop (b * n) (concat (t # ts)) = drop (c * n) (concat ts)" using Cons.prems(1) [of t] by simp
    then show ?thesis using Suc Cons by simp
  qed (use Cons.prems(1) [of t] in simp)
qed simp

section \<open>Solving a bin\<close>

definition bin_sys :: "(block \<Rightarrow> block \<Rightarrow> block) \<Rightarrow> paxos_param \<Rightarrow> block list \<Rightarrow> paxos_sys" where
  "bin_sys mul prm hashes = set_input (sparse_size prm) (map (build_row mul prm) hashes) hashes"

text \<open>
  What the solver takes for granted of a bin: it fits and has at least two columns more than
  rows, its columns are light, the dense parts and what is drawn lie in the field, and, when
  free positions are drawn, the rows of the gap repeat rows of the diagonal.  \<open>w\<close> is the
  width of the index type.
\<close>
definition bin_ok ::
  "nat \<Rightarrow> (block \<Rightarrow> block \<Rightarrow> block) \<Rightarrow> block set \<Rightarrow> paxos_param \<Rightarrow> block list \<Rightarrow> (nat \<Rightarrow> block) option \<Rightarrow> bool" where
  "bin_ok w mul K prm hashes rng \<longleftrightarrow>
     length hashes + 2 \<le> sparse_size prm \<and> length hashes < 2 ^ w \<and>
     (\<forall>c \<in> set (mCols (bin_sys mul prm hashes)). length c < 200) \<and>
     (dense_ty prm = GF128 \<longrightarrow> gf_setup mul K (bin_sys mul prm hashes) rng) \<and>
     (rng \<noteq> None \<longrightarrow>
       (\<forall>ts. triangulate (bin_sys mul prm hashes) = Some (Inr ts) \<longrightarrow> gap_repeats (mRows (bin_sys mul prm hashes)) ts))"

text \<open>A bin the solver may give up on: equal hashes, or rows left for the gap.\<close>
definition bin_stuck :: "(block \<Rightarrow> block \<Rightarrow> block) \<Rightarrow> paxos_param \<Rightarrow> block list \<Rightarrow> bool" where
  "bin_stuck mul prm hashes \<longleftrightarrow> \<not> distinct hashes \<or>
     (\<exists>ts. triangulate (bin_sys mul prm hashes) = Some (Inr ts) \<and> gapRows ts \<noteq> [])"

lemma bin_sys_ok:
  assumes "param_ok prm" "\<forall>c \<in> set (mCols (bin_sys mul prm hashes)). length c < 200"
  shows "sys_ok prm (bin_sys mul prm hashes)"
proof -
  have "build_row mul prm h \<noteq> []" for h using build_row_ok(1) [OF assms(1)] assms(1) by (metis length_0_conv less_irrefl param_ok_def)
  then have "rows_ok (sparse_size prm) (map (build_row mul prm) hashes)"
    using build_row_ok(2,3) [OF assms(1)] by (auto simp: rows_ok_def)
  then show ?thesis using assms build_row_ok(1) [OF assms(1)] by (simp add: sys_ok_def bin_sys_def set_input_def)
qed

lemma paxos_solve_ok:
  assumes prm: "param_ok prm" "sparse_size prm < 2 ^ w - 1" and lib: "bit_lib_ok (sc_lib cfg)"
    and bin: "bin_ok w mul K prm hashes rng" and out: "length output = paxos_size prm"
  shows "(\<exists>Q. paxos_solve cfg mul (w) (length hashes) prm hashes vals rng output = Inr Q \<and> length Q = paxos_size prm \<and>
      (\<forall>i < length hashes. decode_hash mul prm Q (hashes ! i) = vals ! i) \<and> distinct hashes) \<or>
    bin_stuck mul prm hashes \<and>
    (\<exists>e. paxos_solve cfg mul (w) (length hashes) prm hashes vals rng output = Inl (Runtime_error e))"
proof -
  let ?sys = "bin_sys mul prm hashes"
  have b: "\<forall>c \<in> set (mCols ?sys). length c < 200" "dense_ty prm = GF128 \<Longrightarrow> gf_setup mul K ?sys rng"
    "rng \<noteq> None \<Longrightarrow> length (mRows ?sys) < sparse_size prm" "\<not> sparse_size prm \<le> length (mRows ?sys) + 1"
    "\<And>ts. rng \<noteq> None \<Longrightarrow> triangulate ?sys = Some (Inr ts) \<Longrightarrow> gap_repeats (mRows ?sys) ts"
    using bin by (auto simp: bin_ok_def bin_sys_def set_input_def)
  have "length hashes \<le> paxos_size prm" "length hashes mod 2 ^ w = length hashes" using bin by (simp_all add: bin_ok_def paxos_size_def)
  then have run: "paxos_solve cfg mul (w) (length hashes) prm hashes vals rng output =
      paxos_encode (sc_lib cfg) mul (sc_mG cfg) prm ?sys vals rng output"
    using prm(2) by (simp add: paxos_solve_def paxos_init_def bin_rows_eq [OF prm(1)] bin_sys_def)
  have rows: "mRows ?sys = map (build_row mul prm) hashes" "mDense ?sys = hashes" by (simp_all add: bin_sys_def set_input_def)
  have table: "length Q = paxos_size prm \<and> (\<forall>i < length hashes. decode_hash mul prm Q (hashes ! i) = vals ! i)"
    if "table_ok mul prm ?sys vals Q" for Q
    using that by (simp add: table_ok_def rows decode_hash_def)
  have dist: "distinct hashes" if "paxos_encode (sc_lib cfg) mul (sc_mG cfg) prm ?sys vals rng output = Inr Q" for Q
  proof (rule ccontr)
    assume "\<not> distinct hashes"
    then obtain i j where "i < length hashes" "j < length hashes" "i \<noteq> j" "hashes ! i = hashes ! j" by (auto simp: distinct_conv_nth)
    then show False
      using paxos_encode_distinct [OF bin_sys_ok [OF prm(1) b(1)] lib b(2) out b(3), of i j] that by (simp add: rows)
  qed
  from paxos_encode_ok [OF bin_sys_ok [OF prm(1) b(1)] lib b(2) out b(3,5), of "sc_mG cfg" vals] b(4) show ?thesis
    unfolding run rows(2) bin_stuck_def using table dist by blast
qed

section \<open>Solving all bins\<close>

definition bin_hashes :: "crypto \<Rightarrow> baxos \<Rightarrow> block list \<Rightarrow> nat \<Rightarrow> block list" where
  "bin_hashes cr bx inputs b =
     map (\<lambda>i. hash_keyed cr (bx_seed bx) (inputs ! i)) (bin_idxs (hash_keyed cr (bx_seed bx)) (bx_bins bx) inputs b)"

text \<open>
  The sizes fit the input, for the threads as well, and so does every bin.  Only one thread may
  draw, unless there is one bin, which is solved by the caller.
\<close>
definition solve_ok ::
  "solve_cfg \<Rightarrow> crypto \<Rightarrow> block set \<Rightarrow> nat \<Rightarrow> (nat \<Rightarrow> nat \<Rightarrow> block) option \<Rightarrow> baxos \<Rightarrow> block list \<Rightarrow> bool" where
  "solve_ok cfg cr K numThreads rng bx inputs \<longleftrightarrow>
     baxos_ok cr bx \<and> bit_lib_ok (sc_lib cfg) \<and> (bx_bins bx \<noteq> 1 \<and> rng \<noteq> None \<longrightarrow> numThreads \<le> 1) \<and>
     (bx_bins bx = 1 \<longrightarrow> sc_numItems cfg = length inputs) \<and>
     (bx_bins bx \<noteq> 1 \<longrightarrow>
       (\<forall>t < max 1 numThreads. \<forall>bin \<in> set (hash_thread (hash_keyed cr (bx_seed bx)) (bx_bins bx) inputs inputs
          (length inputs * t div max 1 numThreads) (length inputs * (t + 1) div max 1 numThreads)). length bin \<le> sc_thrdBinSize cfg) \<and>
       (\<forall>b < bx_bins bx. length (bin_hashes cr bx inputs b) \<le> sc_itemsPerBin cfg)) \<and>
     (\<forall>b < bx_bins bx. bin_ok (idx_width cr (bx_param bx)) (gfMul cr) K (bx_param bx) (bin_hashes cr bx inputs b) (map_option (\<lambda>draw. draw b) rng))"

lemma mapR_or:
  assumes "\<And>i. i < n \<Longrightarrow> (\<exists>y. f i = Inr y \<and> P i y) \<or> (stuck i \<and> (\<exists>e. f i = Inl (Runtime_error e)))"
  shows "(\<exists>ys. mapR f [0..<n] = Inr ys \<and> length ys = n \<and> (\<forall>i < n. P i (ys ! i))) \<or>
    (\<exists>i < n. stuck i) \<and> (\<exists>e. mapR f [0..<n] = Inl (Runtime_error e))"
proof (cases "\<forall>i < n. \<exists>y. f i = Inr y \<and> P i y")
  case True
  then show ?thesis using mapR_upt [of n f P] by blast
next
  case False
  then obtain i where i: "i < n" "\<not> (\<exists>y. f i = Inr y \<and> P i y)" by blast
  have stop: "(\<forall>x \<in> set xs. (\<exists>y. f x = Inr y) \<or> (\<exists>e. f x = Inl (Runtime_error e))) \<Longrightarrow> x \<in> set xs \<Longrightarrow> f x = Inl (Runtime_error e) \<Longrightarrow>
      \<exists>e. mapR f xs = Inl (Runtime_error e)" for xs x e
  proof (induction xs)
    case (Cons a xs)
    then show ?case by (cases "f a") auto
  qed simp
  obtain e where "stuck i" "f i = Inl (Runtime_error e)" using assms [OF i(1)] i(2) by blast
  moreover have "\<forall>x \<in> set [0..<n]. (\<exists>y. f x = Inr y) \<or> (\<exists>e. f x = Inl (Runtime_error e))" using assms by fastforce
  ultimately show ?thesis using stop [of "[0..<n]" i e] i(1) by auto
qed

text \<open>Equal keys end up in the same bin, with equal hashes.\<close>
lemma equal_keys_bin:
  assumes "\<not> distinct inputs" "0 < bx_bins bx"
  shows "\<exists>b < bx_bins bx. \<not> distinct (bin_hashes cr bx inputs b)"
proof -
  let ?aes = "hash_keyed cr (bx_seed bx)" and ?B = "bx_bins bx"
  obtain i j where ij: "i < length inputs" "j < length inputs" "i \<noteq> j" "inputs ! i = inputs ! j"
    using assms(1) by (auto simp: distinct_conv_nth)
  let ?b = "modNumBins ?B (?aes (inputs ! i))" and ?f = "\<lambda>i. ?aes (inputs ! i)"
  have "i \<in> set (bin_idxs ?aes ?B inputs ?b)" "j \<in> set (bin_idxs ?aes ?B inputs ?b)" using ij by (simp_all add: bin_idxs_def)
  then have "\<not> distinct (bin_hashes cr bx inputs ?b)"
    using ij(3,4) unfolding bin_hashes_def distinct_map inj_on_def by metis
  moreover have "?b < ?B" using assms(2) by (simp add: modNumBins_def)
  ultimately show ?thesis by blast
qed

text \<open>
  \<open>Baxos::solve\<close> returns a table in which every key decodes to its value, or gives up on
  a bin with equal hashes or with rows in the gap.  It returns none when a key is there twice,
  even with the same value.
\<close>
lemma baxos_solve_ok:
  assumes ok: "solve_ok cfg cr K T rng bx inputs" and len: "length vals = length inputs"
  shows "(\<exists>P. baxos_solve cfg cr T rng bx inputs vals = Inr P \<and> solves cr bx inputs vals P \<and> distinct inputs) \<or>
    (\<exists>b < bx_bins bx. bin_stuck (gfMul cr) (bx_param bx) (bin_hashes cr bx inputs b)) \<and>
    ((\<exists>e. baxos_solve cfg cr T rng bx inputs vals = Inl (Runtime_error e)) \<or>
     bx_bins bx \<noteq> 1 \<and> 1 < T \<and> baxos_solve cfg cr T rng bx inputs vals = Inl Terminate)"
proof -
  let ?prm = "bx_param bx" and ?B = "bx_bins bx" and ?aes = "hash_keyed cr (bx_seed bx)" and ?mul = "gfMul cr" and ?n = "length inputs"
  let ?idx = "bin_idxs ?aes ?B inputs" and ?hs = "bin_hashes cr bx inputs" and ?w = "idx_width cr (bx_param bx)"
  let ?vs = "\<lambda>b. map ((!) vals) (?idx b)"
  have prm: "param_ok ?prm" "sparse_size ?prm < 2 ^ ?w - 1" and B: "0 < ?B" and lib: "bit_lib_ok (sc_lib cfg)"
    and bins: "\<And>b. b < ?B \<Longrightarrow> bin_ok ?w ?mul K ?prm (?hs b) (map_option (\<lambda>draw. draw b) rng)"
    using ok by (simp_all add: solve_ok_def baxos_ok_def decode_fits_def)
  let ?good = "\<lambda>b Q. length Q = paxos_size ?prm \<and> (\<forall>i < length (?hs b). decode_hash ?mul ?prm Q (?hs b ! i) = ?vs b ! i) \<and> distinct (?hs b)"
  have one: "(\<exists>Q. paxos_solve cfg ?mul ?w (length (?hs b)) ?prm (?hs b) (?vs b) (map_option (\<lambda>draw. draw b) rng) out = Inr Q \<and> ?good b Q) \<or>
      bin_stuck ?mul ?prm (?hs b) \<and>
      (\<exists>e. paxos_solve cfg ?mul ?w (length (?hs b)) ?prm (?hs b) (?vs b) (map_option (\<lambda>draw. draw b) rng) out = Inl (Runtime_error e))"
    if "b < ?B" "length out = paxos_size ?prm" for b out
    by (rule paxos_solve_ok [OF prm lib bins [OF that(1)] that(2)])
  have solved: "solves cr bx inputs vals (concat ys)" if ys: "length ys = ?B" "\<forall>b < ?B. ?good b (ys ! b)" for ys
  proof -
    have "length (concat ys) = ?B * paxos_size ?prm"
    proof -
      have "\<forall>t \<in> set ys. length t = paxos_size ?prm" using ys by (auto simp: in_set_conv_nth)
      then have "length (concat ys) = length ys * paxos_size ?prm" by (induction ys) auto
      then show ?thesis using ys(1) by simp
    qed
    moreover have "key_decode cr bx (concat ys) (inputs ! i) = vals ! i" if i: "i < ?n" for i
    proof -
      let ?h = "?aes (inputs ! i)"
      let ?b = "modNumBins ?B ?h"
      have b: "?b < ?B" using B by (simp add: modNumBins_def)
      have "i \<in> set (?idx ?b)" using i by (simp add: bin_idxs_def)
      then obtain k where k: "k < length (?idx ?b)" "?idx ?b ! k = i" by (metis in_set_conv_nth)
      then have "decode_hash ?mul ?prm (ys ! ?b) ?h = vals ! i"
        using ys(2) b unfolding bin_hashes_def by fastforce
      moreover have "bin_table ?prm (concat ys) ?b = ys ! ?b"
        using ys b unfolding bin_table_def by (intro concat_table) (auto simp: in_set_conv_nth)
      ultimately show ?thesis by (simp add: key_decode_def baxos_hash_def)
    qed
    ultimately show ?thesis using len by (simp add: solves_def baxos_size_def list_eq_iff_nth_eq)
  qed
  have keys: "distinct inputs" if "\<forall>b < ?B. ?good b (ys ! b)" for ys
    using that equal_keys_bin [of inputs bx cr] B by blast
  consider (dup) "sc_debug cfg \<and> \<not> distinct inputs" | (one) "\<not> (sc_debug cfg \<and> \<not> distinct inputs)" "?B = 1"
    | (many) "\<not> (sc_debug cfg \<and> \<not> distinct inputs)" "?B \<noteq> 1" by blast
  then show ?thesis
  proof cases
    case dup
    then show ?thesis using equal_keys_bin [of inputs bx cr] B by (auto simp: baxos_solve_def implParSolve_def bin_stuck_def)
  next
    case one': one
    note True = one'(2)
    have idx: "?idx 0 = [0..<?n]" using True by (simp add: bin_idxs_def modNumBins_def)
    have h: "?hs 0 = map ?aes inputs" "?vs 0 = vals" using len 
      unfolding bin_hashes_def idx by (intro nth_equalityI; simp)+
    have run: "baxos_solve cfg cr T rng bx inputs vals =
        paxos_solve cfg ?mul ?w (length (?hs 0)) ?prm (?hs 0) (?vs 0) (map_option (\<lambda>draw. draw 0) rng) (replicate (baxos_size bx) 0)"
      unfolding h using one'(2) ok by (simp add: baxos_solve_def implParSolve_def if_not_P [OF one'(1)] baxos_size_def solve_ok_def)
    have out: "length (replicate (baxos_size bx) (0 :: block)) = paxos_size ?prm" using True by (simp add: baxos_size_def)
    show ?thesis using one [OF _ out, of 0] solved [of "[_]"] keys [of "[_]"] True unfolding run by fastforce
  next
    case many
    note False = many(2)
    let ?T = "max 1 T"
    define c where "c t = ?n * t div ?T" for t
    let ?thr = "map (\<lambda>t. hash_thread ?aes ?B inputs vals (c t) (c (t + 1))) [0..<?T]"
    let ?items = "\<lambda>b. concat (map (\<lambda>bins. bins ! b) ?thr)"
    have items: "?items b = map (\<lambda>i. (?aes (inputs ! i), vals ! i)) (?idx b)" if "b < ?B" for b
      using bin_items [OF that, of ?T ?aes inputs vals] by (simp add: c_def o_def)
    have fits: "\<not> (\<exists>bins \<in> set ?thr. \<exists>bin \<in> set bins. sc_thrdBinSize cfg < length bin)"
    proof -
      have same: "map length (hash_thread ?aes ?B inputs vals m n) = map length (hash_thread ?aes ?B inputs inputs m n)" for m n
        using hash_thread_ok [OF B] by (intro nth_equalityI) simp_all
      have "length bin \<le> sc_thrdBinSize cfg" if "t < ?T" "bin \<in> set (hash_thread ?aes ?B inputs vals (c t) (c (t + 1)))" for t bin
      proof -
        have "length bin \<in> set (map length (hash_thread ?aes ?B inputs inputs (c t) (c (t + 1))))"
          using that(2) unfolding same [symmetric] by simp
        then show ?thesis using ok False that(1) unfolding solve_ok_def c_def by auto
      qed
      then show ?thesis by (auto simp: not_less)
    qed
    let ?run = "\<lambda>b. if sc_itemsPerBin cfg < length (?items b) then Inl (Runtime_error ''RTE_LOC'')
      else paxos_solve cfg ?mul ?w (length (?items b)) ?prm (map fst (?items b)) (map snd (?items b)) (map_option (\<lambda>draw. draw b) rng)
        (bin_table ?prm (replicate (baxos_size bx) 0) b)"
    have race: "\<not> (rng \<noteq> None \<and> 1 < ?T)" using ok False by (auto simp: solve_ok_def)
    have run: "baxos_solve cfg cr T rng bx inputs vals = thread_throw ?T (rmap concat (mapR ?run [0..<?B]))"
    proof -
      have size: "length (replicate (baxos_size bx) (0 :: block)) = ?B * paxos_size ?prm" by (simp add: baxos_size_def)
      show ?thesis unfolding baxos_solve_def implParSolve_def Let_def c_def [symmetric] by (simp only: size many fits race simp_thms if_False)
    qed
    have "(\<exists>y. ?run b = Inr y \<and> ?good b y) \<or> bin_stuck ?mul ?prm (?hs b) \<and> (\<exists>e. ?run b = Inl (Runtime_error e))" if b: "b < ?B" for b
    proof -
      have it: "map fst (?items b) = ?hs b" "map snd (?items b) = ?vs b" "length (?items b) = length (?hs b)"
        unfolding items [OF b] by (simp_all add: bin_hashes_def o_def)
      have "length (?hs b) \<le> sc_itemsPerBin cfg" using ok False b by (simp add: solve_ok_def)
      moreover have "length (bin_table ?prm (replicate (baxos_size bx) 0) b) = paxos_size ?prm"
      proof -
        have "Suc b * paxos_size ?prm \<le> ?B * paxos_size ?prm" using b by (intro mult_le_mono1) simp
        then show ?thesis by (simp add: bin_table_def baxos_size_def)
      qed
      ultimately show ?thesis using one [OF b] unfolding it by simp
    qed
    from mapR_or [of ?B ?run ?good "\<lambda>b. bin_stuck ?mul ?prm (?hs b)", OF this] consider (table) ys where "mapR ?run [0..<?B] = Inr ys" "length ys = ?B" "\<forall>b < ?B. ?good b (ys ! b)"
      | (stuck) b e where "b < ?B" "bin_stuck ?mul ?prm (?hs b)" "mapR ?run [0..<?B] = Inl (Runtime_error e)" by blast
    then show ?thesis
    proof cases
      case (table ys)
      have "baxos_solve cfg cr T rng bx inputs vals = Inr (concat ys)" unfolding run table(1) by simp
      then show ?thesis using solved [OF table(2,3)] keys [OF table(3)] by blast
    next
      case (stuck b e)
      have "baxos_solve cfg cr T rng bx inputs vals = Inl (if 1 < ?T then Terminate else Runtime_error e)" unfolding run stuck(3) by simp
      then show ?thesis using stuck(1,2) False by (cases "1 < T") auto
    qed
  qed
qed

text \<open>Several threads and a generator: the run is undefined, whatever the keys.\<close>
lemma shared_generator_race:
  assumes "bx_bins bx \<noteq> 1" "1 < T" "distinct inputs"
  shows "\<exists>s. baxos_solve cfg cr T (Some draw) bx inputs vals = Inl (Undefined_behaviour s)"
proof -
  have race: "(Some draw) \<noteq> None \<and> 1 < max 1 T" for draw :: "nat \<Rightarrow> nat \<Rightarrow> block" using assms(2) by simp
  have "length (replicate (baxos_size bx) (0 :: block)) = bx_bins bx * paxos_size (bx_param bx)" by (simp add: baxos_size_def)
  then show ?thesis
    unfolding baxos_solve_def implParSolve_def Let_def
    by (simp only: race assms(1,3) simp_thms if_True if_False) (simp split: if_split)
qed

end
