(* ===== verification/Ufmap.thy ===== *)
theory Ufmap
  imports Baxos_Solve Opprf Fmap Ufmap_Id
begin

text \<open>
  fpsi/ufmap/ufmap.cpp, the unique fuzzy mapping: a party encodes its labels in one
  store per dimension, the other looks its two candidate blocks of every coordinate
  up there, and a programmable function picks the candidate that has a label; two
  products by the parties' scalars turn the sums of labels into identifiers.  The
  shares of the pseudo random function and of the vector OLE are arguments.
\<close>

section \<open>State of the parties\<close>

text \<open>
  What \<open>setUp\<close> leaves, the scalar and the pseudo random function of the own key,
  and what the party draws later: labels and dummies of \<open>getID\<close>, the seeds of its
  stores and its shares of the labels.
\<close>
record ufmap_party =
  up_delta :: block
  up_prf :: "block \<Rightarrow> block"
  up_iter :: "nat \<Rightarrow> labels \<Rightarrow> labels"
  up_rnd :: "nat \<Rightarrow> nat \<Rightarrow> u64"
  up_draw :: "nat \<Rightarrow> nat \<Rightarrow> block"
  up_seed :: "nat \<Rightarrow> block"
  up_share :: "nat \<Rightarrow> u64"

definition ufmap_setUp ::
  "block \<Rightarrow> (block \<Rightarrow> block) \<Rightarrow> (nat \<Rightarrow> labels \<Rightarrow> labels) \<Rightarrow> (nat \<Rightarrow> nat \<Rightarrow> u64) \<Rightarrow> (nat \<Rightarrow> nat \<Rightarrow> block) \<Rightarrow>
   (nat \<Rightarrow> block) \<Rightarrow> (nat \<Rightarrow> u64) \<Rightarrow> ufmap_party" where
  "ufmap_setUp mVoleDelta prfKey iter rnd draw seed share =
     \<lparr>up_delta = mVoleDelta, up_prf = prfKey, up_iter = iter, up_rnd = rnd, up_draw = draw, up_seed = seed, up_share = share\<rparr>"

text \<open>The outputs of one vector OLE: \<open>c\<close> and \<open>a\<close> of its receiver, \<open>d\<close> of its sender.\<close>
record vole_out =
  vo_c :: "block list"
  vo_a :: "block list"
  vo_d :: "block list"

section \<open>Stores and candidates\<close>

definition sendEncoding :: "fmap_env \<Rightarrow> encoded_set \<Rightarrow> nat \<Rightarrow> nat \<Rightarrow> (nat \<Rightarrow> block) \<Rightarrow> block list list result" where
  "sendEncoding env encoding n dim seed =
     mapR (\<lambda>i. fm_solve env (fm_init env n (seed i)) (es_keys encoding ! i) (es_values encoding ! i)) [0..<dim]"

text \<open>Entry \<open>x\<close> of the candidates of dimension \<open>i\<close>.\<close>
definition dim_candidate :: "block list \<Rightarrow> nat \<Rightarrow> u64 \<Rightarrow> nat \<Rightarrow> nat \<Rightarrow> block" where
  "dim_candidate inputs dim delta i x =
     (let candidates = candidateBlocks (inputs ! (x div 2 * dim + i)) (of_nat i) delta
      in if even x then fst candidates else snd candidates)"

definition receiveAndDecode ::
  "fmap_env \<Rightarrow> block list \<Rightarrow> nat \<Rightarrow> nat \<Rightarrow> nat \<Rightarrow> u64 \<Rightarrow> (nat \<Rightarrow> block) \<Rightarrow> block list list \<Rightarrow> block list result" where
  "receiveAndDecode env inputs inputSize ownerSize dim delta seed tables =
     rmap (\<lambda>values. map (\<lambda>x. values ! (x div 2 mod dim) ! (2 * (x div 2 div dim) + x mod 2)) [0..<2 * inputSize * dim])
       (mapR (\<lambda>i. baxos_decode (fm_crypto env) (fm_init env ownerSize (seed i)) True 1
          (map (dim_candidate inputs dim delta i) [0..<2 * inputSize]) (replicate (2 * inputSize) 0) (tables ! i)) [0..<dim])"

definition makeCandidates :: "block list \<Rightarrow> nat \<Rightarrow> nat \<Rightarrow> u64 \<Rightarrow> block list" where
  "makeCandidates inputs n dim delta =
     map (\<lambda>x. let pair = candidateBlocks (inputs ! (x div 2)) (of_nat (x div 2 mod dim)) delta
              in if even x then fst pair else snd pair) [0..<2 * n * dim]"

section \<open>Choosing the candidate\<close>

definition makeAlignment :: "block list \<Rightarrow> block list" where
  "makeAlignment keyShares = map (\<lambda>q. keyShares ! (2 * q) XOR keyShares ! (2 * q + 1)) [0..<length keyShares div 2]"

definition applyAlignment :: "block list \<Rightarrow> block list \<Rightarrow> block list" where
  "applyAlignment queryShares alignment =
     fold (\<lambda>q s. s[2 * q + 1 := s ! (2 * q + 1) XOR alignment ! q]) [0..<length alignment] queryShares"

definition queryKeys :: "block list \<Rightarrow> block list" where
  "queryKeys keyShares = map (\<lambda>q. fromLow64 (high64 (keyShares ! (2 * q)))) [0..<length keyShares div 2]"

text \<open>The programmed keys, the programmed values and the own shares; \<open>share q\<close> is the draw for query \<open>q\<close>.\<close>
definition programBopprf :: "block list \<Rightarrow> block list \<Rightarrow> (nat \<Rightarrow> u64) \<Rightarrow> block list \<times> block list \<times> block list" where
  "programBopprf decoded queryShares share =
     (let queries = length queryShares div 2;
          programmerShares = map (\<lambda>q. fromLow64 (share q)) [0..<queries];
          rho = \<lambda>x. decoded ! x XOR queryShares ! x
      in (map (\<lambda>x. fromLow64 (high64 (rho x))) [0..<2 * queries],
          map (\<lambda>x. fromLow64 (low64 (rho x) XOR low64 (programmerShares ! (x div 2)))) [0..<2 * queries],
          programmerShares))"

definition recoverReceiverShares :: "block list \<Rightarrow> block list \<Rightarrow> block list" where
  "recoverReceiverShares outputs keyShares =
     map (\<lambda>q. fromLow64 (low64 (outputs ! q) XOR low64 (keyShares ! (2 * q)))) [0..<length outputs]"

definition sumPointShares :: "block list \<Rightarrow> nat \<Rightarrow> nat \<Rightarrow> block" where
  "sumPointShares shares point dim = fold (\<lambda>i sum. sum XOR shares ! (point * dim + i)) [0..<dim] 0"

section \<open>The products\<close>

text \<open>\<open>owner\<close> has the store, \<open>q\<close> the queries; \<open>v1\<close> and \<open>v2\<close> are the vector OLEs of the direction.\<close>

definition owner_u :: "vole_out \<Rightarrow> block list \<Rightarrow> nat \<Rightarrow> nat \<Rightarrow> block list" where
  "owner_u v1 receiverShares n dim = map (\<lambda>k. vo_c v1 ! k XOR sumPointShares receiverShares k dim) [0..<n]"

definition querier_terms ::
  "(block \<Rightarrow> block \<Rightarrow> block) \<Rightarrow> ufmap_party \<Rightarrow> vole_out \<Rightarrow> block list \<Rightarrow> block list \<Rightarrow> block list \<Rightarrow> nat \<Rightarrow> nat \<Rightarrow> block list" where
  "querier_terms mul q v1 u programmerShares ids n dim =
     map (\<lambda>k. mul (up_delta q) (u ! k XOR sumPointShares programmerShares k dim XOR ids ! k) XOR vo_d v1 ! k) [0..<n]"

definition querier_v :: "vole_out \<Rightarrow> block list \<Rightarrow> nat \<Rightarrow> block list" where
  "querier_v v2 terms n = map (\<lambda>k. vo_c v2 ! k XOR terms ! k) [0..<n]"

definition owner_w ::
  "(block \<Rightarrow> block \<Rightarrow> block) \<Rightarrow> ufmap_party \<Rightarrow> vole_out \<Rightarrow> vole_out \<Rightarrow> block list \<Rightarrow> nat \<Rightarrow> block list" where
  "owner_w mul owner v1 v2 v n = map (\<lambda>k. mul (up_delta owner) (v ! k XOR vo_a v1 ! k) XOR vo_d v2 ! k) [0..<n]"

definition querier_ids :: "vole_out \<Rightarrow> block list \<Rightarrow> nat \<Rightarrow> block list" where
  "querier_ids v2 w n = map (\<lambda>k. w ! k XOR vo_a v2 ! k) [0..<n]"

section \<open>One direction and both\<close>

text \<open>\<open>n\<close> points of \<open>q\<close> are looked up in the \<open>ownerSize\<close> points of \<open>owner\<close>.\<close>
definition u_round ::
  "fmap_env \<Rightarrow> opprf_session \<Rightarrow> u64 \<Rightarrow> nat \<Rightarrow> ufmap_party \<Rightarrow> ufmap_party \<Rightarrow> nat \<Rightarrow> nat \<Rightarrow> encoded_set \<Rightarrow> block list \<Rightarrow> block list \<Rightarrow>
   block list \<Rightarrow> block list \<Rightarrow> vole_out \<Rightarrow> vole_out \<Rightarrow> block list result" where
  "u_round env ss delta dim owner q n ownerSize encoded ids inputs keyShares shares v1 v2 =
     (let mul = gfMul (fm_crypto env)
      in rbind (sendEncoding env encoded ownerSize dim (up_seed owner)) (\<lambda>tables.
         rbind (receiveAndDecode env inputs n ownerSize dim delta (up_seed owner) tables) (\<lambda>decoded.
         let queryShares = applyAlignment shares (makeAlignment keyShares);
             (programKeys, programValues, programmerShares) = programBopprf decoded queryShares (up_share q)
         in rbind (opprf_run ss 16 programKeys programValues (queryKeys keyShares)) (\<lambda>outputs.
         let u = owner_u v1 (recoverReceiverShares outputs keyShares) n dim;
             v = querier_v v2 (querier_terms mul q v1 u programmerShares ids n dim) n
         in Inr (querier_ids v2 (owner_w mul owner v1 v2 v n) n)))))"

definition u_party_ids :: "ufmap_party \<Rightarrow> u64 \<Rightarrow> nat \<Rightarrow> nat \<Rightarrow> block list \<Rightarrow> encoded_set option" where
  "u_party_ids p delta n dim inputs = u_getID (up_prf p) (up_iter p) (up_rnd p) (up_draw p) delta n dim inputs"

text \<open>
  The receiver's identifiers, the sender's and the sender's origins; \<open>None\<close> when a
  party's padding does not end.
\<close>
definition u_fuzzyMap ::
  "fmap_env \<Rightarrow> opprf_session \<Rightarrow> opprf_session \<Rightarrow> u64 \<Rightarrow> nat \<Rightarrow> ufmap_party \<Rightarrow> ufmap_party \<Rightarrow> nat \<Rightarrow> nat \<Rightarrow> block list \<Rightarrow> block list \<Rightarrow>
   block list \<times> block list \<Rightarrow> block list \<times> block list \<Rightarrow> (nat \<Rightarrow> vole_out) \<Rightarrow>
   (block list \<times> block list \<times> block list) result option" where
  "u_fuzzyMap env ss_0 ss_1 delta dim S R mSenderSize mRecverSize send_inputs recv_inputs shares_0 shares_1 voles =
     (case (u_party_ids S delta mSenderSize dim send_inputs, u_party_ids R delta mRecverSize dim recv_inputs) of
        (Some GS, Some GR) \<Rightarrow> Some (
          rbind (u_round env ss_0 delta dim S R mRecverSize mSenderSize GS (es_ids GR) recv_inputs (fst shares_0) (snd shares_0)
            (voles 0) (voles 1)) (\<lambda>recv_ids.
          rbind (u_round env ss_1 delta dim R S mSenderSize mRecverSize GR (es_ids GS) send_inputs (fst shares_1) (snd shares_1)
            (voles 2) (voles 3)) (\<lambda>send_ids.
          Inr (recv_ids, send_ids, map (\<lambda>x. computeBlock2 (send_inputs ! x) delta) [0..<mSenderSize * dim]))))
      | _ \<Rightarrow> None)"

section \<open>Lanes\<close>

lemma high64_xor: "high64 (a XOR b) = high64 a XOR high64 b"
  unfolding high64_def by (rule bit_word_eqI) (auto simp: bit_simps)

lemma low64_xor: "low64 (a XOR b) = low64 a XOR low64 b"
  unfolding low64_def by (rule bit_word_eqI) (auto simp: bit_simps)

lemma fromLow64_lanes: "high64 (fromLow64 v) = 0" "low64 (fromLow64 v) = v"
proof -
  have "\<not> bit v (64 + n)" for n using bit_imp_le_length [of v "64 + n"] by auto
  then show "high64 (fromLow64 v) = 0"
    unfolding high64_def fromLow64_def mk_block_low by (intro bit_word_eqI) (simp add: bit_simps)
  show "low64 (fromLow64 v) = v"
    unfolding low64_def fromLow64_def mk_block_low by (rule bit_word_eqI) (simp add: bit_simps)
qed

lemma fromLow64_xor: "fromLow64 (a XOR b) = fromLow64 a XOR fromLow64 b"
  unfolding fromLow64_def mk_block_low by (rule bit_word_eqI) (auto simp: bit_simps)

section \<open>The aligned shares\<close>

lemma length_applyAlignment [simp]: "length (applyAlignment shares al) = length shares"
proof -
  have "length (fold (\<lambda>q s. s[2 * q + 1 := s ! (2 * q + 1) XOR al ! q]) qs xs) = length xs" for qs and xs :: "block list"
    by (induction qs arbitrary: xs) simp_all
  then show ?thesis unfolding applyAlignment_def .
qed

lemma nth_applyAlignment:
  assumes "x < length shares"
  shows "applyAlignment shares al ! x = (if odd x \<and> x div 2 < length al then shares ! x XOR al ! (x div 2) else shares ! x)"
proof -
  let ?f = "\<lambda>q s. s[2 * q + 1 := s ! (2 * q + 1) XOR al ! q]"
  have "length (fold ?f [0..<m] shares) = length shares \<and>
    fold ?f [0..<m] shares ! x = (if odd x \<and> x div 2 < m then shares ! x XOR al ! (x div 2) else shares ! x)" for m
  proof (induction m)
    case (Suc m)
    have odd_x: "odd x \<Longrightarrow> x = 2 * (x div 2) + 1" by simp
    show ?case
    proof (cases "x = 2 * m + 1")
      case True
      then show ?thesis using Suc assms by simp
    next
      case False
      then have "odd x \<Longrightarrow> x div 2 \<noteq> m" using odd_x by metis
      then have "odd x \<and> x div 2 < Suc m \<longleftrightarrow> odd x \<and> x div 2 < m" by (auto simp: less_Suc_eq)
      moreover have "fold ?f [0..<Suc m] shares ! x = fold ?f [0..<m] shares ! x" using False by simp
      ultimately show ?thesis using Suc by simp
    qed
  qed simp
  then show ?thesis unfolding applyAlignment_def by blast
qed

text \<open>After the alignment both candidates of a query hide the function under one key share.\<close>
lemma aligned_share:
  assumes "length keyShares = length shares" "x < length shares" "even (length shares)"
    and "keyShares ! x XOR shares ! x = v"
  shows "applyAlignment shares (makeAlignment keyShares) ! x = v XOR keyShares ! (2 * (x div 2))"
proof -
  have s: "shares ! x = v XOR keyShares ! x" using assms(4) by (auto simp: xor_ac)
  have "x div 2 < length shares div 2" using assms(2,3) by (auto elim!: evenE)
  then show ?thesis
    using assms(1,2) s by (cases "odd x") (auto simp: nth_applyAlignment makeAlignment_def xor_ac)
qed

lemma select_label:
  fixes share
  assumes len: "length keyShares = 2 * Q" "length shares = 2 * Q" and x: "x < 2 * Q"
    and rel: "keyShares ! x XOR shares ! x = v" and dec: "decoded ! x = fromLow64 r XOR v"
  defines "P \<equiv> programBopprf decoded (applyAlignment shares (makeAlignment keyShares)) share"
  shows "fst P ! x = queryKeys keyShares ! (x div 2)"
    and "fst (snd P) ! x = fromLow64 (r XOR low64 (keyShares ! (2 * (x div 2))) XOR share (x div 2))"
proof -
  have al: "applyAlignment shares (makeAlignment keyShares) ! x = v XOR keyShares ! (2 * (x div 2))"
    using aligned_share [OF _ _ _ rel] len x by simp
  have rho: "decoded ! x XOR applyAlignment shares (makeAlignment keyShares) ! x = fromLow64 r XOR keyShares ! (2 * (x div 2))"
    unfolding al dec by (simp add: xor_ac)
  then have rho_lanes:
    "high64 (decoded ! x XOR applyAlignment shares (makeAlignment keyShares) ! x) = high64 (keyShares ! (2 * (x div 2)))"
    "low64 (decoded ! x XOR applyAlignment shares (makeAlignment keyShares) ! x) = r XOR low64 (keyShares ! (2 * (x div 2)))"
    by (simp_all only: high64_xor low64_xor fromLow64_lanes) simp_all
  have q: "x div 2 < Q" using x by simp
  show "fst P ! x = queryKeys keyShares ! (x div 2)"
    using x q len by (simp add: P_def programBopprf_def Let_def queryKeys_def rho_lanes)
  show "fst (snd P) ! x = fromLow64 (r XOR low64 (keyShares ! (2 * (x div 2))) XOR share (x div 2))"
    using x q len by (simp add: P_def programBopprf_def Let_def rho_lanes fromLow64_lanes xor.assoc)
qed

section \<open>One direction\<close>

text \<open>The vector OLE of \<open>n\<close> entries under the scalar \<open>d\<close>: \<open>a = d' + d * c\<close>.\<close>
definition vole_out_ok :: "(block \<Rightarrow> block \<Rightarrow> block) \<Rightarrow> block \<Rightarrow> nat \<Rightarrow> vole_out \<Rightarrow> bool" where
  "vole_out_ok mul d n v \<longleftrightarrow> (\<forall>k < n. vo_a v ! k = vo_d v ! k XOR mul d (vo_c v ! k))"

text \<open>The shares of the owner's pseudo random function at the candidates of the querier.\<close>
definition u_shares_ok :: "ufmap_party \<Rightarrow> block list \<Rightarrow> block list \<Rightarrow> block list \<Rightarrow> bool" where
  "u_shares_ok owner candidates keyShares shares \<longleftrightarrow>
     length keyShares = length candidates \<and> length shares = length candidates \<and>
     (\<forall>x < length candidates. keyShares ! x XOR shares ! x = up_prf owner (candidates ! x))"

definition u_stores_ok :: "fmap_env \<Rightarrow> encoded_set \<Rightarrow> nat \<Rightarrow> nat \<Rightarrow> (nat \<Rightarrow> block) \<Rightarrow> bool" where
  "u_stores_ok env encoded n dim seed \<longleftrightarrow>
     (\<forall>i < dim. store_ok env (fm_init env n (seed i)) (es_keys encoded ! i) (es_values encoded ! i))"

text \<open>The programmable function is set up for the keys the run produces.\<close>
definition u_session_ok ::
  "fmap_env \<Rightarrow> opprf_session \<Rightarrow> u64 \<Rightarrow> nat \<Rightarrow> ufmap_party \<Rightarrow> ufmap_party \<Rightarrow> nat \<Rightarrow> nat \<Rightarrow> encoded_set \<Rightarrow> block list \<Rightarrow>
   block list \<Rightarrow> block list \<Rightarrow> bool" where
  "u_session_ok env ss delta dim owner q n ownerSize encoded inputs keyShares shares \<longleftrightarrow>
     (\<forall>tables decoded. sendEncoding env encoded ownerSize dim (up_seed owner) = Inr tables \<longrightarrow>
        receiveAndDecode env inputs n ownerSize dim delta (up_seed owner) tables = Inr decoded \<longrightarrow>
        opprf_session_ok ss 16 (fst (programBopprf decoded (applyAlignment shares (makeAlignment keyShares)) (up_share q)))
          (queryKeys keyShares))"

lemma decode_candidates:
  assumes st: "u_stores_ok env encoded ownerSize dim seed" and len: "\<forall>i < dim. length (es_keys encoded ! i) = length (es_values encoded ! i)"
  shows "\<exists>tables dec. sendEncoding env encoded ownerSize dim seed = Inr tables \<and>
    receiveAndDecode env inputs n ownerSize dim delta seed tables =
      Inr (map (\<lambda>x. dec (x div 2 mod dim) (makeCandidates inputs n dim delta ! x)) [0..<2 * n * dim]) \<and>
    (\<forall>i < dim. \<forall>t < length (es_keys encoded ! i). dec i (es_keys encoded ! i ! t) = es_values encoded ! i ! t)"
proof -
  let ?bx = "\<lambda>i. fm_init env ownerSize (seed i)" and ?cr = "fm_crypto env"
  let ?cands = "\<lambda>i. map (dim_candidate inputs dim delta i) [0..<2 * n]"
  have "\<exists>P. fm_solve env (?bx i) (es_keys encoded ! i) (es_values encoded ! i) = Inr P \<and>
      (baxos_ok ?cr (?bx i) \<and> solves ?cr (?bx i) (es_keys encoded ! i) (es_values encoded ! i) P)" if "i < dim" for i
    using st that by (auto simp: u_stores_ok_def store_ok_def)
  then obtain tables where tab: "sendEncoding env encoded ownerSize dim seed = Inr tables"
    "\<forall>i < dim. baxos_ok ?cr (?bx i) \<and> solves ?cr (?bx i) (es_keys encoded ! i) (es_values encoded ! i) (tables ! i)"
    using mapR_upt [of dim "\<lambda>i. fm_solve env (?bx i) (es_keys encoded ! i) (es_values encoded ! i)"
        "\<lambda>i P. baxos_ok ?cr (?bx i) \<and> solves ?cr (?bx i) (es_keys encoded ! i) (es_values encoded ! i) P"]
    unfolding sendEncoding_def by blast
  define dec where "dec i = key_decode ?cr (?bx i) (tables ! i)" for i
  have "baxos_decode ?cr (?bx i) True 1 (?cands i) (replicate (2 * n) 0) (tables ! i) = Inr (map (dec i) (?cands i))"
    if i: "i < dim" for i
  proof -
    have "length (tables ! i) = baxos_size (?bx i)" using tab(2) i by (simp add: solves_def)
    then show ?thesis
      using baxos_decode_eq [of ?cr "?bx i" "tables ! i" "replicate (2 * n) 0" "?cands i" True 1] tab(2) i
      by (simp add: put_value_def dec_def list_eq_iff_nth_eq)
  qed
  then have "mapR (\<lambda>i. baxos_decode ?cr (?bx i) True 1 (?cands i) (replicate (2 * n) 0) (tables ! i)) [0..<dim] =
      Inr (map (\<lambda>i. map (dec i) (?cands i)) [0..<dim])" by (intro mapR_Inr) simp
  then have "receiveAndDecode env inputs n ownerSize dim delta seed tables =
      Inr (map (\<lambda>x. map (\<lambda>i. map (dec i) (?cands i)) [0..<dim] ! (x div 2 mod dim) ! (2 * (x div 2 div dim) + x mod 2)) [0..<2 * n * dim])"
    unfolding receiveAndDecode_def by simp
  moreover have "map (\<lambda>i. map (dec i) (?cands i)) [0..<dim] ! (x div 2 mod dim) ! (2 * (x div 2 div dim) + x mod 2) =
      dec (x div 2 mod dim) (makeCandidates inputs n dim delta ! x)" if x: "x < 2 * n * dim" for x
  proof -
    have d: "0 < dim" using x by (cases dim) simp_all
    have "x div 2 div dim < n" using x by (simp add: less_mult_imp_div_less mult.commute mult.left_commute)
    moreover have "x mod 2 < 2" by simp
    ultimately have "2 * (x div 2 div dim) + x mod 2 < 2 * n" by linarith
    then show ?thesis using d x by (simp add: dim_candidate_def makeCandidates_def Let_def)
  qed
  moreover have "\<forall>i < dim. \<forall>t < length (es_keys encoded ! i). dec i (es_keys encoded ! i ! t) = es_values encoded ! i ! t"
    using tab(2) unfolding solves_def dec_def by (metis nth_map)
  ultimately show ?thesis using tab(1) by (intro exI [of _ tables] exI [of _ dec]) simp
qed

text \<open>Coordinate \<open>i\<close> of point \<open>k\<close> has a candidate whose value in the store is \<open>L\<close> under the function.\<close>
definition labelled :: "encoded_set \<Rightarrow> (block \<Rightarrow> block) \<Rightarrow> block list \<Rightarrow> nat \<Rightarrow> nat \<Rightarrow> nat \<Rightarrow> block \<Rightarrow> bool" where
  "labelled encoded prfun candidates dim k i L \<longleftrightarrow>
     (\<exists>s < 2. \<exists>t < length (es_keys encoded ! i). (\<exists>r. L = fromLow64 r) \<and>
        es_keys encoded ! i ! t = candidates ! (2 * (k * dim + i) + s) \<and>
        es_values encoded ! i ! t = L XOR prfun (es_keys encoded ! i ! t))"

lemma product_algebra:
  fixes mul :: "block \<Rightarrow> block \<Rightarrow> block"
  assumes mul: "gf_laws mul" and v: "a1 = d1 XOR mul dq c1" "a2 = d2 XOR mul do' c2"
  shows "(mul do' ((c2 XOR (mul dq ((c1 XOR r) XOR p XOR x) XOR d1)) XOR a1) XOR d2) XOR a2 = mul do' (mul dq (r XOR p XOR x))"
proof -
  have dist: "mul c (a XOR b) = mul c a XOR mul c b" for a b c using mul unfolding gf_laws_def by blast
  show ?thesis unfolding v by (simp add: dist xor_ac)
qed

lemma u_round_ok:
  fixes env delta dim owner q n encoded inputs
  defines "mul \<equiv> gfMul (fm_crypto env)" and "C \<equiv> makeCandidates inputs n dim delta"
  assumes st: "u_stores_ok env encoded ownerSize dim (up_seed owner)"
    and len: "\<forall>i < dim. length (es_keys encoded ! i) = length (es_values encoded ! i)"
    and ses: "u_session_ok env ss delta dim owner q n ownerSize encoded inputs keyShares shares"
    and sh: "u_shares_ok owner C keyShares shares" and mul: "gf_laws mul"
    and v: "vole_out_ok mul (up_delta q) n v1" "vole_out_ok mul (up_delta owner) n v2"
  shows "\<exists>out. u_round env ss delta dim owner q n ownerSize encoded ids inputs keyShares shares v1 v2 = Inr out \<and> length out = n \<and>
    (\<forall>k < n. \<forall>L. (\<forall>i < dim. labelled encoded (up_prf owner) C dim k i (L i)) \<longrightarrow>
       out ! k = mul (up_delta owner) (mul (up_delta q) (xsum L dim XOR ids ! k)))"
proof -
  let ?Q = "n * dim"
  have C: "length C = 2 * ?Q" by (simp add: C_def makeCandidates_def)
  have sl: "length keyShares = 2 * ?Q" "length shares = 2 * ?Q" using sh C by (simp_all add: u_shares_ok_def)
  obtain tables dec where run: "sendEncoding env encoded ownerSize dim (up_seed owner) = Inr tables"
    and dec_run: "receiveAndDecode env inputs n ownerSize dim delta (up_seed owner) tables =
      Inr (map (\<lambda>x. dec (x div 2 mod dim) (C ! x)) [0..<2 * n * dim])"
    and dec: "\<forall>i < dim. \<forall>t < length (es_keys encoded ! i). dec i (es_keys encoded ! i ! t) = es_values encoded ! i ! t"
    using decode_candidates [OF st len, of inputs n delta] unfolding C_def by blast
  let ?decoded = "map (\<lambda>x. dec (x div 2 mod dim) (C ! x)) [0..<2 * n * dim]"
  define P where "P = programBopprf ?decoded (applyAlignment shares (makeAlignment keyShares)) (up_share q)"
  obtain X V ps where P: "P = (X, V, ps)" by (cases P)
  have XV: "length X = 2 * ?Q" "length V = 2 * ?Q" "ps = map (\<lambda>q'. fromLow64 (up_share q q')) [0..<?Q]"
    using P sl unfolding P_def programBopprf_def Let_def by auto
  have ok: "opprf_session_ok ss 16 X (queryKeys keyShares)"
    using ses run dec_run P unfolding u_session_ok_def P_def by fastforce
  obtain outputs where out: "opprf_run ss 16 X V (queryKeys keyShares) = Inr outputs" "length outputs = ?Q"
    using opprf.run_length [OF ok, of V] XV sl by (auto simp: queryKeys_def)
  let ?rs = "recoverReceiverShares outputs keyShares"
  have label: "?rs ! (k * dim + i) XOR ps ! (k * dim + i) = L i"
    if k: "k < n" and i: "i < dim" and lab: "labelled encoded (up_prf owner) C dim k i (L i)" for k i L
  proof -
    obtain s t r where st: "s < 2" "t < length (es_keys encoded ! i)" "L i = fromLow64 r"
      "es_keys encoded ! i ! t = C ! (2 * (k * dim + i) + s)"
      "es_values encoded ! i ! t = L i XOR up_prf owner (es_keys encoded ! i ! t)"
      using lab unfolding labelled_def by blast
    define x where "x = 2 * (k * dim + i) + s"
    have q: "k * dim + i < ?Q" by (rule point_index [OF k i])
    have x: "x < 2 * ?Q" "x div 2 = k * dim + i" using q st(1) by (simp_all add: x_def)
    have "x div 2 mod dim = i" using x(2) i by simp
    moreover have "C ! x = es_keys encoded ! i ! t" using st(4) by (simp only: x_def)
    ultimately have "dec (x div 2 mod dim) (C ! x) = es_values encoded ! i ! t" using dec i st(2) by simp
    then have d: "?decoded ! x = fromLow64 r XOR up_prf owner (C ! x)"
      using x(1) st(3,5) \<open>C ! x = es_keys encoded ! i ! t\<close> by (simp add: mult.assoc)
    have rel: "keyShares ! x XOR shares ! x = up_prf owner (C ! x)" using sh C x(1) by (simp add: u_shares_ok_def)
    have key: "X ! x = queryKeys keyShares ! (k * dim + i)"
      and val: "V ! x = fromLow64 (r XOR low64 (keyShares ! (2 * (k * dim + i))) XOR up_share q (k * dim + i))"
      using select_label [OF sl x(1) rel d, of "up_share q"] P x(2) unfolding P_def by simp_all
    have "outputs ! (k * dim + i) = V ! x"
      using q x(1) sl XV by (intro opprf.run_programmed [OF ok _ _ out(1)]) (simp_all add: queryKeys_def key)
    then have "?rs ! (k * dim + i) = fromLow64 (r XOR up_share q (k * dim + i))"
      using q out(2) by (simp add: recoverReceiverShares_def val fromLow64_lanes xor_ac)
    then show ?thesis using q XV(3) st(3) by (simp add: fromLow64_xor xor.assoc)
  qed
  let ?ids = "querier_ids v2 (owner_w mul owner v1 v2 (querier_v v2 (querier_terms mul q v1 (owner_u v1 ?rs n dim) ps ids n dim) n) n) n"
  have "u_round env ss delta dim owner q n ownerSize encoded ids inputs keyShares shares v1 v2 = Inr ?ids"
    using run dec_run out(1) P unfolding u_round_def P_def mul_def by (simp add: Let_def)
  moreover have "length ?ids = n" by (simp add: querier_ids_def)
  moreover have "?ids ! k = mul (up_delta owner) (mul (up_delta q) (xsum L dim XOR ids ! k))"
    if k: "k < n" and lab: "\<forall>i < dim. labelled encoded (up_prf owner) C dim k i (L i)" for k L
  proof -
    have vk: "vo_a v1 ! k = vo_d v1 ! k XOR mul (up_delta q) (vo_c v1 ! k)" "vo_a v2 ! k = vo_d v2 ! k XOR mul (up_delta owner) (vo_c v2 ! k)"
      using v k by (simp_all add: vole_out_ok_def)
    have "sumPointShares ?rs k dim XOR sumPointShares ps k dim = xsum L dim"
      unfolding sumPointShares_def xsum_xor using label [OF k] lab by (intro xsum_cong) blast
    then have "sumPointShares ?rs k dim XOR sumPointShares ps k dim XOR ids ! k = xsum L dim XOR ids ! k"
      by (simp add: xor.assoc [symmetric])
    then show ?thesis
      using product_algebra [OF mul vk, of "sumPointShares ?rs k dim" "sumPointShares ps k dim" "ids ! k"] k
      by (simp add: querier_ids_def owner_w_def querier_v_def querier_terms_def owner_u_def xor.assoc)
  qed
  ultimately show ?thesis by blast
qed

section \<open>Near points\<close>

text \<open>Points whose low halves are within the radius in every dimension.\<close>
definition u_near :: "u64 \<Rightarrow> nat \<Rightarrow> block list \<Rightarrow> nat \<Rightarrow> block list \<Rightarrow> nat \<Rightarrow> bool" where
  "u_near delta dim xs i ys j \<longleftrightarrow>
     (\<forall>d < dim. unat (low64 (xs ! (i * dim + d))) \<le> unat (low64 (ys ! (j * dim + d))) + unat delta \<and>
        unat (low64 (ys ! (j * dim + d))) \<le> unat (low64 (xs ! (i * dim + d))) + unat delta)"

definition u_party_ok :: "ufmap_party \<Rightarrow> nat \<Rightarrow> nat \<Rightarrow> bool" where
  "u_party_ok p n dim \<longleftrightarrow> walk_ok (up_iter p) \<and> (\<forall>i < dim. fresh_draws n (up_draw p i))"

text \<open>What a direction has to satisfy: stores, programmable function, shares and vector OLEs.\<close>
definition u_dir_ok ::
  "fmap_env \<Rightarrow> opprf_session \<Rightarrow> u64 \<Rightarrow> nat \<Rightarrow> ufmap_party \<Rightarrow> ufmap_party \<Rightarrow> nat \<Rightarrow> nat \<Rightarrow> block list \<Rightarrow> block list \<Rightarrow>
   block list \<times> block list \<Rightarrow> vole_out \<Rightarrow> vole_out \<Rightarrow> bool" where
  "u_dir_ok env ss delta dim owner q n ownerSize owner_inputs inputs shares v1 v2 \<longleftrightarrow>
     (\<forall>G. u_party_ids owner delta ownerSize dim owner_inputs = Some G \<longrightarrow> u_stores_ok env G ownerSize dim (up_seed owner) \<and>
        u_session_ok env ss delta dim owner q n ownerSize G inputs (fst shares) (snd shares)) \<and>
     u_shares_ok owner (makeCandidates inputs n dim delta) (fst shares) (snd shares) \<and>
     vole_out_ok (gfMul (fm_crypto env)) (up_delta q) n v1 \<and> vole_out_ok (gfMul (fm_crypto env)) (up_delta owner) n v2"

lemma nth_makeCandidates:
  assumes "k < n" "i < dim"
  shows "makeCandidates inputs n dim delta ! (2 * (k * dim + i)) = fst (candidateBlocks (inputs ! (k * dim + i)) (of_nat i) delta)"
    and "makeCandidates inputs n dim delta ! (2 * (k * dim + i) + 1) = snd (candidateBlocks (inputs ! (k * dim + i)) (of_nat i) delta)"
proof -
  define q where "q = k * dim + i"
  have "q < n * dim" "q mod dim = i" using point_index [OF assms] assms by (simp_all add: q_def)
  then show "makeCandidates inputs n dim delta ! (2 * (k * dim + i)) = fst (candidateBlocks (inputs ! (k * dim + i)) (of_nat i) delta)"
    "makeCandidates inputs n dim delta ! (2 * (k * dim + i) + 1) = snd (candidateBlocks (inputs ! (k * dim + i)) (of_nat i) delta)"
    unfolding q_def [symmetric] by (simp_all add: makeCandidates_def Let_def)
qed

text \<open>A direction gives a near point the identifier of the owner's point.\<close>
lemma u_direction_ok:
  fixes env delta dim owner q n inputs
  defines "mul \<equiv> gfMul (fm_crypto env)"
  assumes d: "0 < unat delta" "unat delta < 2 ^ 63" and p: "u_party_ok owner ownerSize dim" and mul: "gf_laws mul"
    and dir: "u_dir_ok env ss delta dim owner q n ownerSize owner_inputs inputs shares v1 v2"
  shows "\<exists>G. u_party_ids owner delta ownerSize dim owner_inputs = Some G \<and>
    (\<forall>ids. \<exists>out. u_round env ss delta dim owner q n ownerSize G ids inputs (fst shares) (snd shares) v1 v2 = Inr out \<and> length out = n \<and>
      (\<forall>k < n. \<forall>j < ownerSize. u_near delta dim owner_inputs j inputs k \<longrightarrow>
        out ! k = mul (up_delta owner) (mul (up_delta q) (es_ids G ! j XOR ids ! k))))"
proof -
  have w: "walk_ok (up_iter owner)" "\<forall>i < dim. fresh_draws ownerSize (up_draw owner i)" using p by (simp_all add: u_party_ok_def)
  let ?lab = "u_label delta (up_rnd owner) ownerSize dim owner_inputs" and ?C = "makeCandidates inputs n dim delta"
  obtain G where G: "u_party_ids owner delta ownerSize dim owner_inputs = Some G"
    "es_ids G = map (\<lambda>k. fold (\<lambda>i s. s XOR ?lab i k) [0..<dim] 0) [0..<ownerSize]"
    "\<forall>i < dim. length (es_keys G ! i) = ownerSize \<and> length (es_values G ! i) = ownerSize \<and>
      (\<forall>j < ownerSize. (\<exists>r. ?lab i j = fromLow64 r) \<and>
        (\<exists>t < ownerSize. es_keys G ! i ! t = coordinateBlock (of_nat i) (canonicalBlock4Delta (owner_inputs ! (j * dim + i)) delta) \<and>
          es_values G ! i ! t = ?lab i j XOR up_prf owner (es_keys G ! i ! t)))"
    using u_getID_ok [OF d w, of "up_prf owner" "up_rnd owner" owner_inputs] unfolding u_party_ids_def by blast
  have lab: "labelled G (up_prf owner) ?C dim k i (?lab i j)"
    if h: "k < n" "j < ownerSize" "u_near delta dim owner_inputs j inputs k" "i < dim" for k j i
  proof -
    obtain t where t: "t < ownerSize" "es_keys G ! i ! t = coordinateBlock (of_nat i) (canonicalBlock4Delta (owner_inputs ! (j * dim + i)) delta)"
      "es_values G ! i ! t = ?lab i j XOR up_prf owner (es_keys G ! i ! t)" "\<exists>r. ?lab i j = fromLow64 r"
      using G(3) h(2,4) by blast
    have "es_keys G ! i ! t = ?C ! (2 * (k * dim + i)) \<or> es_keys G ! i ! t = ?C ! (2 * (k * dim + i) + 1)"
      using canonical_candidate [OF d, of "owner_inputs ! (j * dim + i)" "inputs ! (k * dim + i)" "of_nat i"] h(3,4)
      unfolding nth_makeCandidates [OF h(1,4)] t(2) u_near_def by blast
    then have "\<exists>s < 2. es_keys G ! i ! t = ?C ! (2 * (k * dim + i) + s)" by (auto intro: exI [of _ 0] exI [of _ "Suc 0"])
    then show ?thesis using t G(3) h(4) unfolding labelled_def by metis
  qed
  have st: "u_stores_ok env G ownerSize dim (up_seed owner)"
    "u_session_ok env ss delta dim owner q n ownerSize G inputs (fst shares) (snd shares)"
    and sh: "u_shares_ok owner ?C (fst shares) (snd shares)" and v: "vole_out_ok mul (up_delta q) n v1" "vole_out_ok mul (up_delta owner) n v2"
    using dir G(1) by (simp_all add: u_dir_ok_def mul_def)
  have len: "\<forall>i < dim. length (es_keys G ! i) = length (es_values G ! i)" using G(3) by simp
  have "\<exists>out. u_round env ss delta dim owner q n ownerSize G ids inputs (fst shares) (snd shares) v1 v2 = Inr out \<and> length out = n \<and>
      (\<forall>k < n. \<forall>j < ownerSize. u_near delta dim owner_inputs j inputs k \<longrightarrow>
        out ! k = mul (up_delta owner) (mul (up_delta q) (es_ids G ! j XOR ids ! k)))" for ids
  proof -
    obtain out where out: "u_round env ss delta dim owner q n ownerSize G ids inputs (fst shares) (snd shares) v1 v2 = Inr out" "length out = n"
      "\<forall>k < n. \<forall>L. (\<forall>i < dim. labelled G (up_prf owner) ?C dim k i (L i)) \<longrightarrow>
         out ! k = mul (up_delta owner) (mul (up_delta q) (xsum L dim XOR ids ! k))"
      using u_round_ok [OF st(1) len st(2) sh mul [unfolded mul_def] v [unfolded mul_def], of ids] unfolding mul_def by blast
    have "out ! k = mul (up_delta owner) (mul (up_delta q) (es_ids G ! j XOR ids ! k))"
      if h: "k < n" "j < ownerSize" "u_near delta dim owner_inputs j inputs k" for k j
    proof -
      have "es_ids G ! j = xsum (\<lambda>i. ?lab i j) dim" using G(2) h(2) by simp
      then show ?thesis using out(3) h(1) lab [OF h] by simp
    qed
    then show ?thesis using out(1,2) by blast
  qed
  then show ?thesis using G(1) by blast
qed

section \<open>Properties\<close>

text \<open>C38. The unique fuzzy mapping: when the draws of the padding do not repeat forever and the
  stores, the programmable functions, the shares and the vector OLEs of both directions are set up,
  the run of both parties ends and succeeds, and a point of the receiver and a point of the sender
  that are within the radius in every dimension get the same identifier.\<close>
theorem u_fuzzyMap_near:
  assumes "0 < unat delta" "unat delta < 2 ^ 63" "u_party_ok S nS dim" "u_party_ok R nR dim" "gf_laws (gfMul (fm_crypto env))"
    and "u_dir_ok env ss_0 delta dim S R nR nS send_inputs recv_inputs shares_0 (voles 0) (voles 1)"
    and "u_dir_ok env ss_1 delta dim R S nS nR recv_inputs send_inputs shares_1 (voles 2) (voles 3)"
  shows "\<exists>recv_ids send_ids origins.
    u_fuzzyMap env ss_0 ss_1 delta dim S R nS nR send_inputs recv_inputs shares_0 shares_1 voles = Some (Inr (recv_ids, send_ids, origins)) \<and>
    length recv_ids = nR \<and> length send_ids = nS \<and>
    (\<forall>i < nR. \<forall>j < nS. u_near delta dim recv_inputs i send_inputs j \<longrightarrow> recv_ids ! i = send_ids ! j)"
proof -
  let ?mul = "gfMul (fm_crypto env)"
  obtain GS where GS: "u_party_ids S delta nS dim send_inputs = Some GS"
    and r0: "\<forall>ids. \<exists>out. u_round env ss_0 delta dim S R nR nS GS ids recv_inputs (fst shares_0) (snd shares_0) (voles 0) (voles 1) = Inr out \<and>
      length out = nR \<and> (\<forall>k < nR. \<forall>j < nS. u_near delta dim send_inputs j recv_inputs k \<longrightarrow>
        out ! k = ?mul (up_delta S) (?mul (up_delta R) (es_ids GS ! j XOR ids ! k)))"
    using u_direction_ok [OF assms(1-3,5,6)] by blast
  obtain GR where GR: "u_party_ids R delta nR dim recv_inputs = Some GR"
    and r1: "\<forall>ids. \<exists>out. u_round env ss_1 delta dim R S nS nR GR ids send_inputs (fst shares_1) (snd shares_1) (voles 2) (voles 3) = Inr out \<and>
      length out = nS \<and> (\<forall>k < nS. \<forall>j < nR. u_near delta dim recv_inputs j send_inputs k \<longrightarrow>
        out ! k = ?mul (up_delta R) (?mul (up_delta S) (es_ids GR ! j XOR ids ! k)))"
    using u_direction_ok [OF assms(1,2,4,5,7)] by blast
  obtain recv_ids where o0: "u_round env ss_0 delta dim S R nR nS GS (es_ids GR) recv_inputs (fst shares_0) (snd shares_0) (voles 0) (voles 1) = Inr recv_ids"
    "length recv_ids = nR" "\<forall>k < nR. \<forall>j < nS. u_near delta dim send_inputs j recv_inputs k \<longrightarrow>
        recv_ids ! k = ?mul (up_delta S) (?mul (up_delta R) (es_ids GS ! j XOR es_ids GR ! k))"
    using r0 [rule_format, of "es_ids GR"] by blast
  obtain send_ids where o1: "u_round env ss_1 delta dim R S nS nR GR (es_ids GS) send_inputs (fst shares_1) (snd shares_1) (voles 2) (voles 3) = Inr send_ids"
    "length send_ids = nS" "\<forall>k < nS. \<forall>j < nR. u_near delta dim recv_inputs j send_inputs k \<longrightarrow>
        send_ids ! k = ?mul (up_delta R) (?mul (up_delta S) (es_ids GR ! j XOR es_ids GS ! k))"
    using r1 [rule_format, of "es_ids GS"] by blast
  have comm: "?mul a (?mul b c) = ?mul b (?mul a c)" for a b c using assms(5) unfolding gf_laws_def by metis
  have "recv_ids ! i = send_ids ! j" if h: "i < nR" "j < nS" "u_near delta dim recv_inputs i send_inputs j" for i j
  proof -
    have "u_near delta dim send_inputs j recv_inputs i" using h(3) by (auto simp: u_near_def)
    then show ?thesis using o0(3) o1(3) h comm by (simp add: xor.commute)
  qed
  then show ?thesis using GS GR o0(1,2) o1(1,2) by (simp add: u_fuzzyMap_def)
qed

lemma nth_program:
  assumes "length s = 2 * Q" "x < 2 * Q"
  shows "fst (programBopprf D s share) ! x = fromLow64 (high64 (D ! x XOR s ! x))"
    and "fst (snd (programBopprf D s share)) ! x = fromLow64 (low64 (D ! x XOR s ! x) XOR share (x div 2))"
proof -
  have "x div 2 < Q" using assms(2) by simp
  then show "fst (programBopprf D s share) ! x = fromLow64 (high64 (D ! x XOR s ! x))"
    "fst (snd (programBopprf D s share)) ! x = fromLow64 (low64 (D ! x XOR s ! x) XOR share (x div 2))"
    using assms by (simp_all add: programBopprf_def Let_def fromLow64_lanes)
qed

lemma length_program:
  "length s = 2 * Q \<Longrightarrow> length (fst (programBopprf D s share)) = 2 * Q \<and> length (fst (snd (programBopprf D s share))) = 2 * Q"
  by (simp add: programBopprf_def Let_def)

text \<open>C40. A coordinate below two radii has one block for both candidates, so the querier programs one
  key twice, with the same value; and when the programmable function solves its second table with
  \<open>Baxos::solve\<close>, in a debug or in a release build, the direction fails with an exception, however
  well the stores, the shares, the OPRF and the sizes are set up.\<close>
theorem small_coordinate_repeats_key:
  fixes cfg :: solve_cfg and draw :: "nat \<Rightarrow> nat \<Rightarrow> block"
  assumes d: "0 < unat delta" "unat delta < 2 ^ 63"
    and st: "u_stores_ok env G ownerSize dim (up_seed owner)" "\<forall>i < dim. length (es_keys G ! i) = length (es_values G ! i)"
    and sh: "u_shares_ok owner (makeCandidates inputs n dim delta) keyShares shares"
    and ki: "k < n" "i < dim" "unat (low64 (inputs ! (k * dim + i))) < 2 * unat delta"
    and oprf: "oprf_session_ok ss (queryKeys keyShares)"
    and solver: "os_solve_rand ss = (\<lambda>bx. baxos_solve cfg (os_crypto ss) (os_threads ss) (Some draw) bx)"
    and fits: "\<forall>tables decoded. sendEncoding env G ownerSize dim (up_seed owner) = Inr tables \<longrightarrow>
      receiveAndDecode env inputs n ownerSize dim delta (up_seed owner) tables = Inr decoded \<longrightarrow>
      solve_ok cfg (os_crypto ss) K (os_threads ss) (Some draw) (os_init ss (2 * (n * dim)) GF128 (os_seed ss))
        (fst (programBopprf decoded (applyAlignment shares (makeAlignment keyShares)) (up_share q)))"
  shows "\<exists>tables decoded keys vals ps. sendEncoding env G ownerSize dim (up_seed owner) = Inr tables \<and>
    receiveAndDecode env inputs n ownerSize dim delta (up_seed owner) tables = Inr decoded \<and>
    programBopprf decoded (applyAlignment shares (makeAlignment keyShares)) (up_share q) = (keys, vals, ps) \<and>
    keys ! (2 * (k * dim + i)) = keys ! (2 * (k * dim + i) + 1) \<and> vals ! (2 * (k * dim + i)) = vals ! (2 * (k * dim + i) + 1) \<and>
    (\<exists>e. u_round env ss delta dim owner q n ownerSize G ids inputs keyShares shares v1 v2 = Inl (Runtime_error e))"
proof -
  let ?C = "makeCandidates inputs n dim delta" and ?al = "applyAlignment shares (makeAlignment keyShares)"
  obtain tables dec where run: "sendEncoding env G ownerSize dim (up_seed owner) = Inr tables"
    "receiveAndDecode env inputs n ownerSize dim delta (up_seed owner) tables = Inr (map (\<lambda>x. dec (x div 2 mod dim) (?C ! x)) [0..<2 * n * dim])"
    using decode_candidates [OF st, of inputs n delta] by blast
  define decoded where "decoded = map (\<lambda>x. dec (x div 2 mod dim) (?C ! x)) [0..<2 * n * dim]"
  obtain keys vals ps where P: "programBopprf decoded ?al (up_share q) = (keys, vals, ps)" by (cases "programBopprf decoded ?al (up_share q)")
  define t where "t = k * dim + i"
  have t: "t < n * dim" unfolding t_def by (rule point_index [OF ki(1,2)])
  have C: "length ?C = 2 * (n * dim)" by (simp add: makeCandidates_def)
  have sl: "length keyShares = 2 * (n * dim)" "length shares = 2 * (n * dim)" using sh C by (simp_all add: u_shares_ok_def)
  then have al_len: "length ?al = 2 * (n * dim)" by simp
  have same: "?C ! (2 * t) = ?C ! (2 * t + 1)"
    using small_candidates [OF d ki(3)] unfolding t_def nth_makeCandidates [OF ki(1,2)] .
  have al: "?al ! x = up_prf owner (?C ! x) XOR keyShares ! (2 * (x div 2))" if "x < 2 * (n * dim)" for x
    using sh sl C that by (intro aligned_share) (simp_all add: u_shares_ok_def)
  have rho: "decoded ! (2 * t) XOR ?al ! (2 * t) = decoded ! (2 * t + 1) XOR ?al ! (2 * t + 1)"
    using t al [of "2 * t"] al [of "2 * t + 1"] same by (simp add: decoded_def mult.assoc)
  have lt: "2 * t < 2 * (n * dim)" "2 * t + 1 < 2 * (n * dim)" using t by simp_all
  have dup: "keys ! (2 * t) = keys ! (2 * t + 1)" "vals ! (2 * t) = vals ! (2 * t + 1)"
    using nth_program [OF al_len lt(1), of decoded "up_share q"] nth_program [OF al_len lt(2), of decoded "up_share q"] rho P by simp_all
  have len: "length keys = 2 * (n * dim)" "length vals = 2 * (n * dim)" using length_program [OF al_len, of decoded "up_share q"] P by simp_all
  then have "\<not> distinct keys" using dup(1) lt nth_eq_iff_index_eq [of keys "2 * t" "2 * t + 1"] by fastforce
  moreover have ok: "solve_ok cfg (os_crypto ss) K (os_threads ss) (Some draw) (os_init ss (2 * (n * dim)) GF128 (os_seed ss)) keys"
    using fits run P unfolding decoded_def by fastforce
  ultimately have "\<exists>e. baxos_solve cfg (os_crypto ss) (os_threads ss) (Some draw) (os_init ss (2 * (n * dim)) GF128 (os_seed ss)) keys diff = Inl (Runtime_error e)"
    if "length diff = length keys" for diff
    using baxos_solve_ok [OF ok that] unfolding solve_ok_def by auto
  then have "\<exists>e. opprf_run ss 16 keys vals (queryKeys keyShares) = Inl (Runtime_error e)"
    using len lt(1) by (intro opprf_run_unsolved [OF oprf]) (auto simp: solver row_type_def)
  then have "\<exists>e. u_round env ss delta dim owner q n ownerSize G ids inputs keyShares shares v1 v2 = Inl (Runtime_error e)"
    using run P by (auto simp: u_round_def decoded_def Let_def)
  then show ?thesis using run P dup unfolding t_def decoded_def by blast
qed

end
