(* ===== verification/Baxos_Session.thy ===== *)
theory Baxos_Session
  imports Baxos_Solve Opprf
begin

text \<open>
  The solver meets what the protocols ask of it: encoding is right, \<open>Baxos::solve\<close>
  implements the contract \<open>solves\<close>, and the programmable function is right with
  \<open>Baxos::solve\<close> as its solver.  What a row of the gap decodes to when the free
  positions are drawn, and the sizes for which no index type fits.
\<close>

section \<open>Concrete runs\<close>

text \<open>A library that inverts the bit matrix of one bit.\<close>
definition one_bit_lib :: bit_lib where
  "one_bit_lib = \<lparr>bl_invert = (\<lambda>M. if M = [[True]] then [[True]] else []), bl_choose = (\<lambda>n k. if k = 1 then n else 0),
     bl_ithCombination = (\<lambda>ci n k. [ci])\<rparr>"

lemma one_bit_lib_ok: "bit_lib_ok one_bit_lib"
  by (auto simp: bit_lib_ok_def one_bit_lib_def bit_inverse_def)

definition demo_param :: "dense_type \<Rightarrow> paxos_param" where
  "demo_param ty = \<lparr>sparse_size = 5, dense_size = 1, weight = 3, dense_ty = ty\<rparr>"

lemma demo_sys_fits: "sys_ok (demo_param ty) demo_sys"
  using demo_sys_ok by (simp add: sys_ok_def demo_param_def param_ok_def) (simp add: demo_sys_def set_input_def)

lemma demo_setup: "(\<And>draw i. rng = Some draw \<Longrightarrow> draw i \<in> {0, 1}) \<Longrightarrow> gf_setup dual_mul {0, 1} demo_sys rng"
  using gf_field_dual by (auto simp: gf_setup_def demo_sys_def set_input_def)

text \<open>The row of the gap is cancelled by the two other rows of the diagonal.\<close>
lemma demo_fcinv: "getFCInv 6 (mRows demo_sys) demo_tri = Some [[2, 1]]"
  by code_simp

definition demo_draw :: "nat \<Rightarrow> block" where
  "demo_draw i = (if i = 0 then 1 else 0)"

lemma demo_inverse: "gf128Inv_mtx dual_mul [[1]] = Some [[1]]"
  by (simp add: gf128Inv_mtx_def unit_mtx_def inv_step_def find_pivot_def scale_row_def clear_row_def gf128Inv_dual dual_mul_1 Let_def)

text \<open>The code on the system with one row in the gap, with and without a generator.\<close>
lemma demo_encode:
  assumes "rng = None \<or> rng = Some demo_draw"
  shows "\<exists>Q. paxos_encode one_bit_lib dual_mul 1 (demo_param GF128) demo_sys [5, 6, 7, 8] rng (replicate 6 0) = Inr Q"
proof -
  have dense: "mDense demo_sys = [0, 0, 0, 1]" by (simp add: demo_sys_def set_input_def)
  have fc: "getFCInv (paxos_size (demo_param GF128)) (mRows demo_sys) demo_tri = Some [[2, 1]]"
    using demo_fcinv by (simp add: paxos_size_def demo_param_def)
  have eqs: "map fst (gap_eqs dual_mul (demo_param GF128) demo_sys demo_tri [[2, 1]] [5, 6, 7, 8] rng pos) = [[1]]" for pos
    using assms by (auto simp: gap_eqs_def gap_eq_def dense demo_tri_def demo_param_def rand_eqs_def)
  have "\<exists>P1. solve_dense dual_mul (gap_eqs dual_mul (demo_param GF128) demo_sys demo_tri [[2, 1]] [5, 6, 7, 8] rng pos) S P = Inr P1" for pos S P
    unfolding solve_dense_def eqs demo_inverse by simp
  then have "\<exists>Q. backfillGf128 dual_mul (demo_param GF128) demo_sys demo_tri [5, 6, 7, 8] rng pos P = Inr Q" for pos P
    using fc by (auto simp: backfillGf128_def demo_tri_def demo_param_def Let_def)
  then show ?thesis
    using assms triangulate_demo
    by (auto simp: paxos_encode_def encode_with_def backfill_def draw_free_def demo_param_def paxos_size_def demo_tri_def)
qed

section \<open>Properties\<close>

text \<open>C15. Encoding: \<open>encode\<close> ends and returns a table of the right size in which every row
  decodes to its value, for both dense types, without a generator, or with one when
  every row in the gap repeats a row of the diagonal; an error needs two equal dense
  parts or a row in the gap (a singular system there), or a system with at most one
  column more than rows, whose columns run out.
\<close>
theorem paxos_encode_correct:
  assumes "sys_ok prm sys" "bit_lib_ok lib" "dense_ty prm = GF128 \<longrightarrow> gf_setup mul K sys rng" "length output = paxos_size prm"
    and "rng \<noteq> None \<longrightarrow> length (mRows sys) < sparse_size prm \<and>
      (\<forall>ts. triangulate sys = Some (Inr ts) \<longrightarrow> gap_repeats (mRows sys) ts)"
  shows "(\<exists>Q. paxos_encode lib mul mG prm sys X rng output = Inr Q \<and> length Q = paxos_size prm \<and>
      (\<forall>x < length (mRows sys). decode1 mul prm (mRows sys ! x) (mDense sys ! x) Q = X ! x)) \<or>
    (\<exists>e. paxos_encode lib mul mG prm sys X rng output = Inl (Runtime_error e)) \<and>
    (\<not> distinct (mDense sys) \<or> (\<exists>ts. triangulate sys = Some (Inr ts) \<and> gapRows ts \<noteq> [])) \<or>
    paxos_encode lib mul mG prm sys X rng output = Inl empty_back \<and> sparse_size prm \<le> length (mRows sys) + 1"
  using paxos_encode_ok [OF assms(1,2) _ assms(4), where mul = mul and K = K and rng = rng and mG = mG and X = X] assms(3,5) unfolding table_ok_def by blast

lemma paxos_encode_correct_witness:
  "\<exists>Q. paxos_encode one_bit_lib dual_mul 1 (demo_param GF128) demo_sys [5, 6, 7, 8] None (replicate 6 0) = Inr Q \<and>
    decode1 dual_mul (demo_param GF128) [0, 1, 4] 1 Q = 8"
proof -
  let ?run = "paxos_encode one_bit_lib dual_mul 1 (demo_param GF128) demo_sys [5, 6, 7, 8] None (replicate 6 0)"
  obtain Q where Q: "?run = Inr Q" using demo_encode [of None] by blast
  have "(\<exists>Q. ?run = Inr Q \<and> length Q = paxos_size (demo_param GF128) \<and>
      (\<forall>x < length (mRows demo_sys). decode1 dual_mul (demo_param GF128) (mRows demo_sys ! x) (mDense demo_sys ! x) Q = [5, 6, 7, 8] ! x)) \<or>
    (\<exists>e. ?run = Inl (Runtime_error e)) \<and> (\<not> distinct (mDense demo_sys) \<or> (\<exists>ts. triangulate demo_sys = Some (Inr ts) \<and> gapRows ts \<noteq> [])) \<or>
    ?run = Inl empty_back \<and> 5 \<le> length (mRows demo_sys) + 1"
    using paxos_encode_correct [OF demo_sys_fits one_bit_lib_ok, of GF128 dual_mul "{0, 1}" None] demo_setup [of None]
    by (simp add: demo_param_def paxos_size_def)
  then have "decode1 dual_mul (demo_param GF128) (mRows demo_sys ! 3) (mDense demo_sys ! 3) Q = [5, 6, 7, 8] ! 3"
    unfolding Q by (auto simp: demo_sys_def set_input_def)
  then show ?thesis using Q by (simp add: demo_sys_def set_input_def)
qed

text \<open>C16. With a generator the free columns hold what was drawn and the rows of the diagonal
  are right, but a row of the gap decodes to its value plus the free columns that it and
  the rows found for it do not cancel: the solver leaves them out of the equations of
  the gap.
\<close>
theorem encode_gap_row:
  assumes "sys_ok prm sys" "bit_lib_ok lib" "dense_ty prm = GF128 \<longrightarrow> gf_setup mul K sys rng" "length output = paxos_size prm"
    and "rng \<noteq> None \<longrightarrow> length (mRows sys) < sparse_size prm"
    and "triangulate sys = Some (Inr ts)" "getFCInv (paxos_size prm) (mRows sys) ts = Some F"
    and "paxos_encode lib mul mG prm sys X rng output = Inr Q"
  shows "(\<forall>x \<in> set (mainRows ts). decode1 mul prm (mRows sys ! x) (mDense sys ! x) Q = X ! x) \<and>
    (\<forall>i < length (gapRows ts). let x = fst (gapRows ts ! i) in decode1 mul prm (mRows sys ! x) (mDense sys ! x) Q =
       X ! x XOR gap_residual (sparse_size prm) (mRows sys) ts (x # F ! i) Q) \<and>
    (\<exists>P pos. draw_free (ts_wd ts) rng (replicate (paxos_size prm) 0) = Inr (P, pos) \<and>
       (\<forall>c < sparse_size prm. c \<notin> set (mainCols ts) \<longrightarrow> Q ! c = P ! c))"
  using paxos_encode_upto_gap [OF assms(1,2) _ assms(4), where mul = mul and K = K and rng = rng and mG = mG and X = X] assms(3,5-)
  unfolding table_upto_gap_def by auto

text \<open>The drawn column 2 spoils the row of the gap.\<close>
lemma encode_gap_row_witness:
  "\<exists>Q. paxos_encode one_bit_lib dual_mul 1 (demo_param GF128) demo_sys [5, 6, 7, 8] (Some demo_draw) (replicate 6 0) = Inr Q \<and>
    decode1 dual_mul (demo_param GF128) [0, 1, 4] 1 Q = 9"
proof -
  let ?prm = "demo_param GF128"
  obtain Q where Q: "paxos_encode one_bit_lib dual_mul 1 ?prm demo_sys [5, 6, 7, 8] (Some demo_draw) (replicate 6 0) = Inr Q"
    using demo_encode [of "Some demo_draw"] by blast
  have sz: "paxos_size ?prm = 6" "sparse_size ?prm = 5" by (simp_all add: demo_param_def paxos_size_def)
  have rows: "mRows demo_sys = [[0, 1, 2], [0, 1, 3], [2, 3, 4], [0, 1, 4]]" "mDense demo_sys = [0, 0, 0, 1]"
    by (simp_all add: demo_sys_def set_input_def)
  have gf: "dense_ty ?prm = GF128 \<longrightarrow> gf_setup dual_mul {0, 1} demo_sys (Some demo_draw)"
    using demo_setup [of "Some demo_draw"] by (auto simp: demo_draw_def)
  have fc: "getFCInv (paxos_size ?prm) (mRows demo_sys) demo_tri = Some [[2, 1]]" using demo_fcinv by (simp add: sz)
  have d: "decode1 dual_mul ?prm [0, 1, 4] 1 Q = 8 XOR gap_residual 5 (mRows demo_sys) demo_tri [3, 2, 1] Q"
    and P: "\<exists>P pos. draw_free (ts_wd demo_tri) (Some demo_draw) (replicate 6 0) = Inr (P, pos) \<and>
      (\<forall>c < 5. c \<notin> set (mainCols demo_tri) \<longrightarrow> Q ! c = P ! c)"
    using encode_gap_row [OF demo_sys_fits one_bit_lib_ok gf _ _ triangulate_demo fc Q]
    by (simp_all add: sz rows demo_tri_def)
  have "Q ! 2 = 1" using P by (auto simp: draw_free_def demo_tri_def demo_draw_def)
  then have "gap_residual 5 (mRows demo_sys) demo_tri [3, 2, 1] Q = 1"
    by (simp add: gap_residual_def rows demo_tri_def upt_rec numeral_2_eq_2)
  then show ?thesis using d Q by simp
qed

section \<open>Baxos::solve\<close>

lemma light_columns:
  assumes "rows_ok S rows" "length rows < 200"
  shows "\<forall>c \<in> set (rebuildColumns S rows). length c < 200"
proof
  fix c assume "c \<in> set (rebuildColumns S rows)"
  then obtain k where "k < S" "c = filter (\<lambda>i. k \<in> set (rows ! i)) [0..<length rows]"
    using rebuildColumns_ok [OF assms(1)] by (auto simp: in_set_conv_nth)
  then have "length c \<le> length rows" using length_filter_le [of _ "[0..<length rows]"] by simp
  then show "length c < 200" using assms(2) by simp
qed

text \<open>A small bin over a binary dense part needs nothing but room.\<close>
lemma small_bin_ok:
  assumes "param_ok prm" "dense_ty prm = Binary" "length hashes + 2 \<le> sparse_size prm" "length hashes < 200" "8 \<le> w"
    and "rng \<noteq> None \<Longrightarrow> \<not> bin_stuck mul prm hashes"
  shows "bin_ok w mul K prm hashes rng"
proof -
  have ne: "build_row mul prm h \<noteq> []" for h using build_row_ok(1) [OF assms(1)] assms(1) by (metis length_0_conv less_irrefl param_ok_def)
  then have "rows_ok (sparse_size prm) (map (build_row mul prm) hashes)"
    using build_row_ok(2,3) [OF assms(1)] by (auto simp: rows_ok_def)
  then have "\<forall>c \<in> set (mCols (bin_sys mul prm hashes)). length c < 200"
    using light_columns [of "sparse_size prm" "map (build_row mul prm) hashes"] assms(4) by (simp add: bin_sys_def set_input_def)
  moreover have "gap_repeats (mRows (bin_sys mul prm hashes)) ts"
    if "rng \<noteq> None" "triangulate (bin_sys mul prm hashes) = Some (Inr ts)" for ts
    using assms(6) that by (auto simp: bin_stuck_def gap_repeats_def)
  moreover have "length hashes < 2 ^ w"
  proof -
    have "(2 :: nat) ^ 8 \<le> 2 ^ w" using assms(5) by (intro power_increasing) simp_all
    then show ?thesis using assms(4) by simp
  qed
  ultimately show ?thesis using assms(2,3) by (simp add: bin_ok_def)
qed



definition demo_cfg :: solve_cfg where
  "demo_cfg = \<lparr>sc_debug = True, sc_lib = one_bit_lib, sc_mG = 1, sc_numItems = 1, sc_itemsPerBin = 3, sc_thrdBinSize = 3\<rparr>"






text \<open>
  With 255 sparse columns the 8-bit index type is picked, and \<open>init\<close> refuses it: neither
  solving nor decoding gets through (and likewise with 65535 and 16 bits).
\<close>
lemma index_type_too_small:
  assumes "sparse_size (bx_param bx) = 255" "oc_log2ceil cr 256 = 8" "oc_roundUpTo cr 8 8 = 8" "0 < bx_bins bx"
  shows "\<exists>e. baxos_solve cfg cr T rng bx inputs vals = Inl e"
    and "\<exists>e. baxos_decode cr bx add T inputs values p = Inl e"
proof -
  have w: "idx_width cr (bx_param bx) = 8" using assms by (simp add: idx_width_def)
  show "\<exists>e. baxos_decode cr bx add T inputs values p = Inl e"
    using implParDecode_refused [of 8 "bx_param bx"] assms(1) by (simp add: baxos_decode_def w)
  have init: "paxos_init 8 n (bx_param bx) = Inl (Runtime_error ''RTE_LOC'')" for n using assms(1) by (simp add: paxos_init_def)
  have one: "paxos_solve cfg mul 8 n (bx_param bx) hs vs r out = Inl (Runtime_error ''RTE_LOC'')" for mul n hs vs r out
    by (simp add: paxos_solve_def init)
  have bins: "mapR f [0..<bx_bins bx] = Inl e" if "f 0 = Inl e" for f :: "nat \<Rightarrow> block list result" and e
    using that assms(4) by (simp add: upt_conv_Cons)
  have all: "\<exists>e. (if d then Inl z else if a then Inl x else if b then Inl y else if c then Inl v else if d' then Inl v' else thread_throw T (rmap concat r)) = Inl e"
    if "r = Inl (Runtime_error e)" for a b c d d' x y z v v' T e and r :: "block list list result"
    using that by auto
  show "\<exists>e. baxos_solve cfg cr T rng bx inputs vals = Inl e"
    unfolding baxos_solve_def implParSolve_def w one Let_def by (rule all, rule bins) simp
qed

section \<open>The programmable function with its solver\<close>

text \<open>C18. The programmable function with \<open>Baxos::solve\<close> in both places: when the sizes fit and
  no bin has equal hashes or a row left for the gap, rows have 1 to 16 bytes, and the sender,
  who draws the free positions, has one thread or one bin, the protocol succeeds, the receiver
  gets the programmed value at every programmed key, and the sender's \<open>eval\<close> agrees with
  it everywhere; no property of the solver is assumed.
\<close>
theorem opprf_with_baxos:
  fixes cfg :: "baxos \<Rightarrow> solve_cfg"
  assumes "os_solve ss = (\<lambda>bx. baxos_solve (cfg bx) (os_crypto ss) (os_threads ss) None bx)"
    and "os_solve_rand ss = (\<lambda>bx. baxos_solve (cfg bx) (os_crypto ss) (os_threads ss) (Some draw) bx)"
    and "bx1 = os_init ss (length values) GF128 (os_oprf_seed ss)" "bx2 = os_init ss (length X) (row_type m) (os_seed ss)"
    and "solve_ok (cfg bx1) (os_crypto ss) K (os_threads ss) None bx1 values"
      "\<forall>b < bx_bins bx1. \<not> bin_stuck (gfMul (os_crypto ss)) (bx_param bx1) (bin_hashes (os_crypto ss) bx1 values b)"
    and "solve_ok (cfg bx2) (os_crypto ss) K (os_threads ss) (Some draw) bx2 X"
      "\<forall>b < bx_bins bx2. \<not> bin_stuck (gfMul (os_crypto ss)) (bx_param bx2) (bin_hashes (os_crypto ss) bx2 X b)"
    and "vole_shares (os_crypto ss) (os_D ss) (baxos_size bx1) (os_a ss) (os_b ss) (os_c ss)"
      "8 dvd os_chunk ss" "0 < os_chunk ss" "baxos_size bx1 < 2 * os_chunk ss"
    and "X \<noteq> []" "0 < m" "m \<le> 16" "\<forall>v \<in> set val. is_row m v" "length val = length X" "length outputs = length values"
  shows "\<exists>s F. opprf_protocol ss m (length values) (length X) X val values outputs = Inr (s, map F values) \<and>
    map F X = val \<and>
    (\<forall>T xs os. length os = length xs \<longrightarrow> opprf_eval (os_crypto ss) s m T xs os = Inr (map F xs))"
proof -
  let ?cr = "os_crypto ss"
  have solve: "\<exists>P. baxos_solve (cfg bx) ?cr (os_threads ss) rng bx keys vals = Inr P \<and> solves ?cr bx keys vals P"
    if "solve_ok (cfg bx) ?cr K (os_threads ss) rng bx keys" "length vals = length keys"
      "\<forall>b < bx_bins bx. \<not> bin_stuck (gfMul ?cr) (bx_param bx) (bin_hashes ?cr bx keys b)" for bx rng keys vals
    using baxos_solve_ok [OF that(1,2)] that(3) by blast
  have ok: "baxos_ok ?cr bx1" "baxos_ok ?cr bx2" using assms(5,7) by (simp_all add: solve_ok_def)
  have "oprf_session_ok ss values"
    using ok(1) assms(9-12) solve [OF assms(5) _ assms(6), of "map (hash_fixed ?cr) values"]
    by (simp add: oprf_session_ok_def Let_def assms(1) assms(3) [symmetric])
  then have "opprf_session_ok ss m X values"
    using ok(2) assms(13-15) solve [OF assms(7) _ assms(8)]
    by (simp add: opprf_session_ok_def Let_def assms(2) assms(4) [symmetric])
  then show ?thesis by (rule opprf_protocol_eq [OF _ assms(16-18)])
qed

text \<open>One key on both sides, one bin of five sparse columns and a dense one.\<close>
definition demo_bin :: baxos where
  "demo_bin = \<lparr>bx_param = demo_param Binary, bx_bins = 1, bx_seed = 0\<rparr>"

definition baxos_session :: opprf_session where
  "baxos_session = \<lparr>os_crypto = demo_crypto, os_init = (\<lambda>_ _ _. demo_bin),
     os_solve = (\<lambda>bx. baxos_solve demo_cfg demo_crypto 1 None bx),
     os_solve_rand = (\<lambda>bx. baxos_solve demo_cfg demo_crypto 1 (Some (\<lambda>_. of_nat)) bx), os_chunk = 8, os_malicious = False, os_threads = 1,
     os_oprf_seed = 3, os_seed = 4, os_ws = 10, os_wr = 20, os_D = 6, os_a = [2, 6, 0, 0, 0, 0], os_b = [0, 0, 0, 0, 0, 0],
     os_c = [3, 7, 0, 0, 0, 0]\<rparr>"

lemma demo_bin_facts:
  "bx_bins demo_bin = 1" "bx_param demo_bin = demo_param Binary" "baxos_size demo_bin = 6" "gfMul demo_crypto = (AND)"
  by (simp_all add: demo_bin_def demo_param_def baxos_size_def paxos_size_def demo_crypto_def)

lemma demo_bin_hash: "bin_hashes demo_crypto demo_bin [5] 0 = [5]"
  by code_simp

lemma demo_bin_gapless: "\<not> bin_stuck (AND) (demo_param Binary) [5]"
proof -
  have "map_option (map_sum id gapRows) (triangulate (bin_sys (AND) (demo_param Binary) [5])) = Some (Inr [])" by code_simp
  then show ?thesis by (auto simp: bin_stuck_def)
qed

lemma demo_bin_ok: "solve_ok demo_cfg demo_crypto K 1 rng demo_bin [5]"
proof -
  have prm: "param_ok (demo_param Binary)" by (simp add: demo_param_def param_ok_def)
  have "bin_ok 8 (AND) K (demo_param Binary) [5] r" for r
    by (rule small_bin_ok [OF prm]) (use demo_bin_gapless in \<open>simp_all add: demo_param_def\<close>)
  moreover have "idx_width demo_crypto (demo_param Binary) = 8" "sparse_size (demo_param Binary) = 5" "sc_lib demo_cfg = one_bit_lib"
    "sc_numItems demo_cfg = 1"
    by (simp_all add: demo_cfg_def idx_width_def demo_param_def demo_crypto_def)
  ultimately show ?thesis
    using prm one_bit_lib_ok gf_laws_AND by (simp add: solve_ok_def baxos_ok_def decode_fits_def demo_bin_facts demo_bin_hash)
qed

lemma opprf_with_baxos_witness:
  "\<exists>s F. opprf_protocol baxos_session 4 1 1 [5] [77] [5] [0] = Inr (s, map F [5]) \<and> map F [5 :: block] = [77]"
proof -
  have bx: "demo_bin = os_init baxos_session (length [5 :: block]) GF128 (os_oprf_seed baxos_session)"
    "demo_bin = os_init baxos_session (length [5 :: block]) (row_type 4) (os_seed baxos_session)" by (simp_all add: baxos_session_def)
  have "vole_shares demo_crypto 6 6 [2, 6, 0, 0, 0, 0] [0, 0, 0, 0, 0, 0] [3, 7, 0, 0, 0, 0]"
  proof -
    have "[2, 6, 0, 0, 0, 0] ! i XOR [0, 0, 0, 0, 0, 0] ! i = [3, 7, 0, 0, 0, 0] ! i AND (6 :: block)" if "i < 6" for i :: nat
    proof -
      have "i \<in> {0, 1, 2, 3, 4, 5}" using that by auto
      then show ?thesis by auto
    qed
    then show ?thesis by (simp add: vole_shares_def demo_crypto_def)
  qed
  then have "\<exists>s F. opprf_protocol baxos_session 4 1 1 [5] [77] [5] [0] = Inr (s, map F [5]) \<and> map F [5] = [77] \<and>
      (\<forall>T xs os. length os = length xs \<longrightarrow> opprf_eval (os_crypto baxos_session) s 4 T xs os = Inr (map F xs))"
    using opprf_with_baxos [OF _ _ bx, of "\<lambda>_. demo_cfg" "\<lambda>_. of_nat" UNIV "[77]" "[0]"] demo_bin_ok demo_bin_gapless
    by (simp add: baxos_session_def demo_bin_facts demo_bin_hash is_row_def low_bytes_def)
  then show ?thesis by (elim exE conjE) (intro exI conjI)
qed

end
