(* ===== verification/Ufmap_Demo.thy ===== *)
theory Ufmap_Demo
  imports Ufmap Fmap_Demo Baxos_Session
begin

text \<open>
  A run of the unique fuzzy mapping with one point on each side, over the ideal
  stores and sessions.
\<close>

definition ud_prf :: "block \<Rightarrow> block" where
  "ud_prf x = mk_block (low64 x) 0"

definition ud_S :: ufmap_party where
  "ud_S = ufmap_setUp 6 ud_prf (\<lambda>_ m. m) (\<lambda>_ _. 77) (\<lambda>_. of_nat) (\<lambda>_. 0) (\<lambda>_. 9)"

definition ud_R :: ufmap_party where
  "ud_R = ufmap_setUp 3 ud_prf (\<lambda>_ m. m) (\<lambda>_ _. 33) (\<lambda>_. of_nat) (\<lambda>_. 0) (\<lambda>_. 5)"

text \<open>The vector OLE whose receiver's inputs are \<open>[12]\<close>.\<close>
definition ud_vole :: "block \<Rightarrow> vole_out" where
  "ud_vole delta = \<lparr>vo_c = [12], vo_a = [7 XOR (delta AND 12)], vo_d = [7]\<rparr>"

lemma ud_low64: "low64 105 = 105" "low64 96 = 96" "low64 3 = 3" "low64 4 = 4" "low64 5 = 5"
  using lanes_of_nat(1) [of 105] lanes_of_nat(1) [of 96] lanes_of_nat(1) [of 3] lanes_of_nat(1) [of 4] lanes_of_nat(1) [of 5] by simp_all

lemma ud_block: "coordinateBlock 0 5 = 5" "coordinateBlock 0 4 = 4" "coordinateBlock 0 3 = 3" "coordinateBlock 0 0 = 0"
  using lanes_of_nat(3) [of 5] lanes_of_nat(3) [of 4] lanes_of_nat(3) [of 3] lanes_of_nat(3) [of 0]
  by (simp_all add: coordinateBlock_def fromLow64_def)

lemma ud_cells:
  "canonicalBlock4Delta 105 10 = 4" "canonicalBlock4Delta 96 10 = 4"
  "makeCandidates [105] 1 1 10 = [5, 4]" "makeCandidates [96] 1 1 10 = [4, 3]" "makeCandidates [5] 1 1 10 = [0, 0]"
  by (simp_all add: canonicalBlock4Delta_def makeCandidates_def candidateBlocks_def cell2Delta_def left2Delta_def Let_def ud_low64 ud_block
      numeral_2_eq_2 [symmetric] upt_rec)

text \<open>Both parties encode the block 4.\<close>
lemma ud_ids:
  "u_party_ids ud_S 10 1 1 [105] = Some \<lparr>es_ids = [fromLow64 77], es_keys = [[4]], es_values = [[fromLow64 77 XOR ud_prf 4]]\<rparr>"
  "u_party_ids ud_R 10 1 1 [96] = Some \<lparr>es_ids = [fromLow64 33], es_keys = [[4]], es_values = [[fromLow64 33 XOR ud_prf 4]]\<rparr>"
  by (simp_all add: u_party_ids_def u_getID_def uid_dim_def fmd_column uid_step_def ud_cells ud_block Let_def emplace_def
      uid_pairs_def ud_S_def ud_R_def ufmap_setUp_def pad_loop.simps)

lemma ud_stores: "u_stores_ok fmd_env \<lparr>es_ids = ids, es_keys = [[b]], es_values = [[v]]\<rparr> 1 1 seed"
  by (simp add: u_stores_ok_def fmd_store)

lemma ud_shares: "length C = 2 \<Longrightarrow> u_shares_ok p C [0, 0] (map (up_prf p) C)"
  by (auto simp: u_shares_ok_def less_Suc_eq numeral_2_eq_2)

text \<open>The tables and what the querier decodes.\<close>
lemma ud_decode:
  assumes "makeCandidates [x] 1 1 10 = [c0, c1]"
  shows "sendEncoding fmd_env \<lparr>es_ids = ids, es_keys = [[b]], es_values = [[v]]\<rparr> 1 1 seed = Inr [slot_table (slot_lookup [b] [v])]"
    "receiveAndDecode fmd_env [x] 1 1 1 10 seed [slot_table (slot_lookup [b] [v])] = Inr [slot_lookup [b] [v] (slot c0), slot_lookup [b] [v] (slot c1)]"
proof -
  show "sendEncoding fmd_env \<lparr>es_ids = ids, es_keys = [[b]], es_values = [[v]]\<rparr> 1 1 seed = Inr [slot_table (slot_lookup [b] [v])]"
    by (simp add: sendEncoding_def fmd_env_def)
  have "map (dim_candidate [x] 1 10 0) [0..<2] = [c0, c1]"
    using assms by (simp add: makeCandidates_def dim_candidate_def upt_rec Let_def)
  then show "receiveAndDecode fmd_env [x] 1 1 1 10 seed [slot_table (slot_lookup [b] [v])] =
      Inr [slot_lookup [b] [v] (slot c0), slot_lookup [b] [v] (slot c1)]"
    using baxos_decode_eq [OF ideal_ok, of "slot_table (slot_lookup [b] [v])" 1 GF128 "seed 0" "[0, 0]" "[c0, c1]" True 1]
    by (simp add: receiveAndDecode_def fmd_env_def ideal_size put_value_def numeral_2_eq_2 upt_rec)
qed

lemma high64_prf: "high64 (ud_prf x) = low64 x"
proof -
  have "\<not> bit (low64 x) (64 + n)" for n using bit_imp_le_length [of "low64 x" "64 + n"] by auto
  then show ?thesis
    unfolding high64_def ud_prf_def mk_block_def by (intro bit_word_eqI) (simp add: bit_simps)
qed

lemma ud_slots: "slot 5 = 5" "slot 4 = 4" "slot 3 = 3" "slot 0 = 0"
  by (simp_all add: slot_def slots_def)

lemma ud_lookup: "slot_lookup [4] [v] 4 = v" "slot_lookup [4] [v] 5 = 0" "slot_lookup [4] [v] 3 = 0" "slot_lookup [4] [v] 0 = 0"
  by (simp_all add: slot_lookup_def ud_slots)

lemma ud_aligned: "applyAlignment [a, b] (makeAlignment [0, 0]) = [a, b]"
  by (simp add: applyAlignment_def makeAlignment_def)

lemma ud_keys:
  "fst (programBopprf [d0, d1] [a, b] share) = [fromLow64 (high64 (d0 XOR a)), fromLow64 (high64 (d1 XOR b))]"
  by (simp add: programBopprf_def Let_def numeral_2_eq_2)

lemma ud_low: "fromLow64 0 = 0" "fromLow64 3 = 3" "fromLow64 5 = 5"
  using lanes_of_nat(3) [of 0] lanes_of_nat(3) [of 3] lanes_of_nat(3) [of 5] by (simp_all add: fromLow64_def)

lemma ud_match: "high64 (fromLow64 r) = 0" "high64 (ud_prf 3) = 3" "high64 (ud_prf 5) = 5"
  by (simp_all add: fromLow64_lanes high64_prf ud_low64)

lemma ud_sessions:
  assumes C: "makeCandidates [x] 1 1 10 = C" "(C = [5, 4] \<or> C = [4, 3])" and p: "up_prf p = ud_prf"
  shows "u_session_ok fmd_env ideal_session 10 1 p q 1 1 \<lparr>es_ids = ids, es_keys = [[4]], es_values = [[fromLow64 r XOR ud_prf 4]]\<rparr> [x]
    [0, 0] (map (up_prf p) C)"
proof -
  have "opprf_session_ok ideal_session 16 [5, 0] qs" "opprf_session_ok ideal_session 16 [0, 3] qs" for qs
    by (simp_all add: ideal_session_ok ud_slots)
  then show ?thesis
    using C(2) ud_decode [of x 5 4] ud_decode [of x 4 3] C(1) unfolding u_session_ok_def p
    by (auto simp: ud_slots ud_lookup ud_aligned ud_keys ud_match ud_low)
qed

lemma ud_voles: "vole_out_ok (gfMul (fm_crypto fmd_env)) d 1 (ud_vole d)"
  by (simp add: vole_out_ok_def ud_vole_def fmd_env_def ideal_crypto_def)

lemma ud_parties: "up_prf ud_S = ud_prf" "up_prf ud_R = ud_prf" "up_delta ud_S = 6" "up_delta ud_R = 3"
  by (simp_all add: ud_S_def ud_R_def ufmap_setUp_def)

lemma ud_dirs:
  "u_dir_ok fmd_env ideal_session 10 1 ud_S ud_R 1 1 [105] [96] ([0, 0], map ud_prf [4, 3]) (ud_vole 3) (ud_vole 6)"
  "u_dir_ok fmd_env ideal_session 10 1 ud_R ud_S 1 1 [96] [105] ([0, 0], map ud_prf [5, 4]) (ud_vole 6) (ud_vole 3)"
  unfolding u_dir_ok_def ud_cells ud_parties ud_ids
  using ud_stores ud_sessions [OF ud_cells(4), of ud_S] ud_sessions [OF ud_cells(3), of ud_R]
    ud_shares [of "[4, 3]" ud_S] ud_shares [of "[5, 4]" ud_R] ud_voles
  unfolding ud_parties by simp_all

lemma ud_party_ok: "u_party_ok ud_S 1 1" "u_party_ok ud_R 1 1"
proof -
  have "fresh_draws 1 of_nat" using fresh_of_nat unfolding fresh_draws_def by fastforce
  then show "u_party_ok ud_S 1 1" "u_party_ok ud_R 1 1"
    by (simp_all add: u_party_ok_def walk_ok_def ud_S_def ud_R_def ufmap_setUp_def)
qed

text \<open>The points 96 and 105 are within the radius 10 and get the same identifier.\<close>
theorem u_fuzzyMap_near_witness:
  "\<exists>recv_ids send_ids origins.
    u_fuzzyMap fmd_env ideal_session ideal_session 10 1 ud_S ud_R 1 1 [105] [96] ([0, 0], map ud_prf [4, 3]) ([0, 0], map ud_prf [5, 4])
      (\<lambda>i. if i = 0 \<or> i = 3 then ud_vole 3 else ud_vole 6) = Some (Inr (recv_ids, send_ids, origins)) \<and> recv_ids ! 0 = send_ids ! 0"
proof -
  have mul: "gf_laws (gfMul (fm_crypto fmd_env))" using gf_laws_AND by (simp add: fmd_env_def ideal_crypto_def)
  have "u_near 10 1 [96] 0 [105] 0" by (simp add: u_near_def ud_low64)
  then show ?thesis
    using u_fuzzyMap_near [OF _ _ ud_party_ok mul, of 10 ideal_session "[105]" "[96]" "([0, 0], map ud_prf [4, 3])"
        "\<lambda>i. if i = 0 \<or> i = 3 then ud_vole 3 else ud_vole 6" ideal_session "([0, 0], map ud_prf [5, 4])"] ud_dirs
    by fastforce
qed

text \<open>The ideal session with \<open>Baxos::solve\<close> for the second table, for two keys.\<close>
definition ud_cfg :: solve_cfg where
  "ud_cfg = demo_cfg\<lparr>sc_debug := False, sc_numItems := 2\<rparr>"

definition ud_session :: opprf_session where
  "ud_session = ideal_session\<lparr>os_solve_rand := (\<lambda>bx. baxos_solve ud_cfg ideal_crypto 1 (Some (\<lambda>_. of_nat)) bx)\<rparr>"

lemma ud_session_fields:
  "os_solve_rand ud_session = (\<lambda>bx. baxos_solve ud_cfg (os_crypto ud_session) (os_threads ud_session) (Some (\<lambda>_. of_nat)) bx)"
  "os_crypto ud_session = ideal_crypto" "os_threads ud_session = 1" "os_init ud_session = ideal_init"
  by (simp_all add: ud_session_def ideal_session_def)

lemma ud_oprf_ok: "oprf_session_ok ud_session qs"
  using ideal_oprf_ok [of qs] by (simp add: oprf_session_ok_def ud_session_def)

text \<open>Two equal keys fit the solver's conditions: all rows are the same.\<close>
lemma ud_solve_ok: "solve_ok ud_cfg ideal_crypto K 1 (Some draw) (ideal_init n GF128 seed) [x, x]"
proof -
  let ?bx = "ideal_init n GF128 seed"
  let ?prm = "bx_param ?bx" and ?sys = "bin_sys (gfMul ideal_crypto) (bx_param ?bx) [x, x]"
  have prm: "param_ok ?prm" using ideal_ok [of n GF128 seed] by (simp add: baxos_ok_def)
  have hs: "bin_hashes ideal_crypto ?bx [x, x] 0 = [x, x]"
    by (simp add: bin_hashes_def bin_idxs_def ideal_init_def ideal_crypto_def modNumBins_def)
  have "build_row mul ?prm h \<noteq> []" for mul h using build_row_ok(1) [OF prm] prm by (metis length_0_conv less_irrefl param_ok_def)
  then have "rows_ok (sparse_size ?prm) (map (build_row mul ?prm) [x, x])" for mul
    using build_row_ok(2,3) [OF prm] by (auto simp: rows_ok_def)
  then have light: "\<forall>c \<in> set (mCols ?sys). length c < 200"
    using light_columns [of "sparse_size ?prm" "map (build_row (gfMul ideal_crypto) ?prm) [x, x]"] by (simp add: bin_sys_def set_input_def)
  have rows: "mRows ?sys ! a = mRows ?sys ! b" if "a < 2" "b < 2" for a b
    using that by (auto simp: bin_sys_def set_input_def less_2_cases_iff)
  have rep: "gap_repeats (mRows ?sys) ts" if t: "triangulate ?sys = Some (Inr ts)" for ts
  proof -
    have sys: "sys_ok ?prm ?sys" by (rule bin_sys_ok [OF prm light])
    then have "triangular (mRows ?sys) ts"
      using triangulate_ok [of "sparse_size ?prm" ?sys] t by (auto simp: sys_ok_def param_ok_def)
    moreover have "length (mRows ?sys) = 2" by (simp add: bin_sys_def set_input_def)
    ultimately have tri: "fst ` set (gapRows ts) \<subseteq> {..<2}" "snd ` set (gapRows ts) \<subseteq> {..<2}" unfolding triangular_def by auto
    have "fst g < 2 \<and> snd g < 2" if "g \<in> set (gapRows ts)" for g using tri that by auto
    then show ?thesis using rows unfolding gap_repeats_def by blast
  qed
  have "idx_width ideal_crypto ?prm = 64" by (simp add: idx_width_def ideal_init_def ideal_crypto_def slots_def)
  then have "bin_ok (idx_width ideal_crypto ?prm) (gfMul ideal_crypto) K ?prm [x, x] (Some (draw 0))"
    using light rep by (simp add: bin_ok_def) (simp add: ideal_init_def slots_def)
  moreover have "bx_bins ?bx = 1" by (simp add: ideal_init_def)
  ultimately show ?thesis
    using ideal_ok [of n GF128 seed] one_bit_lib_ok hs by (simp add: solve_ok_def ud_cfg_def demo_cfg_def)
qed

text \<open>The coordinate 5 is below two radii: a release build does not get through either.\<close>
theorem small_coordinate_repeats_key_witness:
  "\<exists>e. u_round fmd_env ud_session 10 1 ud_S ud_R 1 1 \<lparr>es_ids = [0], es_keys = [[4]], es_values = [[1]]\<rparr> [0] [5] [0, 0] (map ud_prf [0, 0])
    (ud_vole 3) (ud_vole 6) = Inl (Runtime_error e)"
proof -
  have sh: "u_shares_ok ud_S (makeCandidates [5] 1 1 10) [0, 0] (map ud_prf [0, 0])"
    using ud_shares [of "[0, 0]" ud_S] unfolding ud_cells ud_parties by simp
  have fits: "solve_ok ud_cfg (os_crypto ud_session) UNIV (os_threads ud_session) (Some (\<lambda>_. of_nat)) (os_init ud_session (2 * (1 * 1)) GF128 (os_seed ud_session))
      (fst (programBopprf decoded (applyAlignment (map ud_prf [0, 0]) (makeAlignment [0, 0])) (up_share ud_R)))"
    if "sendEncoding fmd_env \<lparr>es_ids = [0], es_keys = [[4]], es_values = [[1]]\<rparr> 1 1 (up_seed ud_S) = Inr tables"
      "receiveAndDecode fmd_env [5] 1 1 1 10 (up_seed ud_S) tables = Inr decoded" for tables decoded
  proof -
    note ud_decode [OF ud_cells(5)]
    then have "decoded = [slot_lookup [4] [1] (slot 0), slot_lookup [4] [1] (slot 0)]" using that by (metis sum.inject(2))
    then show ?thesis using ud_solve_ok by (simp add: ud_session_fields ud_aligned ud_keys)
  qed
  have "\<exists>tables decoded keys vals ps. sendEncoding fmd_env \<lparr>es_ids = [0], es_keys = [[4]], es_values = [[1]]\<rparr> 1 1 (up_seed ud_S) = Inr tables \<and>
    receiveAndDecode fmd_env [5] 1 1 1 10 (up_seed ud_S) tables = Inr decoded \<and>
    programBopprf decoded (applyAlignment (map ud_prf [0, 0]) (makeAlignment [0, 0])) (up_share ud_R) = (keys, vals, ps) \<and>
    keys ! (2 * (0 * 1 + 0)) = keys ! (2 * (0 * 1 + 0) + 1) \<and> vals ! (2 * (0 * 1 + 0)) = vals ! (2 * (0 * 1 + 0) + 1) \<and>
    (\<exists>e. u_round fmd_env ud_session 10 1 ud_S ud_R 1 1 \<lparr>es_ids = [0], es_keys = [[4]], es_values = [[1]]\<rparr> [0] [5] [0, 0] (map ud_prf [0, 0])
      (ud_vole 3) (ud_vole 6) = Inl (Runtime_error e))"
    by (rule small_coordinate_repeats_key [where K = UNIV, OF _ _ ud_stores _ sh _ _ _ ud_oprf_ok ud_session_fields(1)])
      (use fits in \<open>simp_all add: ud_low64\<close>)
  then show ?thesis by blast
qed

end
