(* ===== verification/Spec2Isabelle.thy ===== *)
theory Spec2Isabelle
  imports Params Dist_Util Equality Paxos_Decode Oprf Opprf Simple_Index Fmat Fpsi_Linf Ideal_Session List_Hash Linf_Demo If_Match
    Fpsi_Lp Lp_Demo Fpsi_Online Online_Demo Fmap_Id Fmap Fmap_Demo Ufmap_Id Ufmap Ufmap_Demo
    Gf_Matrix Paxos_Solve Paxos_Encode Paxos_Binary Baxos_Solve Baxos_Session
begin

text \<open>
  A verification library for the fuzzy private set intersection program in fpsi/.
  Two parties, a receiver and a sender, hold points with \<open>u64\<close> coordinates; the
  receiver learns which of the sender's points lie within \<open>delta\<close> of one of its own,
  for the maximum norm or for a sum of powers of the coordinate distances.

  The program and the theories.  A run has an offline and an online phase
  (fpsi_recv.cpp, fpsi_sender.cpp).  Offline, every point gets identifiers, from the
  grid cells around it (utils/dist_util.cpp) or from a fuzzy mapping (cmp_fmap/fmap.cpp,
  ufmap/ufmap.cpp).  Online, the receiver puts its identifiers in a simple hash table
  (opprf/SimpleIndex), the sender in a cuckoo table; for every bin the parties compare
  the points behind the identifiers in shares, through the interval decomposition
  (utils/set_dec.cpp), the programmable function (opprf/Opprf.cpp) and the equality
  tests (pis_new/), and transfer the identifiers of the bins that match.

  \<^item> \<open>Prelude\<close>: machine integers (\<open>u8\<close>, \<open>u32\<close>, \<open>u64\<close> and the 128-bit block as words), the
    errors that are thrown, the result type, and the lemmas and collections that the
    components share.
  \<^item> \<open>Set_Dec\<close> (utils/set_dec.cpp) and \<open>Params\<close> (utils/params_selects.h): an interval as a
    list of binary prefixes, and the tables of prefix lengths.  The decomposition
    partitions the interval, membership is meeting in one string, and the tables
    reserve enough strings.
  \<^item> \<open>Dist_Util\<close> (utils/dist_util.cpp): cells, distances, the cells a ball may touch.
  \<^item> \<open>Equality\<close> (pis_new/): Beaver triples, the shared equality test and the batched
    equality, membership and index search over it, both parties in lockstep.
  \<^item> \<open>Paxos_Decode\<close>, \<open>Gf_Matrix\<close>, \<open>Paxos_Solve\<close>, \<open>Paxos_Encode\<close>, \<open>Paxos_Binary\<close>,
    \<open>Baxos_Solve\<close>, \<open>Baxos_Session\<close> (opprf/Paxos.h, PaxosImpl.h, PxUtil.h): the key-value
    store.  Decoding builds the sparse row of a key and sums the table over it, in bins
    and by threads.  Solving sorts columns by weight, triangulates, inverts the gap and
    substitutes back.  The parallel decoder is equal to decoding every key; triangulation
    ends in a well formed result; a solved table decodes every key to its value, or
    the solver throws for a stated reason; it never solves for a key that is there twice.
  \<^item> \<open>Oprf\<close>, \<open>Opprf\<close> (opprf/Oprf.cpp, Opprf.cpp): the oblivious pseudo random function and
    the programmable function on top of the key-value store, for tables of less than two
    chunks and rows of 1 to 16 bytes; \<open>Ideal_Session\<close> and
    \<open>List_Hash\<close> hold concrete sessions, with which the hypotheses on sessions are shown
    to be satisfiable.
  \<^item> \<open>Simple_Index\<close> (opprf/SimpleIndex): the packed items and the insertion into bins.
  \<^item> \<open>Fmat\<close>, \<open>Fpsi_Linf\<close>, \<open>If_Match\<close>, \<open>Fpsi_Lp\<close>, \<open>Fpsi_Online\<close> (fpsi_recv.cpp,
    fpsi_sender.cpp): the matching of the points of a bin for both kinds of distance and
    both ways to identify, the interval match of sums, and the offline and online
    phases.  Each matching is complete: near points give different shares.  The
    online properties compose everything above.  \<open>Linf_Demo\<close>, \<open>Lp_Demo\<close> and
    \<open>Online_Demo\<close> evaluate runs with one point on each side.
  \<^item> \<open>Fmap_Id\<close>, \<open>Fmap\<close>, \<open>Fmap_Demo\<close> (cmp_fmap/fmap.cpp) and \<open>Ufmap_Id\<close>, \<open>Ufmap\<close>,
    \<open>Ufmap_Demo\<close> (ufmap/ufmap.cpp): the labels of the cells around the points and the
    protocols that turn sums of labels into identifiers; near points get the same
    identifier on both sides.

  Interfaces.  \<open>programmable\<close> (in \<open>Opprf\<close>) is what the matchings use of the programmable
  function; \<open>linear_decoder\<close> (in \<open>Paxos_Decode\<close>) is a decoder that is linear in its table;
  \<open>share_equality\<close> (in \<open>Equality\<close>) is the equality test as the batched protocols use it;
  \<open>linf_lists\<close> (in \<open>Fpsi_Linf\<close>) is what the two ways to list the programmed keys have in
  common.  Each is interpreted on the definitions of the code in the theory that
  states it.

  How the code is read.  Two parties that exchange messages are one function on both
  states; a message is a value that one side returns and the other takes.  A thrown
  exception, an assertion that inputs can violate and a read out of range are \<open>Inl\<close> values
  of the result type; the check that the keys of a store are distinct, which is compiled in
  debug builds only, is modelled for both builds.  Integers keep their width wherever they
  can wrap, the shifts of \<open>int\<close> values included.  Work that is split among threads
  is a fold over the chunks in the order of the threads, which is right because the
  chunks write to disjoint ranges; an exception in one of several threads ends the process
  (\<open>Terminate\<close>), and a generator that several threads draw from is undefined behaviour.  Loops whose end is not clear from their shape, the
  triangulation, the row reduction \<open>getFCInv\<close>, the walk to the origin of a run of cells,
  the padding of the labels and the masked sending, are partial functions into options,
  and theorems state that they return, under which conditions.  No other loop needs
  fuel.

  What is an argument.  The crypto library: the product in GF(2^128), AES, the hash
  functions, the random oracle (the record \<open>crypto\<close>), oblivious transfer, vector OLE and
  the shared pseudo random function, whose documented relations between the parties'
  outputs are the named hypotheses (\<open>vole_shares\<close>, \<open>rot_ok\<close>, \<open>prf_shares_ok\<close> and
  others); the cuckoo index; random draws; and the sizes that \<open>PaxosParam::init\<close>,
  \<open>Baxos::init\<close> and \<open>get_bin_size\<close> compute in floating point.  Hashes are assumed free of
  collisions only on the byte strings a run hashes.

  Undefined behaviour is an error or excluded by a hypothesis: a shift by the width or
  more (\<open>Set_Dec\<close>, \<open>Equality\<close>), a column weight of 200 or more or reading the last of no
  sets of columns (\<open>Paxos_Solve\<close>), a generator shared by threads or a bin that overflows (\<open>Baxos_Solve\<close>, \<open>Simple_Index\<close>), reads
  past the end of a vector.

  Not modelled.  fpsi_protocol.cpp and frontend/ drive the protocols, time them and
  print.  The parts of fpsi_recv.cpp and fpsi_sender.cpp under \<open>#if 0\<close> are not compiled;
  they hold an earlier protocol over the homomorphic encryption of a library.
  rb_okvs/, utils/commu_util.cpp and utils/data_conversion_util.cpp are
  only called from there.
  In Opprf.cpp, the counter-mode branches for rows of more than 16 bytes, which no protocol uses.
  cmp_fmap/oprfso.cpp only sets up and calls the library for secure joins.  The tables of
  \<open>get_bin_size\<close> and the sizes in floating point are approximations without a
  specification.  Security, that is the distribution of what a party sees, is not stated;
  the findings about masks come from functional properties.
\<close>

end
